(* ===== verification/Prelude.thy ===== *)
theory Prelude
  imports Main "HOL-Library.Word" "HOL-Library.AList"
begin

text \<open>
  Shared vocabulary of the development: Go's bytes and machine integers, the clock,
  the encodings of Go's standard library that the sources call (hexadecimal strings and
  big-endian integers), Go maps that are iterated over (association lists), and the two
  generic interfaces of a component whose operations keep an invariant.
\<close>

unbundle bit_operations_syntax

section \<open>Machine integers, bytes and the clock\<close>

type_synonym byte = "8 word"
type_synonym bytes = "byte list"

text \<open>
  Go's \<open>int\<close> and \<open>int64\<close> are modelled as \<open>int\<close> with the wrap-around written out;
  \<open>uint64\<close> values as \<open>64 word\<close>. Division and remainder truncate towards zero.
\<close>

definition wrap64 :: "int \<Rightarrow> int" where
  "wrap64 x = (x + 2 ^ 63) mod 2 ^ 64 - 2 ^ 63"

definition in_int64 :: "int \<Rightarrow> bool" where
  "in_int64 x \<longleftrightarrow> - (2 ^ 63) \<le> x \<and> x < 2 ^ 63"

definition tdiv :: "int \<Rightarrow> int \<Rightarrow> int" where
  "tdiv a b = sgn a * sgn b * (\<bar>a\<bar> div \<bar>b\<bar>)"

definition tmod :: "int \<Rightarrow> int \<Rightarrow> int" where
  "tmod a b = a - b * tdiv a b"

text \<open>
  A \<open>time.Time\<close> is the number of nanoseconds since the zero time, a \<open>time.Duration\<close> a
  number of nanoseconds; \<open>Time.Sub\<close> saturates at the bounds of a duration.
\<close>

type_synonym gotime = int
type_synonym duration = int

definition zero_time :: gotime where
  "zero_time = 0"

definition time_sub :: "gotime \<Rightarrow> gotime \<Rightarrow> duration" where
  "time_sub t u = max (- (2 ^ 63)) (min (2 ^ 63 - 1) (t - u))"

definition second :: duration where
  "second = 1000000000"

definition minute :: duration where
  "minute = 60 * second"

definition hour :: duration where
  "hour = 60 * minute"

section \<open>Hexadecimal strings and big-endian integers\<close>

datatype hex_error = ErrLength | InvalidByteError char

definition hex_digit :: "nat \<Rightarrow> char" where
  "hex_digit n = char_of (if n < 10 then n + 48 else n + 87)"

definition from_hex_char :: "char \<Rightarrow> nat option" where
  "from_hex_char c =
     (let n = of_char c in
      if 48 \<le> n \<and> n \<le> 57 then Some (n - 48)
      else if 97 \<le> n \<and> n \<le> 102 then Some (n - 87)
      else if 65 \<le> n \<and> n \<le> 70 then Some (n - 55)
      else None)"

fun hex_encode :: "bytes \<Rightarrow> string" where
  "hex_encode [] = []"
| "hex_encode (b # bs) = hex_digit (unat b div 16) # hex_digit (unat b mod 16) # hex_encode bs"

fun hex_decode :: "string \<Rightarrow> hex_error + bytes" where
  "hex_decode [] = Inr []"
| "hex_decode [p] =
     (case from_hex_char p of None \<Rightarrow> Inl (InvalidByteError p) | Some _ \<Rightarrow> Inl ErrLength)"
| "hex_decode (p # q # rest) =
     (case from_hex_char p of
        None \<Rightarrow> Inl (InvalidByteError p)
      | Some a \<Rightarrow>
          (case from_hex_char q of
             None \<Rightarrow> Inl (InvalidByteError q)
           | Some b \<Rightarrow>
               (case hex_decode rest of
                  Inl e \<Rightarrow> Inl e
                | Inr bs \<Rightarrow> Inr (word_of_nat (16 * a + b) # bs))))"

fun be_nat :: "bytes \<Rightarrow> nat" where
  "be_nat [] = 0"
| "be_nat (b # bs) = unat b * 256 ^ length bs + be_nat bs"

section \<open>Slices\<close>

text \<open>\<open>append(xs[:i], xs[i+1:]...)\<close>: the list without its element at index \<open>i\<close>.\<close>

definition remove_at :: "nat \<Rightarrow> 'a list \<Rightarrow> 'a list" where
  "remove_at i xs = take i xs @ drop (Suc i) xs"

section \<open>Components whose operations keep an invariant\<close>

text \<open>
  The contract of a component that is driven by a sequence of atomic operations (each
  runs under the component's lock): one law, that an operation keeps the invariant, gives
  the invariant after every sequence of operations, in any order.
\<close>

locale op_machine =
  fixes app :: "'op \<Rightarrow> 's \<Rightarrow> 's"
    and inv :: "'s \<Rightarrow> bool"
  assumes inv_app: "inv s \<Longrightarrow> inv (app x s)"
begin

lemma inv_run: "inv s \<Longrightarrow> inv (fold app xs s)"
  by (induction xs arbitrary: s) (auto intro: inv_app)

end

text \<open>
  The same contract with a measure of progress: a quantity of the state that no operation
  lowers never decreases over a run.
\<close>

locale mono_machine = op_machine app inv
  for app :: "'op \<Rightarrow> 's \<Rightarrow> 's" and inv :: "'s \<Rightarrow> bool" +
  fixes val :: "'s \<Rightarrow> 'v::order"
  assumes val_app: "inv s \<Longrightarrow> val s \<le> val (app x s)"
begin

lemma val_run: "inv s \<Longrightarrow> val s \<le> val (fold app xs s)"
proof (induction xs arbitrary: s)
  case (Cons x xs)
  have "val s \<le> val (app x s)"
    using Cons.prems by (rule val_app)
  also have "\<dots> \<le> val (fold app xs (app x s))"
    using Cons.prems by (intro Cons.IH inv_app)
  finally show ?case by simp
qed simp

end

section \<open>Lemmas\<close>

named_theorems go_arith \<open>wrap-around arithmetic inside the range of the machine integers\<close>
named_theorems gomap \<open>Go maps as association lists\<close>

lemma wrap64_id [go_arith]: "in_int64 x \<Longrightarrow> wrap64 x = x"
  by (simp add: wrap64_def in_int64_def)

lemma wrap64_range: "in_int64 (wrap64 x)"
proof -
  have "0 \<le> (x + 2 ^ 63) mod 2 ^ 64" "(x + 2 ^ 63) mod 2 ^ 64 < 2 ^ 64"
    by (simp_all add: pos_mod_bound)
  then show ?thesis by (simp add: wrap64_def in_int64_def)
qed

lemma tdiv_nonneg [go_arith]: "0 \<le> a \<Longrightarrow> 0 < b \<Longrightarrow> tdiv a b = a div b"
  by (cases "a = 0") (simp_all add: tdiv_def)

lemma tmod_nonneg [go_arith]: "0 \<le> a \<Longrightarrow> 0 < b \<Longrightarrow> tmod a b = a mod b"
  by (simp add: tmod_def tdiv_nonneg minus_mult_div_eq_mod)

lemma tdiv_mono: "a \<le> b \<Longrightarrow> 0 < c \<Longrightarrow> tdiv a c \<le> tdiv b c"
proof -
  assume ab: "a \<le> b" "0 < c"
  have p: "tdiv x c = (if 0 \<le> x then x div c else - ((- x) div c))" for x
    using ab(2) by (auto simp: tdiv_def sgn_if abs_if)
  consider "0 \<le> a" | "a < 0" "0 \<le> b" | "b < 0" by linarith
  then show ?thesis
  proof cases
    case 1 then show ?thesis using ab by (simp add: p zdiv_mono1)
  next
    case 2
    then have "0 \<le> (- a) div c" "0 \<le> b div c" using ab(2) by (simp_all add: pos_imp_zdiv_nonneg_iff)
    with 2 show ?thesis by (simp add: p)
  next
    case 3
    then have "(- b) div c \<le> (- a) div c" using ab by (intro zdiv_mono1) auto
    with 3 ab show ?thesis by (simp add: p)
  qed
qed

lemma time_sub_small [go_arith]: "in_int64 (t - u) \<Longrightarrow> time_sub t u = t - u"
  by (simp add: time_sub_def in_int64_def)

lemma time_sub_mono: "t \<le> t' \<Longrightarrow> time_sub t u \<le> time_sub t' u"
  by (simp add: time_sub_def)

lemmas go_durations = second_def minute_def hour_def

lemma unat_byte_less: "unat (b :: byte) < 256"
proof -
  have "unat b < 2 ^ LENGTH(8)" by (rule unsigned_less)
  then show ?thesis by simp
qed

lemma uint8_pred: "1 \<le> n \<Longrightarrow> n < 256 \<Longrightarrow> uint (word_of_int n - 1 :: byte) = n - 1"
proof -
  assume "1 \<le> n" "n < 256"
  then have "uint (word_of_int (n - 1) :: byte) = n - 1"
    by (simp only: uint_word_of_int) simp
  then show ?thesis by simp
qed
lemma byte_uint_less: "uint (b :: byte) < 256"
proof -
  have "uint b < 2 ^ LENGTH(8)" by (rule unsigned_less)
  then show ?thesis by simp
qed

lemma unat_less_nat_iff: "unat (w :: byte) < nat m \<longleftrightarrow> uint w < m"
proof -
  have "unat w = nat (uint w)" "0 \<le> uint w" by simp_all
  then show ?thesis by (metis nat_less_eq_zless)
qed

lemma of_char_hex_digit: "n < 16 \<Longrightarrow> of_char (hex_digit n) = (if n < 10 then n + 48 else n + 87)"
  by (simp add: hex_digit_def)

lemma from_hex_digit [simp]: "n < 16 \<Longrightarrow> from_hex_char (hex_digit n) = Some n"
  by (simp add: from_hex_char_def of_char_hex_digit Let_def)

lemma hex_decode_encode [simp]: "hex_decode (hex_encode bs) = Inr bs"
proof (induction bs)
  case (Cons b bs)
  have b: "unat b < 256"
    by (rule unat_byte_less)
  then have "unat b div 16 < 16" by arith
  moreover have "(word_of_nat (16 * (unat b div 16) + unat b mod 16) :: byte) = b"
    by simp
  ultimately show ?case using Cons.IH by simp
qed simp

lemma hex_encode_inject [simp]: "hex_encode xs = hex_encode ys \<longleftrightarrow> xs = ys"
  by (metis hex_decode_encode sum.inject(2))

lemma be_nat_bound: "be_nat bs < 256 ^ length bs"
proof (induction bs)
  case (Cons b bs)
  have "unat b \<le> 255"
    using unat_byte_less [of b] by simp
  then have "unat b * 256 ^ length bs \<le> 255 * 256 ^ length bs"
    by (rule mult_le_mono1)
  with Cons.IH show ?case
    unfolding be_nat.simps length_Cons power_Suc by linarith
qed simp

lemma half_eq_less: "a div 2 = b div 2 \<Longrightarrow> even a \<Longrightarrow> odd b \<Longrightarrow> a < (b :: nat)"
  by presburger

lemma nat_first_diff_less:
  fixes a b :: nat
  assumes hi: "\<And>m. n < m \<Longrightarrow> bit a m = bit b m" and "\<not> bit a n" and "bit b n"
  shows "a < b"
proof -
  have "drop_bit (Suc n) a = drop_bit (Suc n) b"
    by (rule bit_eqI) (simp add: bit_drop_bit_eq hi)
  then have "a div 2 ^ n div 2 = b div 2 ^ n div 2"
    by (simp add: drop_bit_eq_div power_Suc2 div_mult2_eq del: power_Suc)
  moreover have "even (a div 2 ^ n)" "odd (b div 2 ^ n)"
    using assms by (simp_all add: bit_iff_odd)
  ultimately have "a div 2 ^ n < b div 2 ^ n" by (rule half_eq_less)
  then show ?thesis
    by (meson div_le_mono not_less)
qed

lemma byte_first_diff_less:
  fixes u v :: byte
  assumes hi: "\<And>m. n < m \<Longrightarrow> bit u m = bit v m" and "\<not> bit u n" and "bit v n"
  shows "u < v"
proof -
  have n: "n < 8"
    using bit_imp_le_length [OF assms(3)] by simp
  have "unat u < unat v"
  proof (rule nat_first_diff_less)
    show "bit (unat u) m = bit (unat v) m" if "n < m" for m
      using hi [OF that] by (simp add: bit_unsigned_iff)
    show "\<not> bit (unat u) n" "bit (unat v) n"
      using assms n by (simp_all add: bit_unsigned_iff)
  qed
  then show ?thesis by (simp add: word_less_nat_alt)
qed

lemma be_nat_less_Cons:
  assumes "length xs = length ys" "u < v"
  shows "be_nat (u # xs) < be_nat (v # ys)"
proof -
  have "be_nat (u # xs) < (unat u + 1) * 256 ^ length ys"
    using be_nat_bound [of xs] assms(1) by (simp add: algebra_simps)
  also have "\<dots> \<le> unat v * 256 ^ length ys"
    using assms(2) by (intro mult_le_mono1) (simp add: word_less_nat_alt)
  also have "\<dots> \<le> be_nat (v # ys)" by simp
  finally show ?thesis .
qed

lemma length_remove_at [simp]: "i < length xs \<Longrightarrow> length (remove_at i xs) = length xs - 1"
  by (simp add: remove_at_def)

lemma remove_at_Cons_0 [simp]: "remove_at 0 (x # xs) = xs"
  by (simp add: remove_at_def)

lemma remove_at_Cons_Suc [simp]: "remove_at (Suc i) (x # xs) = x # remove_at i xs"
  by (simp add: remove_at_def)

lemma set_remove_at_distinct:
  "distinct xs \<Longrightarrow> i < length xs \<Longrightarrow> set (remove_at i xs) = set xs - {xs ! i}"
  by (induction xs arbitrary: i) (auto simp: less_Suc_eq_0_disj)

lemma distinct_remove_at: "distinct xs \<Longrightarrow> distinct (remove_at i xs)"
  by (auto simp: remove_at_def distinct_append set_take_disj_set_drop_if_distinct)

lemma distinct_concat_index:
  assumes "\<And>i. i < length xss \<Longrightarrow> distinct (xss ! i) \<and> (\<forall>a\<in>set (xss ! i). f a = k + i)"
  shows "distinct (concat xss) \<and> (\<forall>a\<in>set (concat xss). k \<le> f a)"
  using assms
proof (induction xss arbitrary: k)
  case (Cons xs xss)
  have "distinct (concat xss) \<and> (\<forall>a\<in>set (concat xss). Suc k \<le> f a)"
    using Cons.prems [of "Suc _"] by (intro Cons.IH) simp
  moreover have "distinct xs \<and> (\<forall>a\<in>set xs. f a = k)"
    using Cons.prems [of 0] by simp
  ultimately show ?case by fastforce
qed simp

lemma takeWhile_all_length: "a \<in> set xs \<Longrightarrow> length (takeWhile (\<lambda>x. x \<noteq> a) xs) < length xs"
  by (induction xs) auto

lemma sorted_wrt_concat_map:
  "sorted_wrt (\<lambda>i j. \<forall>x\<in>set (f i). \<forall>y\<in>set (f j). R x y) is \<Longrightarrow> \<forall>i\<in>set is. sorted_wrt R (f i)
    \<Longrightarrow> sorted_wrt R (concat (map f is))"
  by (induction "is") (auto simp: sorted_wrt_append)

lemma sorted_const: "\<forall>x\<in>set xs. \<forall>y\<in>set xs. R x y \<Longrightarrow> sorted_wrt R xs"
  by (induction xs) auto

lemma distinct_concat_rev: "distinct (concat (rev xss)) = distinct (concat xss)"
  by (induction xss) auto

lemma sorted_desc_take:
  assumes "sorted_wrt (\<lambda>x y. f y \<le> (f x :: 'b :: order)) ys" "n < length ys"
  shows "\<forall>x\<in>set (take (Suc n) ys). f (ys ! n) \<le> f x"
proof
  fix x assume "x \<in> set (take (Suc n) ys)"
  then obtain k where "k \<le> n" "x = ys ! k" by (auto simp: in_set_conv_nth less_Suc_eq_le)
  then show "f (ys ! n) \<le> f x"
    using sorted_wrt_nth_less [OF assms(1), of k n] assms(2) by (cases "k = n") auto
qed

lemma length_filter_mono: "(\<And>x. P x \<Longrightarrow> Q x) \<Longrightarrow> length (filter P xs) \<le> length (filter Q xs)"
  by (induction xs) auto

lemma concat_map_none: "\<forall>i\<in>set is. i \<noteq> k \<Longrightarrow> concat (map (\<lambda>i. if i = k then x else []) is) = []"
  by (induction "is") auto

declare update_conv' [gomap] delete_conv' [gomap] distinct_update [gomap] distinct_delete [gomap]

lemma sum_list_update:
  fixes f :: "'v \<Rightarrow> int"
  assumes "distinct (map fst m)"
  shows "(\<Sum>(k, v) \<leftarrow> AList.update k0 v0 m. f v) =
    (\<Sum>(k, v) \<leftarrow> m. f v) + f v0 - (case map_of m k0 of None \<Rightarrow> 0 | Some v \<Rightarrow> f v)"
  using assms by (induction m) (auto split: option.splits)

end
