(* ===== verification/Boson.thy ===== *)
theory Boson
  imports Prelude
begin

text \<open>
  Addresses and chunks (\<^verbatim>\<open>src/pkg/boson/boson.go\<close>), the XOR distance metric
  (\<^verbatim>\<open>src/pkg/boson/distance.go\<close>) and the proximity order
  (\<^verbatim>\<open>src/pkg/boson/proximity.go\<close>). An address is its byte slice; Go compares slices
  with \<open>bytes.Equal\<close>, for which nil and the empty slice are the same.
\<close>

section \<open>Addresses and chunks\<close>

datatype address = Address (Bytes: bytes)

definition NewAddress :: "bytes \<Rightarrow> address" where
  "NewAddress b = Address b"

definition ZeroAddress :: address where
  "ZeroAddress = NewAddress []"

definition ParseHexAddress :: "string \<Rightarrow> hex_error + address" where
  "ParseHexAddress s =
     (case hex_decode s of Inl e \<Rightarrow> Inl e | Inr b \<Rightarrow> Inr (NewAddress b))"

text \<open>The panic of \<open>MustParseHexAddress\<close> is the value \<open>None\<close>.\<close>

definition MustParseHexAddress :: "string \<Rightarrow> address option" where
  "MustParseHexAddress s =
     (case ParseHexAddress s of Inl _ \<Rightarrow> None | Inr a \<Rightarrow> Some a)"

definition String :: "address \<Rightarrow> string" where
  "String a = hex_encode (Bytes a)"

definition Equal :: "address \<Rightarrow> address \<Rightarrow> bool" where
  "Equal a b \<longleftrightarrow> Bytes a = Bytes b"

fun MemberOf :: "address \<Rightarrow> address list \<Rightarrow> bool" where
  "MemberOf a [] = False"
| "MemberOf a (v # addrs) = (if Equal v a then True else MemberOf a addrs)"

definition IsZero :: "address \<Rightarrow> bool" where
  "IsZero a \<longleftrightarrow> Equal a ZeroAddress"

definition ByteString :: "address \<Rightarrow> bytes" where
  "ByteString a = Bytes a"

record chunk =
  addr :: address
  sdata :: bytes
  tagID :: "32 word"

definition NewChunk :: "address \<Rightarrow> bytes \<Rightarrow> chunk" where
  "NewChunk a d = \<lparr>addr = a, sdata = d, tagID = 0\<rparr>"

definition WithTagID :: "chunk \<Rightarrow> 32 word \<Rightarrow> chunk" where
  "WithTagID c t = c\<lparr>tagID := t\<rparr>"

definition chunk_Equal :: "chunk \<Rightarrow> chunk \<Rightarrow> bool" where
  "chunk_Equal c cp \<longleftrightarrow> Equal (addr c) (addr cp) \<and> sdata c = sdata cp"

section \<open>Distance\<close>

datatype distance_error = ErrAddressLength

definition DistanceRaw :: "bytes \<Rightarrow> bytes \<Rightarrow> distance_error + bytes" where
  "DistanceRaw x y =
     (if length x \<noteq> length y then Inl ErrAddressLength
      else Inr (map2 (\<lambda>u v. u XOR v) x y))"

definition Distance :: "bytes \<Rightarrow> bytes \<Rightarrow> distance_error + nat" where
  "Distance x y = (case DistanceRaw x y of Inl e \<Rightarrow> Inl e | Inr d \<Rightarrow> Inr (be_nat d))"

text \<open>The loop of \<open>DistanceCmp\<close> over the index of the three slices.\<close>

fun distance_cmp_loop :: "bytes \<Rightarrow> bytes \<Rightarrow> bytes \<Rightarrow> int" where
  "distance_cmp_loop (a # as) (x # xs) (y # ys) =
     (let dx = x XOR a; dy = y XOR a in
      if dx = dy then distance_cmp_loop as xs ys
      else if dx < dy then 1 else - 1)"
| "distance_cmp_loop _ _ _ = 0"

definition DistanceCmp :: "bytes \<Rightarrow> bytes \<Rightarrow> bytes \<Rightarrow> distance_error + int" where
  "DistanceCmp a x y =
     (if length a \<noteq> length x \<or> length a \<noteq> length y then Inl ErrAddressLength
      else Inr (distance_cmp_loop a x y))"

definition Closer :: "address \<Rightarrow> address \<Rightarrow> address \<Rightarrow> distance_error + bool" where
  "Closer a x y =
     (case DistanceCmp (Bytes x) (Bytes a) (Bytes y) of Inl e \<Rightarrow> Inl e | Inr cmp \<Rightarrow> Inr (cmp = 1))"

section \<open>Proximity order\<close>

definition MaxPO :: byte where
  "MaxPO = 31"

definition ExtendedPO :: byte where
  "ExtendedPO = MaxPO + 5"

definition MaxBins :: byte where
  "MaxBins = MaxPO + 1"

text \<open>
  The two nested loops: the first index \<open>j\<close> of a set bit of \<open>oxo\<close>, counted from the most
  significant bit, and the first byte that has one. \<open>uint8(len(..))\<close> keeps the length
  modulo 256.
\<close>

definition first_set_bit :: "byte \<Rightarrow> nat option" where
  "first_set_bit oxo = find (\<lambda>j. drop_bit (7 - j) oxo AND 1 \<noteq> 0) [0..<8]"

fun proximity_scan :: "bytes \<Rightarrow> bytes \<Rightarrow> nat list \<Rightarrow> byte option" where
  "proximity_scan one other [] = None"
| "proximity_scan one other (i # is) =
     (case first_set_bit (one ! i XOR other ! i) of
        Some j \<Rightarrow> Some (word_of_nat (i * 8 + j))
      | None \<Rightarrow> proximity_scan one other is)"

definition shorter :: "byte \<Rightarrow> bytes \<Rightarrow> byte" where
  "shorter b xs = (let l = word_of_nat (length xs) in if b > l then l else b)"

definition Proximity :: "bytes \<Rightarrow> bytes \<Rightarrow> byte" where
  "Proximity one other =
     (let b = shorter (shorter (MaxPO div 8 + 1) one) other in
      case proximity_scan one other [0..<unat b] of Some p \<Rightarrow> p | None \<Rightarrow> MaxPO)"

definition ExtendedProximity :: "bytes \<Rightarrow> bytes \<Rightarrow> byte" where
  "ExtendedProximity one other =
     (let b = shorter (shorter (ExtendedPO div 8 + 1) one) other in
      case proximity_scan one other [0..<unat b] of Some p \<Rightarrow> p | None \<Rightarrow> ExtendedPO)"

section \<open>The specification of the proximity order\<close>

text \<open>The bit of an address at position \<open>k\<close>, most significant first.\<close>

definition addr_bit :: "bytes \<Rightarrow> nat \<Rightarrow> bool" where
  "addr_bit x k = bit (x ! (k div 8)) (7 - k mod 8)"

text \<open>The first \<open>n\<close> bits of two addresses agree.\<close>

definition common_prefix :: "bytes \<Rightarrow> bytes \<Rightarrow> nat \<Rightarrow> bool" where
  "common_prefix x y n \<longleftrightarrow> (\<forall>k<n. addr_bit x k = addr_bit y k)"

section \<open>Lemmas on addresses\<close>

lemma Equal_iff [simp]: "Equal a b \<longleftrightarrow> a = b"
  by (cases a; cases b) (simp add: Equal_def)

lemma Bytes_ZeroAddress [simp]: "Bytes ZeroAddress = []"
  by (simp add: ZeroAddress_def NewAddress_def)

lemma IsZero_iff [simp]: "IsZero c \<longleftrightarrow> c = ZeroAddress"
  by (simp add: IsZero_def)

lemma MemberOf_iff [simp]: "MemberOf a addrs \<longleftrightarrow> a \<in> set addrs"
  by (induction addrs) auto

lemma String_inject [simp]: "String a = String b \<longleftrightarrow> a = b"
  by (cases a; cases b) (simp add: String_def)

lemma ByteString_inject [simp]: "ByteString a = ByteString b \<longleftrightarrow> a = b"
  by (cases a; cases b) (simp add: ByteString_def)

lemma Parse_String [simp]: "ParseHexAddress (String a) = Inr a"
  by (simp add: ParseHexAddress_def String_def NewAddress_def)

lemma MustParse_String [simp]: "MustParseHexAddress (String a) = Some a"
  by (simp add: MustParseHexAddress_def)

section \<open>Lemmas on proximity and distance\<close>

lemma drop_bit_and_1: "drop_bit n (w :: byte) AND 1 \<noteq> 0 \<longleftrightarrow> bit w n"
  by (simp add: and_one_eq bit_iff_odd_drop_bit odd_iff_mod_2_eq_one)

lemma first_set_bit_Some:
  "first_set_bit w = Some j \<longleftrightarrow> j < 8 \<and> bit w (7 - j) \<and> (\<forall>k<j. \<not> bit w (7 - k))"
  by (auto simp: first_set_bit_def drop_bit_and_1 find_Some_iff)

lemma first_set_bit_None: "first_set_bit w = None \<longleftrightarrow> (\<forall>k<8. \<not> bit w (7 - k))"
  by (auto simp: first_set_bit_def drop_bit_and_1 find_None_iff)

lemma addr_bit_byte: "j < 8 \<Longrightarrow> addr_bit x (8 * i + j) = bit (x ! i) (7 - j)"
  by (simp add: addr_bit_def)

lemma common_prefix_byte:
  "j \<le> 8 \<Longrightarrow> common_prefix x y (8 * b + j) \<longleftrightarrow>
     common_prefix x y (8 * b) \<and> (\<forall>k<j. \<not> bit (x ! b XOR y ! b) (7 - k))"
proof (induction j)
  case (Suc j)
  then show ?case
    by (auto simp: common_prefix_def less_Suc_eq bit_xor_iff addr_bit_byte)
qed simp

lemma proximity_scan_append:
  "proximity_scan x y (is @ js) =
     (case proximity_scan x y is of Some p \<Rightarrow> Some p | None \<Rightarrow> proximity_scan x y js)"
  by (induction "is") (auto split: option.splits)

lemma proximity_scan_upt:
  "(proximity_scan x y [0..<b] = None \<and> common_prefix x y (8 * b)) \<or>
   (\<exists>q<8 * b. proximity_scan x y [0..<b] = Some (word_of_nat q) \<and>
      addr_bit x q \<noteq> addr_bit y q \<and> common_prefix x y q)"
proof (induction b)
  case 0
  then show ?case by (simp add: common_prefix_def)
next
  case (Suc b)
  show ?case
  proof (cases "proximity_scan x y [0..<b]")
    case (Some p)
    with Suc obtain q where "q < 8 * b" "p = word_of_nat q" "addr_bit x q \<noteq> addr_bit y q"
      "common_prefix x y q" by auto
    with Some show ?thesis
      by (intro disjI2 exI [of _ q]) (simp add: proximity_scan_append)
  next
    case None
    with Suc have cp: "common_prefix x y (8 * b)" by auto
    show ?thesis
    proof (cases "first_set_bit (x ! b XOR y ! b)")
      case N: None
      then have "common_prefix x y (8 * Suc b)"
        using cp common_prefix_byte [of 8 x y b] by (simp add: first_set_bit_None add.commute)
      with None N show ?thesis by (simp add: proximity_scan_append)
    next
      case (Some j)
      then have j: "j < 8" "bit (x ! b XOR y ! b) (7 - j)" "\<forall>k<j. \<not> bit (x ! b XOR y ! b) (7 - k)"
        by (simp_all add: first_set_bit_Some)
      have "common_prefix x y (8 * b + j)"
        using cp common_prefix_byte [of j x y b] j by simp
      moreover have "addr_bit x (8 * b + j) \<noteq> addr_bit y (8 * b + j)"
        using j by (simp add: addr_bit_byte bit_xor_iff)
      moreover have "proximity_scan x y [0..<Suc b] = Some (word_of_nat (8 * b + j))"
        using None Some by (simp add: proximity_scan_append mult.commute)
      ultimately show ?thesis
        using j(1) by (intro disjI2 exI [of _ "8 * b + j"] conjI) simp_all
    qed
  qed
qed

lemma unat_MaxPO [simp]: "unat MaxPO = 31"
  by (simp add: MaxPO_def)

lemma shorter_id: "unat b \<le> length xs \<Longrightarrow> length xs < 256 \<Longrightarrow> shorter b xs = b"
  by (auto simp: shorter_def Let_def word_less_nat_alt unat_of_nat)

lemma Proximity_cases:
  assumes "4 \<le> length x" "length x < 256" "4 \<le> length y" "length y < 256"
  shows "(Proximity x y = MaxPO \<and> common_prefix x y 32) \<or>
    (unat (Proximity x y) < 32 \<and> addr_bit x (unat (Proximity x y)) \<noteq> addr_bit y (unat (Proximity x y)) \<and>
     common_prefix x y (unat (Proximity x y)))"
proof -
  have b: "MaxPO div 8 + 1 = 4" by (simp add: MaxPO_def)
  have "shorter (shorter (MaxPO div 8 + 1) x) y = 4"
    using assms by (simp add: b shorter_id)
  then show ?thesis
    using proximity_scan_upt [of x y 4] by (auto simp: Proximity_def unat_of_nat)
qed

lemma distance_cmp_loop_1:
  assumes "length a = length x" "length a = length y" "i < length a"
    and "\<And>k. k < i \<Longrightarrow> x ! k XOR a ! k = y ! k XOR a ! k"
    and "x ! i XOR a ! i < y ! i XOR a ! i"
  shows "distance_cmp_loop a x y = 1"
  using assms
proof (induction a x y arbitrary: i rule: distance_cmp_loop.induct)
  case (1 a as x xs y ys)
  show ?case
  proof (cases i)
    case 0
    then show ?thesis using "1.prems" by (auto simp: Let_def)
  next
    case (Suc j)
    have "x XOR a = y XOR a"
      using "1.prems"(4) [of 0] Suc by simp
    moreover have "xs ! k XOR as ! k = ys ! k XOR as ! k" if "k < j" for k
      using "1.prems"(4) [of "Suc k"] Suc that by simp
    then have "distance_cmp_loop as xs ys = 1"
      using "1.prems"(1,2,3,5) Suc calculation by (intro "1.IH" [of _ _ j]) simp_all
    ultimately show ?thesis by simp
  qed
qed auto

lemma common_prefix_bytes: "common_prefix x a (8 * i) \<Longrightarrow> k < i \<Longrightarrow> x ! k = a ! k"
proof (rule bit_word_eqI)
  fix n
  assume cp: "common_prefix x a (8 * i)" and k: "k < i" and n: "n < LENGTH(8)"
  then have "addr_bit x (8 * k + (7 - n)) = addr_bit a (8 * k + (7 - n))"
    unfolding common_prefix_def by (intro mp [OF spec [OF cp [unfolded common_prefix_def]]]) simp
  with n show "bit (x ! k) n = bit (a ! k) n"
    using addr_bit_byte [of "7 - n" x k] addr_bit_byte [of "7 - n" a k] by simp
qed

lemma common_prefix_less:
  assumes x: "common_prefix x a (Suc (8 * i + j))" and y: "common_prefix y a (8 * i + j)"
    and neq: "addr_bit y (8 * i + j) \<noteq> addr_bit a (8 * i + j)" and j: "j < 8"
  shows "x ! i XOR a ! i < y ! i XOR a ! i"
proof (rule byte_first_diff_less)
  have high: "\<not> bit (x ! i XOR a ! i) (7 - k)" if "k \<le> j" for k
    using common_prefix_byte [of "Suc j" x a i] x j that by simp
  have highy: "\<not> bit (y ! i XOR a ! i) (7 - k)" if "k < j" for k
    using common_prefix_byte [of j y a i] y j that by simp
  show "bit (x ! i XOR a ! i) m = bit (y ! i XOR a ! i) m" if "7 - j < m" for m
  proof (cases "m < 8")
    case True
    then have "7 - m < j" "m = 7 - (7 - m)" using that by auto
    then show ?thesis using high [of "7 - m"] highy [of "7 - m"] by auto
  next
    case False
    then show ?thesis by (auto dest: bit_imp_le_length)
  qed
  show "\<not> bit (x ! i XOR a ! i) (7 - j)" using high by simp
  show "bit (y ! i XOR a ! i) (7 - j)"
    using neq j by (simp add: addr_bit_byte bit_xor_iff)
qed

lemma distance_cmp_loop_be_nat:
  "length a = length x \<Longrightarrow> length a = length y \<Longrightarrow>
   distance_cmp_loop a x y =
     (let dx = be_nat (map2 (\<lambda>u v. u XOR v) x a); dy = be_nat (map2 (\<lambda>u v. u XOR v) y a) in
      if dx < dy then 1 else if dx = dy then 0 else - 1)"
proof (induction a x y rule: distance_cmp_loop.induct)
  case (1 a as x xs y ys)
  let ?dx = "map2 (\<lambda>u v. u XOR v) xs as" and ?dy = "map2 (\<lambda>u v. u XOR v) ys as"
  have l: "length ?dx = length ?dy"
    using "1.prems" by simp
  consider "x XOR a = y XOR a" | "x XOR a < y XOR a" | "y XOR a < x XOR a"
    by (rule linorder_cases)
  then show ?case
  proof cases
    case 1
    then show ?thesis using "1.IH" "1.prems" l by (simp add: Let_def)
  next
    case 2
    then show ?thesis using be_nat_less_Cons [OF l 2] by (auto simp: Let_def)
  next
    case 3
    then show ?thesis using be_nat_less_Cons [OF l [symmetric] 3] by (auto simp: Let_def)
  qed
qed auto

lemma xor_byte_cancel [simp]: "(x :: byte) XOR a = y XOR a \<longleftrightarrow> x = y"
  by (metis xor.assoc xor_self_eq xor.right_neutral)

lemma distance_cmp_loop_0:
  "length a = length x \<Longrightarrow> length a = length y \<Longrightarrow> distance_cmp_loop a x y = 0 \<longleftrightarrow> x = y"
  by (induction a x y rule: distance_cmp_loop.induct) (simp_all add: Let_def)

lemma Proximity_prefix:
  assumes "4 \<le> length x" "length x < 256" "4 \<le> length y" "length y < 256" "n \<le> 31"
  shows "n \<le> unat (Proximity x y) \<longleftrightarrow> common_prefix x y n"
  using Proximity_cases [OF assms(1-4)] assms(5)
  by (auto simp: common_prefix_def) (meson not_less)+

lemma common_prefix_sym: "common_prefix x y n = common_prefix y x n"
  by (auto simp: common_prefix_def)

lemma common_prefix_trans: "common_prefix x y n \<Longrightarrow> common_prefix y z n \<Longrightarrow> common_prefix x z n"
  by (auto simp: common_prefix_def)

lemma Proximity_le_31:
  assumes "4 \<le> length x" "length x < 256" "4 \<le> length y" "length y < 256"
  shows "unat (Proximity x y) \<le> 31"
  using Proximity_cases [OF assms] by auto

section \<open>Properties\<close>



text \<open>
  C14. The proximity order is symmetric and an ultrametric: two addresses that are each at
  least \<open>n\<close> deep from a third one are at least \<open>n\<close> deep from each other, so the members of
  one bin of a peer list are at least as close to each other as to its base.
\<close>

theorem Proximity_ultrametric:
  assumes "4 \<le> length x" "length x < 256" "4 \<le> length y" "length y < 256"
    and "4 \<le> length z" "length z < 256"
  shows "Proximity x y = Proximity y x \<and> min (Proximity x y) (Proximity y z) \<le> Proximity x z"
proof -
  note px = Proximity_prefix [OF assms(1,2)] and py = Proximity_prefix [OF assms(3,4)]
  have "unat (Proximity x y) = unat (Proximity y x)"
    using px [OF assms(3,4), of "unat (Proximity y x)"] py [OF assms(1,2), of "unat (Proximity y x)"]
      px [OF assms(3,4), of "unat (Proximity x y)"] py [OF assms(1,2), of "unat (Proximity x y)"]
      Proximity_le_31 [OF assms(1-4)] Proximity_le_31 [OF assms(3,4,1,2)]
    by (simp add: common_prefix_sym [of x y])
  moreover define m where "m = min (unat (Proximity x y)) (unat (Proximity y z))"
  then have "m \<le> 31" "common_prefix x y m" "common_prefix y z m"
    using px [OF assms(3,4), of m] py [OF assms(5,6), of m] Proximity_le_31 [OF assms(1-4)] by auto
  then have "m \<le> unat (Proximity x z)"
    using px [OF assms(5,6), of m] by (auto intro: common_prefix_trans)
  ultimately show ?thesis
    by (simp add: m_def min_def word_le_nat_alt word_unat_eq_iff split: if_splits)
qed

theorem Proximity_ultrametric_witness:
  "Proximity [1, 2, 3, 4] [1, 3, 3, 4] = Proximity [1, 3, 3, 4] [1, 2, 3, 4] \<and>
   min (Proximity [1, 2, 3, 4] [1, 3, 3, 4]) (Proximity [1, 3, 3, 4] [9, 3, 3, 4])
     \<le> Proximity [1, 2, 3, 4] [9, 3, 3, 4]"
  by (rule Proximity_ultrametric) simp_all

text \<open>
  C15. \<open>DistanceCmp\<close>, which compares byte by byte and stops at the first difference, decides
  the order of the two big-integer distances of \<open>Distance\<close>: 1 when \<open>x\<close> is closer to \<open>a\<close>,
  -1 when it is farther, an error exactly when one of the distances is an error, and 0
  only for \<open>x = y\<close>.
\<close>

theorem DistanceCmp_Distance:
  "DistanceCmp a x y =
     (case (Distance x a, Distance y a) of
        (Inr dx, Inr dy) \<Rightarrow> Inr (if dx < dy then 1 else if dx = dy then 0 else - 1)
      | _ \<Rightarrow> Inl ErrAddressLength)
   \<and> (DistanceCmp a x y = Inr 0 \<longleftrightarrow> x = y \<and> length x = length a)"
proof (cases "length a = length x \<and> length a = length y")
  case True
  then show ?thesis
    using distance_cmp_loop_be_nat [of a x y] distance_cmp_loop_0 [of a x y]
    by (simp add: DistanceCmp_def Distance_def DistanceRaw_def Let_def)
next
  case False
  then show ?thesis
    by (auto simp: DistanceCmp_def Distance_def DistanceRaw_def)
qed

text \<open>
  A peer in a deeper bin is closer: between addresses of one length of at least 4 bytes,
  if the proximity of \<open>x\<close> to \<open>a\<close> is greater than that of \<open>y\<close>, then \<open>DistanceCmp a x y\<close>
  reports \<open>x\<close> as strictly closer.
\<close>

theorem deeper_bin_is_closer:
  assumes "length a = length x" "length a = length y" "4 \<le> length a" "length a < 256"
    and "Proximity y a < Proximity x a"
  shows "DistanceCmp a x y = Inr 1"
proof -
  define q where "q = unat (Proximity y a)"
  define i j where "i = q div 8" and "j = q mod 8"
  have q: "q = 8 * i + j" and j: "j < 8" by (simp_all add: i_def j_def)
  have len: "4 \<le> length x" "length x < 256" "4 \<le> length y" "length y < 256"
    using assms by auto
  have lt: "q < unat (Proximity x a)"
    using assms(5) by (simp add: q_def word_less_nat_alt)
  moreover have "unat (Proximity x a) \<le> 31"
    using Proximity_cases [OF len(1,2) assms(3,4)] by auto
  ultimately have q31: "q < 31" by simp
  then have y: "addr_bit y q \<noteq> addr_bit a q" "common_prefix y a q"
    using Proximity_cases [OF len(3,4) assms(3,4)] by (auto simp: q_def)
  have x: "common_prefix x a (Suc q)"
    using Proximity_cases [OF len(1,2) assms(3,4)] lt by (auto simp: common_prefix_def)
  have "distance_cmp_loop a x y = 1"
  proof (rule distance_cmp_loop_1)
    show "i < length a" using q31 assms(3) by (simp add: i_def)
    have "common_prefix x a (8 * i)" "common_prefix y a (8 * i)"
      using x y q by (auto simp: common_prefix_def)
    then show "x ! k XOR a ! k = y ! k XOR a ! k" if "k < i" for k
      using that by (simp add: common_prefix_bytes)
    show "x ! i XOR a ! i < y ! i XOR a ! i"
      using x y j by (intro common_prefix_less) (simp_all add: q)
  qed (use assms in simp_all)
  then show ?thesis using assms by (simp add: DistanceCmp_def)
qed

theorem deeper_bin_is_closer_witness:
  "DistanceCmp [1, 2, 3, 4] [1, 2, 3, 9] [1, 3, 3, 4] = Inr 1"
  by (rule deeper_bin_is_closer) code_simp+


text \<open>
  \<open>ExtendedProximity\<close> is not capped at \<open>ExtendedPO\<close>: its loop covers whole bytes, 40 bits,
  so two addresses whose first differing bit is in the last three of them get an order
  above \<open>ExtendedPO = 36\<close>, above that of an address with itself.
\<close>

theorem ExtendedProximity_above_cap:
  "\<exists>x y. length x = 32 \<and> length y = 32 \<and> x \<noteq> y \<and> ExtendedProximity x y > ExtendedPO
     \<and> ExtendedProximity x x = ExtendedPO"
  by (rule exI [of _ "replicate 32 0"], rule exI [of _ "replicate 4 0 @ [1] @ replicate 27 0"])
    code_simp

end
