(* ===== verification/PSlice.thy ===== *)
theory PSlice
  imports Boson
begin

text \<open>
  The peer lists of the Kademlia topology, grouped in bins by proximity order
  (\<^verbatim>\<open>src/pkg/topology/pslice/pslice.go\<close>). A Go panic (an index out of range, a
  negative length) is the value \<open>None\<close>. The reallocation inside \<open>Add\<close> changes only the
  capacity of a slice and has no counterpart. The lemmas show that a peer list implements a
  finite set of addresses (the locale \<open>peer_set\<close>) and in which order the bins are visited.
\<close>

section \<open>Model\<close>

record pslice =
  peers :: "address list list"
  baseBytes :: bytes
  maxBins :: int

definition PSlice_New :: "int \<Rightarrow> address \<Rightarrow> pslice option" where
  "PSlice_New n base =
     (if n < 0 then None
      else Some \<lparr>peers = replicate (nat n) [], baseBytes = Bytes base, maxBins = n\<rparr>)"

definition PSlice_po :: "pslice \<Rightarrow> bytes \<Rightarrow> byte" where
  "PSlice_po s peer =
     (let po = Proximity (baseBytes s) peer in
      if uint po \<ge> maxBins s then word_of_int (maxBins s) - 1 else po)"

definition PSlice_bin :: "pslice \<Rightarrow> nat \<Rightarrow> address list option" where
  "PSlice_bin s i = (if i < length (peers s) then Some (peers s ! i) else None)"

fun index_loop :: "address \<Rightarrow> nat \<Rightarrow> address list \<Rightarrow> bool \<times> nat" where
  "index_loop a i [] = (False, 0)"
| "index_loop a i (p # ps) = (if Equal p a then (True, i) else index_loop a (Suc i) ps)"

definition PSlice_index :: "pslice \<Rightarrow> address \<Rightarrow> byte \<Rightarrow> (bool \<times> nat) option" where
  "PSlice_index s a po = map_option (index_loop a 0) (PSlice_bin s (unat po))"

definition append_peer :: "address \<Rightarrow> byte \<Rightarrow> pslice \<Rightarrow> pslice" where
  "append_peer a po s = s\<lparr>peers := (peers s)[unat po := peers s ! unat po @ [a]]\<rparr>"

text \<open>
  The first loop of \<open>Add\<close> looks every address up in the list as it was before the call;
  the last loop appends the ones that were not found.
\<close>

fun add_scan :: "pslice \<Rightarrow> address list \<Rightarrow> (address \<times> byte \<times> bool) list option" where
  "add_scan s [] = Some []"
| "add_scan s (a # as) =
     (let po = PSlice_po s (Bytes a) in
      case PSlice_index s a po of
        None \<Rightarrow> None
      | Some (e, _) \<Rightarrow> map_option (\<lambda>rest. (a, po, e) # rest) (add_scan s as))"

fun add_all :: "(address \<times> byte \<times> bool) list \<Rightarrow> pslice \<Rightarrow> pslice" where
  "add_all [] s = s"
| "add_all ((a, po, e) # rest) s = add_all rest (if e then s else append_peer a po s)"

definition PSlice_Add :: "pslice \<Rightarrow> address list \<Rightarrow> pslice option" where
  "PSlice_Add s addrs =
     (case addrs of
        [a] \<Rightarrow>
          (let po = PSlice_po s (Bytes a) in
           case PSlice_index s a po of
             None \<Rightarrow> None
           | Some (e, _) \<Rightarrow> Some (if e then s else append_peer a po s))
      | _ \<Rightarrow> map_option (\<lambda>l. add_all l s) (add_scan s addrs))"

text \<open>
  The iteration over the bins. Only the read of a bin is under the lock, so the callback
  (and other goroutines, through the state it passes on) may change the list between two
  bins; \<open>get\<close> reads the list in the current state. The callback returns \<open>stop\<close>, \<open>next\<close>
  and an error.
\<close>

type_synonym ('st, 'e) peer_func = "address \<Rightarrow> byte \<Rightarrow> 'st \<Rightarrow> (bool \<times> bool \<times> 'e option) \<times> 'st"

datatype 'e visit = Continue | Return "'e option"

fun visit_bin :: "('st, 'e) peer_func \<Rightarrow> byte \<Rightarrow> address list \<Rightarrow> 'st \<Rightarrow> 'e visit \<times> 'st" where
  "visit_bin pf i [] st = (Continue, st)"
| "visit_bin pf i (p # ps) st =
     (case pf p i st of
        ((stop, nxt, err), st') \<Rightarrow>
          (case err of
             Some e \<Rightarrow> (Return (Some e), st')
           | None \<Rightarrow>
               if stop then (Return None, st')
               else if nxt then (Continue, st')
               else visit_bin pf i ps st'))"

fun visit_bins ::
  "('st \<Rightarrow> pslice) \<Rightarrow> ('st, 'e) peer_func \<Rightarrow> nat list \<Rightarrow> 'st \<Rightarrow> ('e option \<times> 'st) option" where
  "visit_bins get pf [] st = Some (None, st)"
| "visit_bins get pf (i # is) st =
     (case PSlice_bin (get st) i of
        None \<Rightarrow> None
      | Some ps \<Rightarrow>
          (case visit_bin pf (word_of_nat i) ps st of
             (Return r, st') \<Rightarrow> Some (r, st')
           | (Continue, st') \<Rightarrow> visit_bins get pf is st'))"

definition PSlice_EachBin ::
  "('st \<Rightarrow> pslice) \<Rightarrow> ('st, 'e) peer_func \<Rightarrow> 'st \<Rightarrow> ('e option \<times> 'st) option" where
  "PSlice_EachBin get pf st = visit_bins get pf (rev [0..<nat (maxBins (get st))]) st"

definition PSlice_EachBinRev ::
  "('st \<Rightarrow> pslice) \<Rightarrow> ('st, 'e) peer_func \<Rightarrow> 'st \<Rightarrow> ('e option \<times> 'st) option" where
  "PSlice_EachBinRev get pf st = visit_bins get pf [0..<nat (maxBins (get st))] st"

definition PSlice_BinSize :: "pslice \<Rightarrow> byte \<Rightarrow> nat option" where
  "PSlice_BinSize s b =
     (if uint b \<ge> maxBins s then Some 0 else map_option length (PSlice_bin s (unat b)))"

definition PSlice_BinPeers :: "pslice \<Rightarrow> byte \<Rightarrow> address list option" where
  "PSlice_BinPeers s b =
     (if uint b \<ge> maxBins s then Some [] else PSlice_bin s (unat b))"

definition PSlice_Length :: "pslice \<Rightarrow> nat" where
  "PSlice_Length s = foldl (\<lambda>ret ps. ret + length ps) 0 (peers s)"

fun shallowest_loop :: "nat \<Rightarrow> address list list \<Rightarrow> byte \<times> bool" where
  "shallowest_loop i [] = (0, True)"
| "shallowest_loop i (ps # rest) =
     (if length ps = 0 then (word_of_nat i, False) else shallowest_loop (Suc i) rest)"

definition PSlice_ShallowestEmpty :: "pslice \<Rightarrow> byte \<times> bool" where
  "PSlice_ShallowestEmpty s = shallowest_loop 0 (peers s)"

definition PSlice_Exists :: "pslice \<Rightarrow> address \<Rightarrow> bool option" where
  "PSlice_Exists s a = map_option fst (PSlice_index s a (PSlice_po s (Bytes a)))"

text \<open>The last element of the bin takes the place of the removed one.\<close>

definition swap_remove :: "nat \<Rightarrow> 'a list \<Rightarrow> 'a list" where
  "swap_remove i xs =
     (let newLength = length xs - 1; cpy = take newLength xs in
      if i = newLength then cpy else cpy[i := xs ! newLength])"

definition PSlice_Remove :: "pslice \<Rightarrow> address \<Rightarrow> pslice option" where
  "PSlice_Remove s a =
     (let po = PSlice_po s (Bytes a) in
      case PSlice_index s a po of
        None \<Rightarrow> None
      | Some (e, i) \<Rightarrow>
          Some (if \<not> e then s
                else s\<lparr>peers := (peers s)[unat po := swap_remove i (peers s ! unat po)]\<rparr>))"

section \<open>The contract of a set of peers\<close>

text \<open>
  What the topology relies on in a peer list: it holds a finite set, no operation panics,
  and adding, removing, looking up and counting are those of the set.
\<close>

datatype 'a peer_op = AddPeer 'a | RemovePeer 'a

fun set_op :: "'a peer_op \<Rightarrow> 'a set \<Rightarrow> 'a set" where
  "set_op (AddPeer a) S = insert a S"
| "set_op (RemovePeer a) S = S - {a}"

fun run_op :: "('s \<Rightarrow> 'a \<Rightarrow> 's option) \<Rightarrow> ('s \<Rightarrow> 'a \<Rightarrow> 's option) \<Rightarrow> 'a peer_op \<Rightarrow> 's \<Rightarrow> 's option" where
  "run_op add remove (AddPeer a) s = add s a"
| "run_op add remove (RemovePeer a) s = remove s a"

fun run_ops :: "('s \<Rightarrow> 'a \<Rightarrow> 's option) \<Rightarrow> ('s \<Rightarrow> 'a \<Rightarrow> 's option) \<Rightarrow> 'a peer_op list \<Rightarrow> 's \<Rightarrow> 's option" where
  "run_ops add remove [] s = Some s"
| "run_ops add remove (p # ps) s = Option.bind (run_op add remove p s) (run_ops add remove ps)"

locale peer_set =
  fixes inv :: "'s \<Rightarrow> bool"
    and members :: "'s \<Rightarrow> 'a set"
    and exists :: "'s \<Rightarrow> 'a \<Rightarrow> bool option"
    and add :: "'s \<Rightarrow> 'a \<Rightarrow> 's option"
    and remove :: "'s \<Rightarrow> 'a \<Rightarrow> 's option"
    and count :: "'s \<Rightarrow> nat"
  assumes exists: "inv s \<Longrightarrow> exists s a = Some (a \<in> members s)"
    and add: "inv s \<Longrightarrow> \<exists>s'. add s a = Some s' \<and> inv s' \<and> members s' = insert a (members s)"
    and remove: "inv s \<Longrightarrow> \<exists>s'. remove s a = Some s' \<and> inv s' \<and> members s' = members s - {a}"
    and count: "inv s \<Longrightarrow> finite (members s) \<and> count s = card (members s)"
begin

lemma run_op_sim: "inv s \<Longrightarrow> \<exists>s'. run_op add remove p s = Some s' \<and> inv s' \<and> members s' = set_op p (members s)"
  by (cases p) (simp_all add: add remove)

lemma run_ops_sim:
  "inv s \<Longrightarrow> \<exists>s'. run_ops add remove ps s = Some s' \<and> inv s' \<and> members s' = fold set_op ps (members s)"
proof (induction ps arbitrary: s)
  case (Cons p ps)
  obtain s' where "run_op add remove p s = Some s'" "inv s'" "members s' = set_op p (members s)"
    using run_op_sim [OF Cons.prems] by blast
  with Cons.IH [of s'] show ?case by simp
qed simp

end

section \<open>Invariant and abstraction\<close>

definition pslice_placed :: "pslice \<Rightarrow> bool" where
  "pslice_placed s \<longleftrightarrow> 1 \<le> maxBins s \<and> length (peers s) = nat (maxBins s) \<and>
     (\<forall>i<length (peers s). \<forall>a\<in>set (peers s ! i). unat (PSlice_po s (Bytes a)) = i)"

definition pslice_wf :: "pslice \<Rightarrow> bool" where
  "pslice_wf s \<longleftrightarrow> pslice_placed s \<and> (\<forall>ps\<in>set (peers s). distinct ps)"

definition pslice_members :: "pslice \<Rightarrow> address set" where
  "pslice_members s = (\<Union>ps\<in>set (peers s). set ps)"

lemma PSlice_po_less: "1 \<le> maxBins s \<Longrightarrow> unat (PSlice_po s p) < nat (maxBins s)"
proof -
  assume n: "1 \<le> maxBins s"
  let ?q = "Proximity (baseBytes s) p"
  show ?thesis
  proof (cases "maxBins s \<le> uint ?q")
    case True
    then have "uint (word_of_int (maxBins s) - 1 :: byte) = maxBins s - 1"
      using n byte_uint_less [of ?q] by (intro uint8_pred) simp_all
    with True n show ?thesis
      by (simp add: PSlice_po_def Let_def unat_less_nat_iff)
  next
    case False
    then show ?thesis by (simp add: PSlice_po_def Let_def unat_less_nat_iff)
  qed
qed

lemma PSlice_po_peers [simp]: "PSlice_po (peers_update f s) = PSlice_po s"
  by (simp add: PSlice_po_def fun_eq_iff Let_def)

lemma PSlice_po_bin: "pslice_placed s \<Longrightarrow> unat (PSlice_po s p) < length (peers s)"
  using PSlice_po_less by (simp add: pslice_placed_def)

lemma index_loop_Some:
  "index_loop a k xs =
     (if a \<in> set xs then (True, k + length (takeWhile (\<lambda>x. x \<noteq> a) xs)) else (False, 0))"
  by (induction xs arbitrary: k) auto

lemma pslice_members_iff: "a \<in> pslice_members s \<longleftrightarrow> (\<exists>i<length (peers s). a \<in> set (peers s ! i))"
  by (auto simp: pslice_members_def in_set_conv_nth [of _ "peers s"]) (metis nth_mem)

lemma members_bin:
  "pslice_placed s \<Longrightarrow> a \<in> pslice_members s \<longleftrightarrow> a \<in> set (peers s ! unat (PSlice_po s (Bytes a)))"
  using PSlice_po_bin by (auto simp: pslice_placed_def pslice_members_iff)

lemma PSlice_index_placed:
  assumes "pslice_placed s" and "po = PSlice_po s (Bytes a)"
  shows "PSlice_index s a po =
    Some (if a \<in> pslice_members s
          then (True, length (takeWhile (\<lambda>x. x \<noteq> a) (peers s ! unat po))) else (False, 0))"
  using assms PSlice_po_bin [of s "Bytes a"]
  by (simp add: PSlice_index_def PSlice_bin_def members_bin index_loop_Some)

text \<open>A bin is replaced by another list of addresses of that bin.\<close>

lemma bin_update:
  assumes placed: "pslice_placed s" and i: "i = unat (PSlice_po s (Bytes a))"
    and b: "set b - {a} = set (peers s ! i) - {a}"
  shows "pslice_placed (s\<lparr>peers := (peers s)[i := b]\<rparr>)"
    and "pslice_members (s\<lparr>peers := (peers s)[i := b]\<rparr>) =
      (if a \<in> set b then insert a (pslice_members s) else pslice_members s - {a})"
proof -
  have il: "i < length (peers s)" using PSlice_po_bin [OF placed] i by simp
  have b': "unat (PSlice_po s (Bytes c)) = i" if "c \<in> set b" for c
  proof (cases "c = a")
    case False
    then have "c \<in> set (peers s ! i)" using that b by blast
    then show ?thesis using placed il by (simp add: pslice_placed_def)
  qed (simp add: i)
  show p: "pslice_placed (s\<lparr>peers := (peers s)[i := b]\<rparr>)"
    unfolding pslice_placed_def
  proof (intro conjI allI impI ballI)
    fix k c
    assume "k < length (peers (s\<lparr>peers := (peers s)[i := b]\<rparr>))"
      and "c \<in> set (peers (s\<lparr>peers := (peers s)[i := b]\<rparr>) ! k)"
    then show "unat (PSlice_po (s\<lparr>peers := (peers s)[i := b]\<rparr>) (Bytes c)) = k"
      using placed b' by (cases "k = i") (auto simp: pslice_placed_def)
  qed (use placed in \<open>auto simp: pslice_placed_def\<close>)
  have "c \<in> pslice_members (s\<lparr>peers := (peers s)[i := b]\<rparr>) \<longleftrightarrow>
      (if c = a then a \<in> set b else c \<in> pslice_members s)" for c
    using members_bin [OF p] members_bin [OF placed] b i il
    by (auto simp: nth_list_update)
  then show "pslice_members (s\<lparr>peers := (peers s)[i := b]\<rparr>) =
      (if a \<in> set b then insert a (pslice_members s) else pslice_members s - {a})"
    by (intro set_eqI) simp
qed

lemma append_peer_placed:
  assumes "pslice_placed s" "po = PSlice_po s (Bytes a)"
  shows "pslice_placed (append_peer a po s)"
    and "pslice_members (append_peer a po s) = insert a (pslice_members s)"
  using bin_update [OF assms(1), of "unat po" a "peers s ! unat po @ [a]"] assms(2)
  by (auto simp: append_peer_def)

lemma append_peer_po [simp]: "PSlice_po (append_peer a po s) = PSlice_po s"
  by (simp add: append_peer_def)

lemma distinct_bins_update:
  "\<forall>ps\<in>set pss. distinct ps \<Longrightarrow> distinct b \<Longrightarrow> \<forall>ps\<in>set (pss[i := b]). distinct ps"
  using set_update_subset_insert [of pss i b] by auto

lemma append_peer_wf:
  assumes "pslice_wf s" "po = PSlice_po s (Bytes a)" "a \<notin> pslice_members s"
  shows "pslice_wf (append_peer a po s)"
proof -
  have p: "pslice_placed s" using assms(1) by (simp add: pslice_wf_def)
  have "distinct (peers s ! unat po @ [a])"
    using assms PSlice_po_bin [OF p] members_bin [OF p, of a] by (auto simp: pslice_wf_def)
  then have "\<forall>ps\<in>set (peers (append_peer a po s)). distinct ps"
    using assms(1) distinct_bins_update [of "peers s" "peers s ! unat po @ [a]" "unat po"]
    by (simp add: append_peer_def pslice_wf_def)
  then show ?thesis using append_peer_placed(1) [OF p assms(2)] by (simp add: pslice_wf_def)
qed

lemma add_scan_placed:
  "pslice_placed s \<Longrightarrow>
   add_scan s as = Some (map (\<lambda>a. (a, PSlice_po s (Bytes a), a \<in> pslice_members s)) as)"
  by (induction as) (simp_all add: Let_def PSlice_index_placed)

lemma add_all_placed:
  assumes "pslice_placed s" "f = PSlice_po s"
  shows "pslice_placed (add_all (map (\<lambda>a. (a, f (Bytes a), e a)) as) s) \<and>
    pslice_members (add_all (map (\<lambda>a. (a, f (Bytes a), e a)) as) s) = pslice_members s \<union> {a \<in> set as. \<not> e a}"
  using assms
proof (induction as arbitrary: s)
  case (Cons a as)
  then show ?case
    using append_peer_placed [of s "f (Bytes a)" a] Cons.IH [of s]
      Cons.IH [of "append_peer a (f (Bytes a)) s"] by (cases "e a") auto
qed simp

lemma add_all_wf:
  assumes "pslice_wf s" "f = PSlice_po s" "distinct as"
    and "\<And>a. a \<in> set as \<Longrightarrow> a \<in> pslice_members s \<Longrightarrow> e a"
  shows "pslice_wf (add_all (map (\<lambda>a. (a, f (Bytes a), e a)) as) s)"
  using assms
proof (induction as arbitrary: s)
  case (Cons a as)
  show ?case
  proof (cases "e a")
    case True
    then show ?thesis using Cons by simp
  next
    case False
    have p: "pslice_placed s" using Cons.prems(1) by (simp add: pslice_wf_def)
    have "pslice_wf (append_peer a (f (Bytes a)) s)"
      using Cons.prems False by (intro append_peer_wf) auto
    then show ?thesis
      using Cons.prems False append_peer_placed(2) [OF p, of "f (Bytes a)" a]
        Cons.IH [of "append_peer a (f (Bytes a)) s"] by auto
  qed
qed simp

lemma PSlice_Add_eq:
  assumes "pslice_placed s"
  shows "PSlice_Add s as =
    Some (add_all (map (\<lambda>a. (a, PSlice_po s (Bytes a), a \<in> pslice_members s)) as) s)"
  using assms
  by (auto simp: PSlice_Add_def Let_def PSlice_index_placed add_scan_placed split: list.splits)

lemma PSlice_Add_wf:
  assumes "pslice_wf s" "distinct as"
  shows "\<exists>s'. PSlice_Add s as = Some s' \<and> pslice_wf s' \<and> pslice_members s' = pslice_members s \<union> set as"
proof -
  have p: "pslice_placed s" using assms by (simp add: pslice_wf_def)
  show ?thesis
    using PSlice_Add_eq [OF p, of as] add_all_wf [OF assms(1) refl assms(2)]
      add_all_placed [OF p refl, of "\<lambda>a. a \<in> pslice_members s" as] by auto
qed

lemma swap_remove_distinct:
  assumes "distinct xs" "a \<in> set xs"
  defines "i \<equiv> length (takeWhile (\<lambda>x. x \<noteq> a) xs)"
  shows "distinct (swap_remove i xs) \<and> set (swap_remove i xs) = set xs - {a}"
proof -
  have i: "i < length xs" "xs ! i = a"
    using assms(2) nth_length_takeWhile [of "\<lambda>x. x \<noteq> a" xs] takeWhile_all_length [OF assms(2)]
    by (auto simp: i_def)
  obtain ys l where xs: "xs = ys @ [l]"
    using i(1) by (cases xs rule: rev_cases) auto
  show ?thesis
  proof (cases "i = length ys")
    case True
    then show ?thesis using i assms(1) xs by (auto simp: swap_remove_def)
  next
    case False
    then have il: "i < length ys" and a: "ys ! i = a" "l \<notin> set ys" "distinct ys" "l \<noteq> a"
      using i xs assms(1) by (auto simp: nth_append)
    then have "distinct (ys[i := l])" "set (ys[i := l]) = insert l (set ys - {a})"
      by (auto simp: distinct_list_update set_update_distinct)
    with False il a show ?thesis by (auto simp: xs swap_remove_def Let_def)
  qed
qed

lemma PSlice_Remove_wf:
  assumes "pslice_wf s"
  shows "\<exists>s'. PSlice_Remove s a = Some s' \<and> pslice_wf s' \<and> pslice_members s' = pslice_members s - {a}"
proof (cases "a \<in> pslice_members s")
  case False
  then show ?thesis
    using assms by (simp add: PSlice_Remove_def Let_def PSlice_index_placed pslice_wf_def)
next
  case True
  let ?po = "PSlice_po s (Bytes a)"
  let ?b = "swap_remove (length (takeWhile (\<lambda>x. x \<noteq> a) (peers s ! unat ?po))) (peers s ! unat ?po)"
  have p: "pslice_placed s" using assms by (simp add: pslice_wf_def)
  have b: "distinct ?b \<and> set ?b = set (peers s ! unat ?po) - {a}"
    using assms True PSlice_po_bin [OF p] members_bin [OF p, of a]
    by (intro swap_remove_distinct) (auto simp: pslice_wf_def)
  have r: "PSlice_Remove s a = Some (s\<lparr>peers := (peers s)[unat ?po := ?b]\<rparr>)"
    using True p by (simp add: PSlice_Remove_def Let_def PSlice_index_placed)
  show ?thesis
    using bin_update [OF p refl, of ?b] b assms distinct_bins_update [of "peers s" ?b "unat ?po"]
    by (simp add: r pslice_wf_def)
qed

lemma PSlice_Length_eq: "PSlice_Length s = length (concat (peers s))"
proof -
  have "foldl (\<lambda>ret ps. ret + length ps) n pss = n + length (concat pss)" for n and pss :: "address list list"
    by (induction pss arbitrary: n) auto
  then show ?thesis by (simp add: PSlice_Length_def)
qed

lemma pslice_wf_distinct: "pslice_wf s \<Longrightarrow> distinct (concat (peers s))"
  using distinct_concat_index [of "peers s" "\<lambda>a. unat (PSlice_po s (Bytes a))" 0]
  by (simp add: pslice_wf_def pslice_placed_def)

interpretation bins: peer_set pslice_wf pslice_members PSlice_Exists "\<lambda>s a. PSlice_Add s [a]"
  PSlice_Remove PSlice_Length
proof
  fix s a
  assume wf: "pslice_wf s"
  then have p: "pslice_placed s" by (simp add: pslice_wf_def)
  show "PSlice_Exists s a = Some (a \<in> pslice_members s)"
    using p by (simp add: PSlice_Exists_def PSlice_index_placed)
  show "\<exists>s'. PSlice_Add s [a] = Some s' \<and> pslice_wf s' \<and> pslice_members s' = insert a (pslice_members s)"
    using PSlice_Add_wf [OF wf, of "[a]"] by simp
  show "\<exists>s'. PSlice_Remove s a = Some s' \<and> pslice_wf s' \<and> pslice_members s' = pslice_members s - {a}"
    using wf by (rule PSlice_Remove_wf)
  show "finite (pslice_members s) \<and> PSlice_Length s = card (pslice_members s)"
    using distinct_card [OF pslice_wf_distinct [OF wf]] by (simp add: PSlice_Length_eq pslice_members_def)
qed

lemma PSlice_New_wf: "1 \<le> n \<Longrightarrow> \<exists>s. PSlice_New n base = Some s \<and> pslice_wf s \<and> pslice_members s = {}"
  by (simp add: PSlice_New_def pslice_wf_def pslice_placed_def pslice_members_def)

section \<open>The order of the iteration\<close>

text \<open>A callback that never stops and records the peers and the bin it is called with.\<close>

definition collect_peer :: "(pslice \<times> (address \<times> byte) list, 'e) peer_func" where
  "collect_peer p i st = ((False, False, None), (fst st, snd st @ [(p, i)]))"

lemma visit_bin_collect:
  "visit_bin collect_peer i ps (s, acc) = (Continue, (s, acc @ map (\<lambda>p. (p, i)) ps))"
  by (induction ps arbitrary: acc) (simp_all add: collect_peer_def)

lemma visit_bins_collect:
  "\<forall>i\<in>set is. i < length (peers s) \<Longrightarrow>
   visit_bins fst collect_peer is (s, acc) =
     Some (None, (s, acc @ concat (map (\<lambda>i. map (\<lambda>p. (p, word_of_nat i)) (peers s ! i)) is)))"
  by (induction "is" arbitrary: acc) (simp_all add: PSlice_bin_def visit_bin_collect)

definition bin_pairs :: "pslice \<Rightarrow> nat \<Rightarrow> (address \<times> byte) list" where
  "bin_pairs s i = map (\<lambda>p. (p, word_of_nat i)) (peers s ! i)"

text \<open>
  A callback that neither skips a bin nor fails sees the peers of the bins as one list, of
  which it may leave a rest unvisited.
\<close>

fun visit_list :: "('st, 'e) peer_func \<Rightarrow> (address \<times> byte) list \<Rightarrow> 'st \<Rightarrow> 'st" where
  "visit_list pf [] st = st"
| "visit_list pf ((p, i) # xs) st =
     (case pf p i st of ((stop, _, _), st') \<Rightarrow> if stop then st' else visit_list pf xs st')"

definition plain_callback :: "('st, 'e) peer_func \<Rightarrow> bool" where
  "plain_callback pf \<longleftrightarrow> (\<forall>p i st. fst (snd (fst (pf p i st))) = False \<and> snd (snd (fst (pf p i st))) = None)"

lemma plain_callbackD: "plain_callback pf \<Longrightarrow> pf p i st = ((stop, nxt, err), st') \<Longrightarrow> \<not> nxt \<and> err = None"
  unfolding plain_callback_def by (metis fst_conv snd_conv)

lemma visit_bin_list:
  assumes "plain_callback pf"
  shows "visit_bin pf i ps st = (v, st') \<Longrightarrow> (v = Continue \<or> v = Return None) \<and>
    visit_list pf (map (\<lambda>p. (p, i)) ps @ xs) st = (if v = Continue then visit_list pf xs st' else st')"
proof (induction ps arbitrary: st)
  case (Cons p ps)
  obtain stop nxt err st1 where pf: "pf p i st = ((stop, nxt, err), st1)" by (metis surj_pair)
  then have "\<not> nxt" "err = None" using plain_callbackD [OF assms pf] by simp_all
  with pf Cons show ?case by (cases stop) auto
qed auto

lemma visit_bins_list:
  assumes "plain_callback pf" "\<forall>i\<in>set is. i < length (peers s)"
  shows "visit_bins (\<lambda>_. s) pf is st = Some (None, visit_list pf (concat (map (bin_pairs s) is)) st)"
  using assms(2)
proof (induction "is" arbitrary: st)
  case (Cons i "is")
  obtain v st' where v: "visit_bin pf (word_of_nat i) (peers s ! i) st = (v, st')" by fastforce
  with visit_bin_list [OF assms(1) v, of "concat (map (bin_pairs s) is)"] Cons show ?case
    by (auto simp: PSlice_bin_def simp flip: bin_pairs_def)
qed simp

lemma bin_pairs_po:
  "pslice_placed s \<Longrightarrow> i < length (peers s) \<Longrightarrow> x \<in> set (bin_pairs s i) \<Longrightarrow>
     snd x = PSlice_po s (Bytes (fst x)) \<and> unat (snd x) = i"
proof -
  assume a: "pslice_placed s" "i < length (peers s)" "x \<in> set (bin_pairs s i)"
  then obtain p where "x = (p, word_of_nat i)" "unat (PSlice_po s (Bytes p)) = i"
    by (auto simp: bin_pairs_def pslice_placed_def)
  then show ?thesis by auto
qed

lemma bin_pairs_sorted:
  assumes "pslice_placed s" "\<And>i. i \<in> set is \<Longrightarrow> i < length (peers s)" "sorted_wrt (\<lambda>i j. r i j) is" "\<And>i. r i i"
  shows "sorted_wrt (\<lambda>x y. r (unat (snd x)) (unat (snd y))) (concat (map (bin_pairs s) is))"
proof (rule sorted_wrt_concat_map)
  have po: "unat (snd x) = i" if "i \<in> set is" "x \<in> set (bin_pairs s i)" for i x
    using assms(1,2) bin_pairs_po that by blast
  show "sorted_wrt (\<lambda>i j. \<forall>x\<in>set (bin_pairs s i). \<forall>y\<in>set (bin_pairs s j). r (unat (snd x)) (unat (snd y))) is"
    using assms(3) by (rule sorted_wrt_mono_rel [rotated]) (simp add: po)
  show "\<forall>i\<in>set is. sorted_wrt (\<lambda>x y. r (unat (snd x)) (unat (snd y))) (bin_pairs s i)"
    by (intro ballI sorted_const) (simp add: po assms(4))
qed

lemma bin_pairs_members:
  assumes "pslice_wf s" 
  shows "distinct (map fst (concat (map (bin_pairs s) [0..<length (peers s)])))"
    and "fst ` set (concat (map (bin_pairs s) [0..<length (peers s)])) = pslice_members s"
proof -
  have "map fst (concat (map (bin_pairs s) [0..<length (peers s)])) = concat (peers s)"
    by (simp add: map_concat bin_pairs_def comp_def map_nth)
  then show "distinct (map fst (concat (map (bin_pairs s) [0..<length (peers s)])))"
    "fst ` set (concat (map (bin_pairs s) [0..<length (peers s)])) = pslice_members s"
    using pslice_wf_distinct [OF assms] by (simp_all only: set_map [symmetric]) (simp_all add: pslice_members_def)
qed

lemma visit_order:
  assumes "pslice_wf s" "is = [0..<length (peers s)] \<or> is = rev [0..<length (peers s)]"
    and "sorted_wrt r is" "\<And>i. r i i"
  shows "\<exists>xs. visit_bins fst collect_peer is (s, []) = Some (None, (s, xs)) \<and>
    distinct (map fst xs) \<and> fst ` set xs = pslice_members s \<and>
    (\<forall>(p, i)\<in>set xs. i = PSlice_po s (Bytes p)) \<and>
    sorted_wrt (\<lambda>x y. r (unat (snd x)) (unat (snd y))) xs"
proof -
  let ?xs = "concat (map (bin_pairs s) is)"
  have p: "pslice_placed s" using assms(1) by (simp add: pslice_wf_def)
  have il: "i < length (peers s)" if "i \<in> set is" for i
    using assms(2) that by auto
  have set: "set ?xs = set (concat (map (bin_pairs s) [0..<length (peers s)]))"
    using assms(2) by auto
  have "distinct (map fst ?xs)"
    using assms(2) bin_pairs_members(1) [OF assms(1)] 
    by (auto simp: map_concat distinct_concat_rev simp flip: rev_map)
  moreover have "fst ` set ?xs = pslice_members s"
    unfolding set by (rule bin_pairs_members(2) [OF assms(1)])
  moreover have "\<forall>(q, i)\<in>set ?xs. i = PSlice_po s (Bytes q)"
    using bin_pairs_po [OF p il] by fastforce
  moreover have "visit_bins fst collect_peer is (s, []) = Some (None, (s, ?xs))"
    using il by (simp add: visit_bins_collect bin_pairs_def cong: map_cong)
  ultimately show ?thesis
    using bin_pairs_sorted [OF p il assms(3,4)] by blast
qed

section \<open>Properties\<close>

text \<open>
  C17. A peer list is a finite set of addresses: starting from \<open>New\<close> with at least one bin,
  no sequence of \<open>Add\<close> (of one peer) and \<open>Remove\<close> panics, and afterwards \<open>Exists\<close> answers
  membership in the set the same operations build, \<open>Length\<close> its cardinality.
\<close>

theorem PSlice_implements_set:
  assumes "1 \<le> n"
  shows "\<exists>s s'. PSlice_New n base = Some s \<and>
    run_ops (\<lambda>s a. PSlice_Add s [a]) PSlice_Remove ops s = Some s' \<and>
    (\<forall>a. PSlice_Exists s' a = Some (a \<in> fold set_op ops {})) \<and>
    PSlice_Length s' = card (fold set_op ops {})"
proof -
  obtain s where s: "PSlice_New n base = Some s" "pslice_wf s" "pslice_members s = {}"
    using PSlice_New_wf [OF assms] by blast
  then show ?thesis
    using bins.run_ops_sim [OF s(2), of ops] bins.exists bins.count by fastforce
qed

theorem PSlice_implements_set_witness:
  "\<exists>s s'. PSlice_New 32 (Address [0, 0, 0, 0]) = Some s \<and>
    run_ops (\<lambda>s a. PSlice_Add s [a]) PSlice_Remove
      [AddPeer (Address [1, 0, 0, 0]), AddPeer (Address [2, 0, 0, 0]), RemovePeer (Address [1, 0, 0, 0])] s
      = Some s' \<and>
    (\<forall>a. PSlice_Exists s' a = Some (a \<in> fold set_op
      [AddPeer (Address [1, 0, 0, 0]), AddPeer (Address [2, 0, 0, 0]), RemovePeer (Address [1, 0, 0, 0])] {})) \<and>
    PSlice_Length s' = card (fold set_op
      [AddPeer (Address [1, 0, 0, 0]), AddPeer (Address [2, 0, 0, 0]), RemovePeer (Address [1, 0, 0, 0])] {})"
  by (rule PSlice_implements_set) simp

text \<open>
  Every bin visited once, in order: on a well-formed peer list \<open>EachBin\<close> with a callback
  that never stops passes every peer exactly once, with its own bin number, from the deepest
  bin to the shallowest, and \<open>EachBinRev\<close> from the shallowest to the deepest.
\<close>

theorem EachBin_order:
  assumes "pslice_wf s"
  shows "(\<exists>xs. PSlice_EachBin fst collect_peer (s, []) = Some (None, (s, xs)) \<and>
      distinct (map fst xs) \<and> fst ` set xs = pslice_members s \<and>
      (\<forall>(p, i)\<in>set xs. i = PSlice_po s (Bytes p)) \<and>
      sorted_wrt (\<lambda>x y. unat (snd x) \<ge> unat (snd y)) xs) \<and>
    (\<exists>xs. PSlice_EachBinRev fst collect_peer (s, []) = Some (None, (s, xs)) \<and>
      distinct (map fst xs) \<and> fst ` set xs = pslice_members s \<and>
      (\<forall>(p, i)\<in>set xs. i = PSlice_po s (Bytes p)) \<and>
      sorted_wrt (\<lambda>x y. unat (snd x) \<le> unat (snd y)) xs)"
proof -
  have n: "length (peers s) = nat (maxBins s)"
    using assms by (simp add: pslice_wf_def pslice_placed_def)
  have "sorted_wrt (\<le>) [0..<k]" "sorted_wrt (\<ge>) (rev [0..<k])" for k :: nat
    by (simp_all add: sorted_wrt_rev)
  then show ?thesis
    unfolding PSlice_EachBin_def PSlice_EachBinRev_def fst_conv n [symmetric]
    by (intro conjI visit_order assms) simp_all
qed

theorem EachBin_order_witness:
  "\<exists>xs. PSlice_EachBin fst collect_peer
       (\<lparr>peers = [[Address [128]], [Address [64]]], baseBytes = [0], maxBins = 2\<rparr>, []) =
     Some (None :: unit option,
       (\<lparr>peers = [[Address [128]], [Address [64]]], baseBytes = [0], maxBins = 2\<rparr>, xs)) \<and>
     sorted_wrt (\<lambda>x y. unat (snd x) \<ge> unat (snd y)) xs"
proof -
  let ?s = "\<lparr>peers = [[Address [128]], [Address [64]]], baseBytes = [0], maxBins = 2\<rparr>"
  have "pslice_wf ?s" by code_simp
  from EachBin_order [OF this] show ?thesis by blast
qed

text \<open>
  \<open>Add\<close> of several peers at once: for pairwise different arguments the list stays
  well-formed and holds the union.
\<close>

theorem PSlice_Add_many:
  assumes "pslice_wf s" "distinct addrs"
  shows "\<exists>s'. PSlice_Add s addrs = Some s' \<and> pslice_wf s' \<and>
    pslice_members s' = pslice_members s \<union> set addrs"
  using assms by (rule PSlice_Add_wf)

theorem PSlice_Add_many_witness:
  "\<exists>s'. PSlice_Add \<lparr>peers = [[Address [128]], []], baseBytes = [0], maxBins = 2\<rparr>
      [Address [128], Address [64]] = Some s' \<and> pslice_wf s' \<and>
    pslice_members s' = pslice_members \<lparr>peers = [[Address [128]], []], baseBytes = [0], maxBins = 2\<rparr>
      \<union> set [Address [128], Address [64]]"
  by (rule PSlice_Add_many) code_simp+


end
