(* ===== verification/BitVector.thy ===== *)
theory BitVector
  imports Prelude
begin

text \<open>
  The bit vectors that record which chunks of a file a node has
  (\<^verbatim>\<open>src/pkg/bitvector/bitvector.go\<close>). Indices are Go \<open>int\<close>s, so they may be negative:
  the byte index \<open>i / 8\<close> truncates towards zero and a shift count outside 0 to 7 shifts the
  bit out. \<open>None\<close> is a panic. The lemmas are the read-over-write laws, the effect of
  \<open>SetBytes\<close> and \<open>UnsetBytes\<close>, and that \<open>Equals\<close> decides whether every bit is set.
\<close>

section \<open>Model\<close>

record bitvector =
  bv_len :: int
  bv_b :: bytes

datatype bv_error = ErrInvalidLength

definition NewFromBytes :: "bytes \<Rightarrow> int \<Rightarrow> bv_error + bitvector" where
  "NewFromBytes b l =
     (if l \<le> 0 then Inl ErrInvalidLength
      else if int (length b) * 8 < l then Inl ErrInvalidLength
      else Inr \<lparr>bv_len = l, bv_b = b\<rparr>)"

definition BitVector_New :: "int \<Rightarrow> (bv_error + bitvector) option" where
  "BitVector_New l =
     (let len = (if tmod l 8 = 0 \<and> l \<noteq> 0 then tdiv l 8 else tdiv l 8 + 1) in
      if len < 0 then None else Some (NewFromBytes (replicate (nat len) 0) l))"

text \<open>The byte \<open>0x1 << uint(k)\<close>; a negative \<open>k\<close> becomes a huge shift count.\<close>

definition bit_mask :: "int \<Rightarrow> byte" where
  "bit_mask k = (if 0 \<le> k \<and> k < 8 then push_bit (nat k) 1 else 0)"

definition BitVector_Get :: "bitvector \<Rightarrow> int \<Rightarrow> bool option" where
  "BitVector_Get bv i =
     (let bi = tdiv i 8 in
      if bi < 0 \<or> int (length (bv_b bv)) \<le> bi then None
      else Some (bv_b bv ! nat bi AND bit_mask (tmod i 8) \<noteq> 0))"

definition BitVector_set :: "bitvector \<Rightarrow> int \<Rightarrow> bool \<Rightarrow> bitvector option" where
  "BitVector_set bv i v =
     (let bi = tdiv i 8 in
      case BitVector_Get bv i of
        None \<Rightarrow> None
      | Some cv \<Rightarrow>
          Some (if cv \<noteq> v
                then bv\<lparr>bv_b := (bv_b bv)[nat bi := bv_b bv ! nat bi XOR bit_mask (tmod i 8)]\<rparr>
                else bv))"

definition BitVector_Set :: "bitvector \<Rightarrow> int \<Rightarrow> bitvector option" where
  "BitVector_Set bv i = BitVector_set bv i True"

definition BitVector_Unset :: "bitvector \<Rightarrow> int \<Rightarrow> bitvector option" where
  "BitVector_Unset bv i = BitVector_set bv i False"

text \<open>The common loop of \<open>SetBytes\<close> and \<open>UnsetBytes\<close> over the bits of the argument.\<close>

fun set_bits :: "bytes \<Rightarrow> bool \<Rightarrow> nat list \<Rightarrow> bitvector \<Rightarrow> bitvector option" where
  "set_bits bs v [] bv = Some bv"
| "set_bits bs v (i # is) bv =
     (if bs ! (i div 8) AND bit_mask (int (i mod 8)) > 0
      then Option.bind (BitVector_set bv (int i) v) (set_bits bs v is)
      else set_bits bs v is bv)"

definition SetBytes :: "bitvector \<Rightarrow> bytes \<Rightarrow> (bv_error + bitvector) option" where
  "SetBytes bv bs =
     (if length bs > length (bv_b bv) then Some (Inl ErrInvalidLength)
      else map_option Inr (set_bits bs True [0..<length bs * 8] bv))"

definition UnsetBytes :: "bitvector \<Rightarrow> bytes \<Rightarrow> (bv_error + bitvector) option" where
  "UnsetBytes bv bs =
     (if length bs > length (bv_b bv) then Some (Inl ErrInvalidLength)
      else map_option Inr (set_bits bs False [0..<length bs * 8] bv))"

definition BitVector_String :: "bitvector \<Rightarrow> string" where
  "BitVector_String bv =
     map (\<lambda>i. if BitVector_Get bv (int i) = Some True then CHR ''1'' else CHR ''0'')
       [0..<length (bv_b bv) * 8]"

fun low_bits_set :: "byte \<Rightarrow> nat \<Rightarrow> bool" where
  "low_bits_set w 0 = True"
| "low_bits_set w (Suc k) =
     (if w AND bit_mask (int k mod 8) = 0 then False else low_bits_set w k)"

fun equals_loop :: "bitvector \<Rightarrow> nat list \<Rightarrow> bool" where
  "equals_loop bv [] = True"
| "equals_loop bv (i # is) =
     (let l = length (bv_b bv); len = tmod (bv_len bv) 8 in
      if len \<noteq> 0 \<and> i = l - 1
      then low_bits_set (bv_b bv ! i) (nat len) \<and> equals_loop bv is
      else if bv_b bv ! i \<noteq> 255 then False else equals_loop bv is)"

text \<open>\<open>Equals\<close> may be called on a nil pointer.\<close>

definition BitVector_Equals :: "bitvector option \<Rightarrow> bool" where
  "BitVector_Equals p =
     (case p of None \<Rightarrow> False | Some bv \<Rightarrow> equals_loop bv [0..<length (bv_b bv)])"

definition BitVector_Len :: "bitvector \<Rightarrow> int" where
  "BitVector_Len bv = bv_len bv"

section \<open>Lemmas\<close>

text \<open>The bit at a position inside the byte slice.\<close>

definition bv_bit :: "bitvector \<Rightarrow> nat \<Rightarrow> bool" where
  "bv_bit bv i = bit (bv_b bv ! (i div 8)) (i mod 8)"

text \<open>The invariant that \<open>New\<close> establishes: the slice has exactly the bytes that are needed.\<close>

definition bv_wf :: "bitvector \<Rightarrow> bool" where
  "bv_wf bv \<longleftrightarrow> 0 < bv_len bv \<and> int (length (bv_b bv)) = (bv_len bv + 7) div 8"

lemma go_div_mod_8: "tdiv (int i) 8 = int (i div 8)" "tmod (int i) 8 = int (i mod 8)"
  by (simp_all add: tdiv_nonneg tmod_nonneg zdiv_int zmod_int)

lemma bit_bit_mask: "k < 8 \<Longrightarrow> bit (bit_mask (int k)) n \<longleftrightarrow> n = k"
  by (auto simp: bit_mask_def bit_exp_iff)

lemma and_bit_mask: "k < 8 \<Longrightarrow> w AND bit_mask (int k) = 0 \<longleftrightarrow> \<not> bit w k"
proof -
  assume k: "k < 8"
  have "bit (w AND bit_mask (int k)) n \<longleftrightarrow> bit w k \<and> n = k" for n
    by (auto simp: bit_and_iff bit_bit_mask [OF k])
  then show ?thesis using k by (auto simp: bit_eq_iff [of _ "0 :: byte"])
qed

lemma bit_xor_mask: "k < 8 \<Longrightarrow> bit (w XOR bit_mask (int k)) n \<longleftrightarrow> (if n = k then \<not> bit w k else bit w n)"
  by (auto simp: bit_xor_iff bit_bit_mask)

lemma Get_inside [simp]:
  "i < length (bv_b bv) * 8 \<Longrightarrow> BitVector_Get bv (int i) = Some (bv_bit bv i)"
  by (simp add: BitVector_Get_def Let_def go_div_mod_8 and_bit_mask bv_bit_def less_mult_imp_div_less)

lemma set_inside:
  assumes "i < length (bv_b bv) * 8"
  obtains bv' where "BitVector_set bv (int i) v = Some bv'" "bv_len bv' = bv_len bv"
    "length (bv_b bv') = length (bv_b bv)"
    "\<And>j. bv_bit bv' j = (if j = i then v else bv_bit bv j)"
proof -
  let ?w = "bv_b bv ! (i div 8) XOR bit_mask (int (i mod 8))"
  let ?bv = "if bv_bit bv i \<noteq> v then bv\<lparr>bv_b := (bv_b bv)[i div 8 := ?w]\<rparr> else bv"
  have il: "i div 8 < length (bv_b bv)" using assms by (simp add: less_mult_imp_div_less)
  have dm: "j div 8 = i div 8 \<Longrightarrow> j mod 8 = i mod 8 \<Longrightarrow> j = i" for j
    by (metis div_mult_mod_eq)
  have "bv_bit ?bv j = (if j = i then v else bv_bit bv j)" for j
    using il dm [of j] by (auto simp: bv_bit_def nth_list_update bit_xor_mask)
  moreover have "BitVector_set bv (int i) v = Some ?bv"
    using assms by (simp add: BitVector_set_def Let_def go_div_mod_8)
  ultimately show thesis
    by (intro that [of ?bv]) simp_all
qed

lemma set_bits_inside:
  assumes "\<forall>i\<in>set is. i < length (bv_b bv) * 8"
  shows "\<exists>bv'. set_bits bs v is bv = Some bv' \<and> bv_len bv' = bv_len bv \<and>
    length (bv_b bv') = length (bv_b bv) \<and>
    (\<forall>j. bv_bit bv' j = (if j \<in> set is \<and> bit (bs ! (j div 8)) (j mod 8) then v else bv_bit bv j))"
  using assms
proof (induction "is" arbitrary: bv)
  case (Cons i "is")
  show ?case
  proof (cases "bit (bs ! (i div 8)) (i mod 8)")
    case True
    obtain bv1 where bv1: "BitVector_set bv (int i) v = Some bv1" "bv_len bv1 = bv_len bv"
      "length (bv_b bv1) = length (bv_b bv)" "\<And>j. bv_bit bv1 j = (if j = i then v else bv_bit bv j)"
      using Cons.prems by (auto elim: set_inside [of i bv v])
    with Cons.IH [of bv1] Cons.prems True show ?thesis
      by (auto simp: and_bit_mask word_gt_0)
  next
    case False
    with Cons.IH [of bv] Cons.prems show ?thesis
      by (auto simp: and_bit_mask word_gt_0)
  qed
qed simp

lemma low_bits_set_iff: "n \<le> 8 \<Longrightarrow> low_bits_set w n \<longleftrightarrow> (\<forall>k<n. bit w k)"
proof (induction n)
  case (Suc n)
  then have "int n mod 8 = int n" by simp
  with Suc show ?case by (auto simp: and_bit_mask less_Suc_eq)
qed simp

lemma byte_all_ones: "w = 255 \<longleftrightarrow> (\<forall>k<8. bit (w :: byte) k)"
proof -
  have "(255 :: byte) = mask 8" by (simp add: mask_eq_exp_minus_1)
  then show ?thesis
    by (auto simp: bit_eq_iff bit_mask_iff dest: bit_imp_le_length)
qed

lemma equals_loop_iff:
  "equals_loop bv is \<longleftrightarrow>
     (\<forall>i\<in>set is. if tmod (bv_len bv) 8 \<noteq> 0 \<and> i = length (bv_b bv) - 1
                then low_bits_set (bv_b bv ! i) (nat (tmod (bv_len bv) 8)) else bv_b bv ! i = 255)"
  by (induction "is") (auto simp: Let_def)

lemma ceil_div_8: "r < 8 \<Longrightarrow> (8 * q + r + 7) div 8 = (if r = 0 then q else Suc q)" for q r :: nat
proof (cases r)
  case (Suc s)
  assume "r < 8"
  then have "(8 * Suc q + s) div 8 = Suc q" using Suc by simp
  with Suc show ?thesis by (simp add: algebra_simps)
qed simp

lemma Equals_byte:
  assumes n: "length b = (n + 7) div 8" and i: "i < length b"
  shows "(if n mod 8 \<noteq> 0 \<and> i = length b - 1 then low_bits_set (b ! i) (n mod 8) else b ! i = 255)
    \<longleftrightarrow> (\<forall>k<8. 8 * i + k < n \<longrightarrow> bit (b ! i) k)"
proof -
  define q r where "q = n div 8" and "r = n mod 8"
  have nq: "n = 8 * q + r" "r < 8" by (simp_all add: q_def r_def)
  then have len: "length b = (if r = 0 then q else Suc q)"
    using n ceil_div_8 [of r q] by simp
  show ?thesis
  proof (cases "r \<noteq> 0 \<and> i = q")
    case True
    then have "low_bits_set (b ! i) r \<longleftrightarrow> (\<forall>k<8. 8 * i + k < n \<longrightarrow> bit (b ! i) k)"
      using nq by (auto simp: low_bits_set_iff)
    with True len show ?thesis by (simp flip: r_def)
  next
    case False
    then have "i < q" using i len by (auto split: if_splits)
    then have "8 * i + 8 \<le> n" using nq by simp
    with \<open>i < q\<close> len show ?thesis by (auto simp: byte_all_ones simp flip: r_def)
  qed
qed

lemma Equals_wf:
  assumes "bv_wf bv"
  shows "BitVector_Equals (Some bv) \<longleftrightarrow> (\<forall>j<nat (bv_len bv). bv_bit bv j)"
proof -
  define n where "n = nat (bv_len bv)"
  have len: "bv_len bv = int n" using assms by (simp add: n_def bv_wf_def)
  have L: "length (bv_b bv) = (n + 7) div 8"
    using assms by (simp add: bv_wf_def len flip: zdiv_int) (metis nat_int zdiv_int of_nat_add of_nat_numeral)
  have r: "(int (n mod 8) \<noteq> 0) = (n mod 8 \<noteq> 0)" "nat (int (n mod 8)) = n mod 8" by auto
  have "BitVector_Equals (Some bv) \<longleftrightarrow>
      (\<forall>i\<in>{0..<length (bv_b bv)}. if n mod 8 \<noteq> 0 \<and> i = length (bv_b bv) - 1
         then low_bits_set (bv_b bv ! i) (n mod 8) else bv_b bv ! i = 255)"
    by (simp only: BitVector_Equals_def option.case equals_loop_iff len go_div_mod_8 r set_upt)
  also have "\<dots> \<longleftrightarrow> (\<forall>i\<in>{0..<length (bv_b bv)}. \<forall>k<8. 8 * i + k < n \<longrightarrow> bit (bv_b bv ! i) k)"
    by (intro ball_cong refl Equals_byte [OF L]) simp
  also have "\<dots> \<longleftrightarrow> (\<forall>i<length (bv_b bv). \<forall>k<8. 8 * i + k < n \<longrightarrow> bit (bv_b bv ! i) k)"
    by auto
  also have "\<dots> \<longleftrightarrow> (\<forall>j<n. bv_bit bv j)"
  proof (intro iffI allI impI)
    fix j
    assume h: "\<forall>i<length (bv_b bv). \<forall>k<8. 8 * i + k < n \<longrightarrow> bit (bv_b bv ! i) k" and j: "j < n"
    then have "j div 8 < length (bv_b bv)" using L by linarith
    with h [rule_format, of "j div 8" "j mod 8"] j show "bv_bit bv j"
      by (simp add: bv_bit_def)
  next
    fix i k
    assume "\<forall>j<n. bv_bit bv j" "k < 8" "8 * i + k < n"
    then have "bv_bit bv (8 * i + k)" by blast
    with \<open>k < 8\<close> show "bit (bv_b bv ! i) k" by (simp add: bv_bit_def)
  qed
  finally show ?thesis by (simp add: n_def)
qed

lemma BitVector_New_wf:
  "0 < l \<Longrightarrow> \<exists>bv. BitVector_New l = Some (Inr bv) \<and> bv_wf bv \<and> bv_len bv = l \<and>
     (\<forall>j<length (bv_b bv) * 8. \<not> bv_bit bv j)"
proof -
  assume l: "0 < l"
  define len where "len = (if l mod 8 = 0 then l div 8 else l div 8 + 1)"
  have len: "len = (l + 7) div 8" "0 \<le> len" "l \<le> len * 8"
  proof -
    define q r where "q = nat (l div 8)" and "r = nat (l mod 8)"
    then have q: "l = int (8 * q + r)" "r < 8" "l div 8 = int q" "l mod 8 = int r"
      using l by (simp_all add: pos_imp_zdiv_nonneg_iff nat_less_iff)
    then have "(l + 7) div 8 = int ((8 * q + r + 7) div 8)" by (simp add: zdiv_int)
    with q show "len = (l + 7) div 8" "0 \<le> len" "l \<le> len * 8"
      by (simp_all add: len_def ceil_div_8)
  qed
  have "BitVector_New l = Some (Inr \<lparr>bv_len = l, bv_b = replicate (nat len) 0\<rparr>)"
  proof -
    have "(if tmod l 8 = 0 \<and> l \<noteq> 0 then tdiv l 8 else tdiv l 8 + 1) = len"
      using l by (simp add: len_def tdiv_nonneg tmod_nonneg)
    then show ?thesis
      using l len(2,3) by (simp add: BitVector_New_def NewFromBytes_def)
  qed
  then show ?thesis
    using l len by (simp add: bv_wf_def bv_bit_def)
qed

section \<open>Properties\<close>

text \<open>
  C19. Reading after writing: inside the byte slice \<open>Set\<close> and \<open>Unset\<close> never panic, change
  exactly the addressed bit, and keep the length of the vector.
\<close>

theorem BitVector_read_over_write:
  assumes "i < length (bv_b bv) * 8" "j < length (bv_b bv) * 8"
  shows "\<exists>bs bu. BitVector_Set bv (int i) = Some bs \<and> BitVector_Unset bv (int i) = Some bu \<and>
    BitVector_Get bs (int j) = (if j = i then Some True else BitVector_Get bv (int j)) \<and>
    BitVector_Get bu (int j) = (if j = i then Some False else BitVector_Get bv (int j)) \<and>
    BitVector_Len bs = BitVector_Len bv \<and> BitVector_Len bu = BitVector_Len bv"
proof -
  obtain bs where "BitVector_set bv (int i) True = Some bs" "bv_len bs = bv_len bv"
    "length (bv_b bs) = length (bv_b bv)" "\<And>j. bv_bit bs j = (if j = i then True else bv_bit bv j)"
    using set_inside [OF assms(1), of True] by blast
  moreover obtain bu where "BitVector_set bv (int i) False = Some bu" "bv_len bu = bv_len bv"
    "length (bv_b bu) = length (bv_b bv)" "\<And>j. bv_bit bu j = (if j = i then False else bv_bit bv j)"
    using set_inside [OF assms(1), of False] by blast
  ultimately show ?thesis
    using assms by (simp add: BitVector_Set_def BitVector_Unset_def BitVector_Len_def)
qed

theorem BitVector_read_over_write_witness:
  "\<exists>bs bu. BitVector_Set \<lparr>bv_len = 12, bv_b = [1, 2]\<rparr> (int 11) = Some bs \<and>
    BitVector_Unset \<lparr>bv_len = 12, bv_b = [1, 2]\<rparr> (int 11) = Some bu \<and>
    BitVector_Get bs (int 9) = (if 9 = (11 :: nat) then Some True else BitVector_Get \<lparr>bv_len = 12, bv_b = [1, 2]\<rparr> (int 9)) \<and>
    BitVector_Get bu (int 9) = (if 9 = (11 :: nat) then Some False else BitVector_Get \<lparr>bv_len = 12, bv_b = [1, 2]\<rparr> (int 9)) \<and>
    BitVector_Len bs = BitVector_Len \<lparr>bv_len = 12, bv_b = [1, 2]\<rparr> \<and>
    BitVector_Len bu = BitVector_Len \<lparr>bv_len = 12, bv_b = [1, 2]\<rparr>"
  by (rule BitVector_read_over_write) simp_all

text \<open>
  \<open>SetBytes\<close> is the union and \<open>UnsetBytes\<close> the difference with the bits of the argument:
  for an argument that is not longer than the vector both succeed and change exactly the
  bits set in it; a longer argument is refused with an error and changes nothing.
\<close>

theorem SetBytes_UnsetBytes_bits:
  "if length bs \<le> length (bv_b bv) then
     (\<exists>s u. SetBytes bv bs = Some (Inr s) \<and> UnsetBytes bv bs = Some (Inr u) \<and>
       (\<forall>j. bv_bit s j = (bv_bit bv j \<or> (j < length bs * 8 \<and> bit (bs ! (j div 8)) (j mod 8)))) \<and>
       (\<forall>j. bv_bit u j = (bv_bit bv j \<and> \<not> (j < length bs * 8 \<and> bit (bs ! (j div 8)) (j mod 8)))))
   else SetBytes bv bs = Some (Inl ErrInvalidLength) \<and> UnsetBytes bv bs = Some (Inl ErrInvalidLength)"
proof (cases "length bs \<le> length (bv_b bv)")
  case True
  then have "\<forall>i\<in>set [0..<length bs * 8]. i < length (bv_b bv) * 8" by auto
  note r = set_bits_inside [OF this, of bs]
  show ?thesis
    using r [of True] r [of False] True by (auto simp: SetBytes_def UnsetBytes_def)
next
  case False
  then show ?thesis by (simp add: SetBytes_def UnsetBytes_def)
qed

text \<open>
  A vector created by \<open>New\<close> for \<open>l > 0\<close> bits starts with every bit unset; on every vector
  with as many bytes as its length needs, \<open>Equals\<close> answers whether all \<open>l\<close> bits are set and
  ignores the padding bits of the last byte.
\<close>

theorem BitVector_Equals_all_set:
  "(0 < l \<longrightarrow> (\<exists>bv. BitVector_New l = Some (Inr bv) \<and> bv_wf bv \<and> bv_len bv = l \<and>
      (\<forall>j<length (bv_b bv) * 8. \<not> bv_bit bv j))) \<and>
   (bv_wf v \<longrightarrow> BitVector_Equals (Some v) = (\<forall>j<nat (bv_len v). bv_bit v j))"
  using BitVector_New_wf Equals_wf by blast

theorem BitVector_Equals_all_set_witness:
  "bv_wf \<lparr>bv_len = 11, bv_b = [255, 7]\<rparr> \<and> BitVector_Equals (Some \<lparr>bv_len = 11, bv_b = [255, 7]\<rparr>) \<and>
   bv_bit \<lparr>bv_len = 11, bv_b = [255, 7]\<rparr> 10 \<and> (\<exists>bv. BitVector_New 11 = Some (Inr bv))"
proof -
  have "bv_wf \<lparr>bv_len = 11, bv_b = [255, 7]\<rparr>" "BitVector_Equals (Some \<lparr>bv_len = 11, bv_b = [255, 7]\<rparr>)"
    by code_simp+
  with BitVector_Equals_all_set [of 11 "\<lparr>bv_len = 11, bv_b = [255, 7]\<rparr>"] show ?thesis by auto
qed

end
