(* ===== verification/Breaker.thy ===== *)
theory Breaker
  imports Prelude
begin

text \<open>
  The circuit breaker in front of libp2p connections
  (\<^verbatim>\<open>src/pkg/p2p/libp2p/internal/breaker/breaker.go\<close>). \<open>Execute\<close> is two critical
  sections, \<open>beforef\<close> and \<open>afterf\<close>, around a call of the user's function that is not
  locked; concurrent calls interleave these sections, so the invariant is stated for every
  sequence of them. Each read of the clock is an argument.
\<close>

section \<open>Model\<close>

definition limit_default :: int where
  "limit_default = 100"

definition failInterval_default :: duration where
  "failInterval_default = 30 * minute"

definition maxBackoff_default :: duration where
  "maxBackoff_default = hour"

definition backoff_default :: duration where
  "backoff_default = 2 * minute"

record breaker =
  limit :: int
  consFailedCalls :: int
  firstFailedTimestamp :: gotime
  closedTimestamp :: gotime
  backoff :: duration
  maxBackoff :: duration
  failInterval :: duration

record breaker_options =
  oLimit :: int
  oFailInterval :: duration
  oStartBackoff :: duration
  oMaxBackoff :: duration

datatype 'e breaker_error = ErrClosed | ErrCall 'e

definition NewBreaker :: "breaker_options \<Rightarrow> breaker" where
  "NewBreaker o' =
     \<lparr>limit = (if oLimit o' = 0 then limit_default else oLimit o'),
      consFailedCalls = 0, firstFailedTimestamp = zero_time, closedTimestamp = zero_time,
      backoff = (if oStartBackoff o' = 0 then backoff_default else oStartBackoff o'),
      maxBackoff = (if oMaxBackoff o' = 0 then maxBackoff_default else oMaxBackoff o'),
      failInterval = (if oFailInterval o' = 0 then failInterval_default else oFailInterval o')\<rparr>"

definition resetFailed :: "breaker \<Rightarrow> breaker" where
  "resetFailed b = b\<lparr>consFailedCalls := 0, firstFailedTimestamp := zero_time\<rparr>"

definition reopen :: "breaker \<Rightarrow> breaker" where
  "reopen b =
     (let b1 = resetFailed b; newBackoff = wrap64 (backoff b1 * 2) in
      if newBackoff \<le> maxBackoff b1 then b1\<lparr>backoff := newBackoff\<rparr>
      else b1\<lparr>backoff := maxBackoff b1\<rparr>)"

definition expire_failures :: "gotime \<Rightarrow> breaker \<Rightarrow> breaker" where
  "expire_failures now b =
     (if firstFailedTimestamp b \<noteq> zero_time \<and>
         time_sub now (firstFailedTimestamp b) \<ge> failInterval b
      then resetFailed b else b)"

definition beforef :: "gotime \<Rightarrow> gotime \<Rightarrow> breaker \<Rightarrow> 'e breaker_error option \<times> breaker" where
  "beforef now1 now2 b =
     (if consFailedCalls b \<ge> limit b then
        (if closedTimestamp b = zero_time \<or> time_sub now1 (closedTimestamp b) < backoff b
         then (Some ErrClosed, b)
         else (None, expire_failures now2 (reopen b)))
      else (None, expire_failures now2 b))"

definition afterf ::
  "gotime \<Rightarrow> gotime \<Rightarrow> 'e option \<Rightarrow> breaker \<Rightarrow> 'e breaker_error option \<times> breaker" where
  "afterf now1 now2 err b =
     (case err of
        Some e \<Rightarrow>
          (let b1 = (if consFailedCalls b = 0 then b\<lparr>firstFailedTimestamp := now1\<rparr> else b);
               b2 = b1\<lparr>consFailedCalls := consFailedCalls b1 + 1\<rparr>;
               b3 = (if consFailedCalls b2 = limit b2 then b2\<lparr>closedTimestamp := now2\<rparr> else b2)
           in (Some (ErrCall e), b3))
      | None \<Rightarrow> (None, resetFailed b))"

text \<open>
  One call with no other call in between: the function \<open>f\<close> is called only when \<open>beforef\<close>
  gives no error. The first component tells whether it was called.
\<close>

definition Execute ::
  "gotime \<Rightarrow> gotime \<Rightarrow> 'e option \<Rightarrow> breaker \<Rightarrow> bool \<times> 'e breaker_error option \<times> breaker" where
  "Execute now1 now2 err b =
     (case beforef now1 now1 b of
        (Some e, b') \<Rightarrow> (False, Some e, b')
      | (None, b') \<Rightarrow> (True, afterf now2 now2 err b'))"

definition ClosedUntil :: "gotime \<Rightarrow> breaker \<Rightarrow> gotime" where
  "ClosedUntil now b =
     (if consFailedCalls b \<ge> limit b then closedTimestamp b + backoff b else now)"

section \<open>Invariant over interleaved calls\<close>

datatype 'e breaker_op = Before gotime gotime | After gotime gotime "'e option"

text \<open>The clock is past the zero time; the operations of one goroutine may mix with others.\<close>

fun breaker_app :: "'e breaker_op \<Rightarrow> breaker \<Rightarrow> breaker" where
  "breaker_app (Before t1 t2) b =
     (if zero_time < t1 \<and> zero_time < t2
      then snd (beforef t1 t2 b :: 'e breaker_error option \<times> breaker) else b)"
| "breaker_app (After t1 t2 err) b =
     (if zero_time < t1 \<and> zero_time < t2 then snd (afterf t1 t2 err b) else b)"

definition breaker_inv :: "breaker \<Rightarrow> bool" where
  "breaker_inv b \<longleftrightarrow> 1 \<le> limit b \<and> 0 \<le> consFailedCalls b \<and>
     0 < backoff b \<and> backoff b \<le> maxBackoff b \<and> maxBackoff b < 2 ^ 62 \<and>
     (limit b \<le> consFailedCalls b \<longrightarrow> zero_time < closedTimestamp b) \<and>
     (if consFailedCalls b = 0 then firstFailedTimestamp b = zero_time
      else zero_time < firstFailedTimestamp b)"

lemmas breaker_defs = beforef_def afterf_def reopen_def expire_failures_def resetFailed_def

lemma wrap64_double: "0 < x \<Longrightarrow> x < 2 ^ 62 \<Longrightarrow> wrap64 (x * 2) = x * 2"
  by (rule wrap64_id) (simp add: in_int64_def)

lemma reopen_inv: "breaker_inv b \<Longrightarrow> breaker_inv (reopen b) \<and> backoff b \<le> backoff (reopen b)"
  by (simp add: breaker_inv_def reopen_def resetFailed_def Let_def wrap64_double)

lemma resetFailed_inv: "breaker_inv b \<Longrightarrow> breaker_inv (resetFailed b)"
  by (simp add: breaker_inv_def resetFailed_def)

lemma expire_inv:
  "breaker_inv b \<Longrightarrow> breaker_inv (expire_failures t b) \<and> backoff (expire_failures t b) = backoff b"
  by (simp add: expire_failures_def resetFailed_inv) (simp add: resetFailed_def)

lemma beforef_inv:
  "breaker_inv b \<Longrightarrow> breaker_inv (snd (beforef t1 t2 b)) \<and> backoff b \<le> backoff (snd (beforef t1 t2 b))"
  using reopen_inv expire_inv by (auto simp: beforef_def)

lemma afterf_inv:
  "breaker_inv b \<Longrightarrow> zero_time < t1 \<Longrightarrow> zero_time < t2 \<Longrightarrow>
   breaker_inv (snd (afterf t1 t2 err b)) \<and> backoff (snd (afterf t1 t2 err b)) = backoff b"
  by (auto simp: breaker_inv_def afterf_def resetFailed_def Let_def zero_time_def split: option.splits)

interpretation brk: mono_machine breaker_app breaker_inv backoff
proof
  fix b :: breaker and x :: "'e breaker_op"
  assume "breaker_inv b"
  then have "breaker_inv (breaker_app x b) \<and> backoff b \<le> backoff (breaker_app x b)"
    by (cases x) (simp_all add: beforef_inv afterf_inv)
  then show "breaker_inv (breaker_app x b)" "backoff b \<le> backoff (breaker_app x b)"
    by simp_all
qed

section \<open>Consecutive failures\<close>

text \<open>The calls of \<open>Execute\<close> at the times \<open>ts\<close>, each of which fails with the error \<open>e\<close>.\<close>

fun fail_all :: "'e \<Rightarrow> gotime list \<Rightarrow> breaker \<Rightarrow> bool list \<times> breaker" where
  "fail_all e [] b = ([], b)"
| "fail_all e (t # ts) b =
     (case Execute t t (Some e) b of
        (called, _, b') \<Rightarrow> (case fail_all e ts b' of (cs, b'') \<Rightarrow> (called # cs, b'')))"

lemma Execute_fail:
  assumes "consFailedCalls b < limit b" "expire_failures t b = b"
  shows "Execute t t (Some e) b = (True, Some (ErrCall e),
    b\<lparr>firstFailedTimestamp := (if consFailedCalls b = 0 then t else firstFailedTimestamp b),
      consFailedCalls := consFailedCalls b + 1,
      closedTimestamp := (if consFailedCalls b + 1 = limit b then t else closedTimestamp b)\<rparr>)"
  using assms by (cases b) (simp add: Execute_def beforef_def afterf_def Let_def)

lemma fail_all_step:
  assumes "0 < consFailedCalls b" "consFailedCalls b + int (length ts) = limit b"
    and "\<forall>t\<in>set ts. time_sub t (firstFailedTimestamp b) < failInterval b"
  shows "fail_all e ts b = (replicate (length ts) True,
    b\<lparr>consFailedCalls := limit b,
      closedTimestamp := (if ts = [] then closedTimestamp b else last ts)\<rparr>)"
  using assms
proof (induction ts arbitrary: b)
  case Nil
  then show ?case by (cases b) simp
next
  case (Cons t ts)
  define b1 where "b1 = b\<lparr>consFailedCalls := consFailedCalls b + 1,
    closedTimestamp := (if consFailedCalls b + 1 = limit b then t else closedTimestamp b)\<rparr>"
  have "expire_failures t b = b" using Cons.prems by (simp add: expire_failures_def)
  then have e: "Execute t t (Some e) b = (True, Some (ErrCall e), b1)"
    using Execute_fail [of b t e] Cons.prems by (cases b) (simp add: b1_def)
  have "fail_all e ts b1 = (replicate (length ts) True,
      b1\<lparr>consFailedCalls := limit b1, closedTimestamp := (if ts = [] then closedTimestamp b1 else last ts)\<rparr>)"
    using Cons.prems by (intro Cons.IH) (auto simp: b1_def)
  with e Cons.prems show ?case by (cases ts) (auto simp: b1_def)
qed

lemma fail_all_closed:
  assumes "breaker_inv b" "consFailedCalls b = 0" "int (length (t # ts)) = limit b"
    and "\<forall>t'\<in>set (t # ts). time_sub t' t < failInterval b" "zero_time < t"
  shows "fail_all e (t # ts) b = (replicate (length (t # ts)) True,
    b\<lparr>firstFailedTimestamp := t, consFailedCalls := limit b, closedTimestamp := last (t # ts)\<rparr>)"
proof -
  define b1 where "b1 = b\<lparr>firstFailedTimestamp := t, consFailedCalls := 1,
    closedTimestamp := (if 1 = limit b then t else closedTimestamp b)\<rparr>"
  have "expire_failures t b = b" "consFailedCalls b < limit b"
    using assms by (simp_all add: expire_failures_def breaker_inv_def)
  then have e: "Execute t t (Some e) b = (True, Some (ErrCall e), b1)"
    using Execute_fail [of b t e] assms(2) by (simp add: b1_def)
  have "fail_all e ts b1 = (replicate (length ts) True,
      b1\<lparr>consFailedCalls := limit b1, closedTimestamp := (if ts = [] then closedTimestamp b1 else last ts)\<rparr>)"
    using assms by (intro fail_all_step) (auto simp: b1_def)
  with e assms(3) show ?thesis by (cases ts) (auto simp: b1_def)
qed

section \<open>Properties\<close>

text \<open>
  C20. Over every interleaving of the critical sections of concurrent calls, with the clock
  past the zero time, the breaker keeps its invariant: a closed breaker has a time of
  closing, failures are counted from their first one, and the backoff stays positive, at
  most \<open>maxBackoff\<close>, and never decreases.
\<close>

theorem breaker_interleavings:
  assumes "breaker_inv b"
  shows "breaker_inv (fold breaker_app ops b) \<and> backoff b \<le> backoff (fold breaker_app ops b)"
  using brk.inv_run [OF assms] brk.val_run [OF assms] by blast

theorem breaker_interleavings_witness:
  "breaker_inv (NewBreaker \<lparr>oLimit = 1, oFailInterval = 0, oStartBackoff = 0, oMaxBackoff = 0\<rparr>) \<and>
   breaker_inv (fold breaker_app [After 5 6 (Some ()), After 7 7 (Some ()), Before 8 8, Before hour hour]
     (NewBreaker \<lparr>oLimit = 1, oFailInterval = 0, oStartBackoff = 0, oMaxBackoff = 0\<rparr>))"
proof -
  let ?b = "NewBreaker \<lparr>oLimit = 1, oFailInterval = 0, oStartBackoff = 0, oMaxBackoff = 0\<rparr>"
  have "breaker_inv ?b" by code_simp
  with breaker_interleavings [OF this, of "[After 5 6 (Some ()), After 7 7 (Some ()), Before 8 8, Before hour hour]"]
  show ?thesis by blast
qed

text \<open>
  C21. The breaker trips after \<open>limit\<close> consecutive failures inside the fail interval: all of
  them are executed, and from the last one on every call within the backoff is refused with
  \<open>ErrClosed\<close> without calling the function and without a change of state, while the first
  call after the backoff is executed and doubles the backoff up to \<open>maxBackoff\<close>.
\<close>

theorem breaker_trips:
  assumes "breaker_inv b" "consFailedCalls b = 0" "int (length (t # ts)) = limit b"
    and "\<forall>t'\<in>set (t # ts). time_sub t' t < failInterval b" "zero_time < t" "zero_time < last (t # ts)"
    and "fail_all e (t # ts) b = (called, b')"
  shows "list_all id called \<and> ClosedUntil now b' = last (t # ts) + backoff b \<and>
    (if time_sub now (last (t # ts)) < backoff b
     then Execute now now' err b' = (False, Some ErrClosed, b')
     else fst (Execute now now' err b') \<and>
       backoff (snd (snd (Execute now now' err b'))) = min (2 * backoff b) (maxBackoff b))"
proof -
  have b': "called = replicate (length (t # ts)) True"
    "b' = b\<lparr>firstFailedTimestamp := t, consFailedCalls := limit b, closedTimestamp := last (t # ts)\<rparr>"
    using fail_all_closed [OF assms(1-5), of e] assms(7) by simp_all
  have bo: "wrap64 (backoff b * 2) = backoff b * 2"
    using assms(1) by (intro wrap64_double) (simp_all add: breaker_inv_def)
  have "list_all id called" by (simp add: b' list_all_iff)
  moreover have "ClosedUntil now b' = last (t # ts) + backoff b"
    by (simp add: ClosedUntil_def b')
  moreover have "Execute now now' err b' = (False, Some ErrClosed, b')"
    if "time_sub now (last (t # ts)) < backoff b"
    using that by (simp add: Execute_def beforef_def b')
  moreover have "fst (Execute now now' err b') \<and>
       backoff (snd (snd (Execute now now' err b'))) = min (2 * backoff b) (maxBackoff b)"
    if "\<not> time_sub now (last (t # ts)) < backoff b"
    using that assms(6) bo
    by (simp add: Execute_def breaker_defs Let_def b' split: option.splits)
  ultimately show ?thesis by simp
qed

theorem breaker_trips_witness:
  "let b = NewBreaker \<lparr>oLimit = 2, oFailInterval = 0, oStartBackoff = 0, oMaxBackoff = 0\<rparr>;
       b' = snd (fail_all () [5, 9] b)
   in Execute 10 11 (None :: unit option) b' = (False, Some ErrClosed, b') \<and>
      fst (Execute (9 + 2 * minute) (9 + 2 * minute) (None :: unit option) b')"
proof -
  let ?b = "NewBreaker \<lparr>oLimit = 2, oFailInterval = 0, oStartBackoff = 0, oMaxBackoff = 0\<rparr>"
  let ?r = "fail_all () [5, 9] ?b"
  have h: "breaker_inv ?b" "consFailedCalls ?b = 0" "int (length [5 :: gotime, 9]) = limit ?b"
    "\<forall>t'\<in>set [5, 9]. time_sub t' 5 < failInterval ?b" "zero_time < 5" "zero_time < last [5, 9]"
    "time_sub 10 (last [5, 9]) < backoff ?b" "\<not> time_sub (9 + 2 * minute) (last [5, 9]) < backoff ?b"
    by code_simp+
  note tr = breaker_trips [OF h(1-6), of "()" "fst ?r" "snd ?r", OF prod.collapse [symmetric]]
  show ?thesis
    using tr [of 10 11 None] tr [of "9 + 2 * minute" "9 + 2 * minute" None] h(7,8)
    unfolding Let_def by (metis (full_types))
qed

end
