(* ===== verification/Blocker.thy ===== *)
theory Blocker
  imports Boson
begin

text \<open>
  Blocking of unresponsive peers (\<^verbatim>\<open>src/pkg/blocker/blocker.go\<close>) and the table of
  connection retries of the topology
  (\<^verbatim>\<open>src/pkg/topology/kademlia/internal/waitnext/waitnext.go\<close>). The blocker counts
  seconds of an available network in \<open>sequence\<close>; a flagged peer is put on the block list
  when it stays flagged for longer than the flag timeout. The goroutines of \<open>New\<close> are the
  operations \<open>Tick\<close> and \<open>Visit\<close>; the calls to the block list and to the callback are the
  output. The properties speak about every sequence of operations.
\<close>

section \<open>The blocker\<close>

datatype network_status = NetworkStatusUnknown | NetworkStatusAvailable | NetworkStatusUnavailable

record blocker_peer =
  blockAfter :: "64 word"
  address :: address

record blocker =
  sequence :: "64 word"
  flagTimeout :: duration
  blockDuration :: duration
  flagged :: "bytes \<rightharpoonup> blocker_peer"
  quit :: bool

definition sequencerResolution :: duration where
  "sequencerResolution = second"

definition Blocker_New :: "duration \<Rightarrow> duration \<Rightarrow> duration \<Rightarrow> blocker option" where
  "Blocker_New ft bd wakeUpTime =
     (if ft \<le> sequencerResolution then None
      else if wakeUpTime < sequencerResolution then None
      else Some \<lparr>sequence = 0, flagTimeout = ft, blockDuration = bd, flagged = Map.empty, quit = False\<rparr>)"

definition tick :: "network_status \<Rightarrow> blocker \<Rightarrow> blocker" where
  "tick st b =
     (if quit b then b
      else if st = NetworkStatusAvailable then b\<lparr>sequence := sequence b + 1\<rparr> else b)"

datatype blocker_event = Blocklist address duration | Callback address

text \<open>
  One iteration of \<open>block\<close>, for the key \<open>k\<close>. The sequencer may advance between two
  iterations. When \<open>quit\<close> is closed the loop returns; as it stays closed, that is the same as
  iterations without effect.
\<close>

definition block_visit :: "bool \<Rightarrow> bytes \<Rightarrow> blocker \<Rightarrow> blocker_event list \<times> blocker" where
  "block_visit cb k b =
     (if quit b then ([], b)
      else case flagged b k of
             None \<Rightarrow> ([], b)
           | Some p \<Rightarrow>
               if 0 < blockAfter p \<and> blockAfter p < sequence b then
                 (Blocklist (address p) (blockDuration b) # (if cb then [Callback (address p)] else []),
                  b\<lparr>flagged := (flagged b)(k := None)\<rparr>)
               else ([], b))"

text \<open>The whole loop, over the keys in an order \<open>ks\<close> that Go does not fix.\<close>

fun block :: "bool \<Rightarrow> bytes list \<Rightarrow> blocker \<Rightarrow> blocker_event list \<times> blocker" where
  "block cb [] b = ([], b)"
| "block cb (k # ks) b =
     (case block_visit cb k b of
        (ev, b1) \<Rightarrow> (case block cb ks b1 of (evs, b2) \<Rightarrow> (ev @ evs, b2)))"

definition timeout_ticks :: "blocker \<Rightarrow> 64 word" where
  "timeout_ticks b = word_of_int (tdiv (flagTimeout b) sequencerResolution)"

definition Flag :: "network_status \<Rightarrow> address \<Rightarrow> blocker \<Rightarrow> blocker" where
  "Flag st a b =
     (if st \<noteq> NetworkStatusAvailable then b
      else case flagged b (ByteString a) of
             Some _ \<Rightarrow> b
           | None \<Rightarrow>
               b\<lparr>flagged := (flagged b)(ByteString a \<mapsto>
                   \<lparr>blockAfter = sequence b + timeout_ticks b, address = a\<rparr>)\<rparr>)"

definition Unflag :: "address \<Rightarrow> blocker \<Rightarrow> blocker" where
  "Unflag a b = b\<lparr>flagged := (flagged b)(ByteString a := None)\<rparr>"

fun isSeen :: "address list \<Rightarrow> bytes \<Rightarrow> bool" where
  "isSeen [] k = False"
| "isSeen (a # as) k = (if ByteString a = k then True else isSeen as k)"

definition PruneUnseen :: "address list \<Rightarrow> blocker \<Rightarrow> blocker" where
  "PruneUnseen seen b =
     b\<lparr>flagged := (\<lambda>k. if \<not> isSeen seen k then None else flagged b k)\<rparr>"

definition Blocker_Close :: "blocker \<Rightarrow> blocker" where
  "Blocker_Close b = b\<lparr>quit := True\<rparr>"

section \<open>The retry table\<close>

record next_try =
  tryAfter :: gotime
  failedAttempts :: int

type_synonym waitnext = "bytes \<rightharpoonup> next_try"

definition WaitNext_New :: waitnext where
  "WaitNext_New = Map.empty"

definition WaitNext_Set :: "address \<Rightarrow> gotime \<Rightarrow> int \<Rightarrow> waitnext \<Rightarrow> waitnext" where
  "WaitNext_Set a t n r = r(ByteString a \<mapsto> \<lparr>tryAfter = t, failedAttempts = n\<rparr>)"

definition WaitNext_SetTryAfter :: "address \<Rightarrow> gotime \<Rightarrow> waitnext \<Rightarrow> waitnext" where
  "WaitNext_SetTryAfter a t r =
     (case r (ByteString a) of
        Some info \<Rightarrow> r(ByteString a \<mapsto> info\<lparr>tryAfter := t\<rparr>)
      | None \<Rightarrow> r(ByteString a \<mapsto> \<lparr>tryAfter = t, failedAttempts = 0\<rparr>))"

definition Waiting :: "gotime \<Rightarrow> address \<Rightarrow> waitnext \<Rightarrow> bool" where
  "Waiting now a r = (case r (ByteString a) of None \<Rightarrow> False | Some info \<Rightarrow> now < tryAfter info)"

definition Attempts :: "address \<Rightarrow> waitnext \<Rightarrow> int" where
  "Attempts a r = (case r (ByteString a) of Some info \<Rightarrow> failedAttempts info | None \<Rightarrow> 0)"

definition WaitNext_Remove :: "address \<Rightarrow> waitnext \<Rightarrow> waitnext" where
  "WaitNext_Remove a r = r(ByteString a := None)"

section \<open>Runs of the blocker\<close>

datatype blocker_op =
    Tick network_status
  | Visit bool bytes
  | DoFlag network_status address
  | DoUnflag address
  | DoPrune "address list"
  | DoClose

fun blocker_step :: "blocker_op \<Rightarrow> blocker \<Rightarrow> blocker_event list \<times> blocker" where
  "blocker_step (Tick st) b = ([], tick st b)"
| "blocker_step (Visit cb k) b = block_visit cb k b"
| "blocker_step (DoFlag st a) b = ([], Flag st a b)"
| "blocker_step (DoUnflag a) b = ([], Unflag a b)"
| "blocker_step (DoPrune seen) b = ([], PruneUnseen seen b)"
| "blocker_step DoClose b = ([], Blocker_Close b)"

definition blocker_run :: "blocker_op list \<Rightarrow> blocker \<Rightarrow> blocker" where
  "blocker_run ops b = fold (\<lambda>x b. snd (blocker_step x b)) ops b"

text \<open>The operations that take a peer's flag away.\<close>

fun clears :: "address \<Rightarrow> blocker_op \<Rightarrow> bool" where
  "clears a (DoUnflag a') = (a' = a)"
| "clears a (DoPrune seen) = (a \<notin> set seen)"
| "clears a _ = False"

lemma isSeen_iff: "isSeen seen (ByteString a) \<longleftrightarrow> a \<in> set seen"
  by (induction seen) auto

lemma blocker_run_snoc: "blocker_run (ops @ [x]) b = snd (blocker_step x (blocker_run ops b))"
  by (simp add: blocker_run_def)

lemma block_as_visits: "snd (block cb ks b) = blocker_run (map (Visit cb) ks) b"
proof (induction ks arbitrary: b)
  case (Cons k ks)
  obtain ev b1 where "block_visit cb k b = (ev, b1)" by fastforce
  then show ?case using Cons [of b1] by (simp add: blocker_run_def case_prod_unfold)
qed (simp add: blocker_run_def)

lemmas blocker_op_defs = tick_def Flag_def Unflag_def PruneUnseen_def Blocker_Close_def block_visit_def

lemma blocker_step_const:
  "flagTimeout (snd (blocker_step x b)) = flagTimeout b \<and> blockDuration (snd (blocker_step x b)) = blockDuration b"
  by (cases x) (auto simp: blocker_op_defs split: option.splits)

lemma blocker_run_const:
  "flagTimeout (blocker_run ops b) = flagTimeout b \<and> blockDuration (blocker_run ops b) = blockDuration b"
  by (induction ops rule: rev_induct) (simp_all add: blocker_run_snoc blocker_step_const, simp add: blocker_run_def)

lemma blocker_step_flagged:
  assumes "flagged (snd (blocker_step x b)) k = Some p"
  shows "(flagged b k = Some p \<and> (ByteString (address p) = k \<longrightarrow> \<not> clears (address p) x)) \<or>
    (x = DoFlag NetworkStatusAvailable (address p) \<and> k = ByteString (address p) \<and>
     blockAfter p = sequence b + timeout_ticks b)"
  using assms
  by (cases x) (auto simp: blocker_op_defs isSeen_iff split: option.splits if_splits)

lemma flagged_history:
  assumes "flagged b0 = Map.empty" "flagged (blocker_run ops b0) k = Some p"
  shows "k = ByteString (address p) \<and>
    (\<exists>pre post. ops = pre @ DoFlag NetworkStatusAvailable (address p) # post \<and>
       (\<forall>y\<in>set post. \<not> clears (address p) y) \<and>
       blockAfter p = sequence (blocker_run pre b0) + timeout_ticks b0)"
  using assms(2)
proof (induction ops arbitrary: k p rule: rev_induct)
  case Nil
  then show ?case using assms(1) by (simp add: blocker_run_def)
next
  case (snoc x ops)
  let ?b = "blocker_run ops b0"
  from snoc.prems consider
      (kept) "flagged ?b k = Some p" "ByteString (address p) = k \<longrightarrow> \<not> clears (address p) x"
    | (new) "x = DoFlag NetworkStatusAvailable (address p)" "k = ByteString (address p)"
        "blockAfter p = sequence ?b + timeout_ticks ?b"
    using blocker_step_flagged [of x ?b k p] by (auto simp: blocker_run_snoc)
  then show ?case
  proof cases
    case kept
    then obtain pre post where "k = ByteString (address p)"
      "ops = pre @ DoFlag NetworkStatusAvailable (address p) # post"
      "\<forall>y\<in>set post. \<not> clears (address p) y" "blockAfter p = sequence (blocker_run pre b0) + timeout_ticks b0"
      using snoc.IH by blast
    with kept(2) show ?thesis
      by (intro conjI exI [of _ pre] exI [of _ "post @ [x]"]) auto
  next
    case new
    then show ?thesis
      using blocker_run_const [of ops b0]
      by (intro conjI exI [of _ ops] exI [of _ "[]"]) (auto simp: timeout_ticks_def)
  qed
qed

text \<open>Seconds of an available network in a sequence of operations.\<close>

definition available_ticks :: "blocker_op list \<Rightarrow> nat" where
  "available_ticks ops = length (filter (\<lambda>x. x = Tick NetworkStatusAvailable) ops)"

text \<open>The operations that leave the flag of \<open>a\<close> and the blocker's goroutines alone.\<close>

definition undisturbed :: "address \<Rightarrow> blocker_op \<Rightarrow> bool" where
  "undisturbed a x \<longleftrightarrow> \<not> clears a x \<and> x \<noteq> DoClose \<and> (\<forall>cb. x \<noteq> Visit cb (ByteString a))"

lemma undisturbed_run:
  assumes "\<forall>x\<in>set ops. undisturbed a x" "\<not> quit b" "flagged b (ByteString a) = Some p"
  shows "\<not> quit (blocker_run ops b) \<and> flagged (blocker_run ops b) (ByteString a) = Some p \<and>
    sequence (blocker_run ops b) = sequence b + of_nat (available_ticks ops)"
  using assms
proof (induction ops rule: rev_induct)
  case Nil
  then show ?case by (simp add: blocker_run_def available_ticks_def)
next
  case (snoc x ops)
  then show ?case
    by (cases x)
      (auto simp: blocker_run_snoc available_ticks_def undisturbed_def blocker_op_defs isSeen_iff
        split: option.splits)
qed

lemma sequence_less_iff:
  assumes "unat s + m < 2 ^ 64" "unat s + n < 2 ^ 64"
  shows "s + of_nat m < s + of_nat n \<longleftrightarrow> m < n" "0 < m \<Longrightarrow> 0 < s + (of_nat m :: 64 word)"
proof -
  have "unat (s + of_nat m) = unat s + m" "unat (s + of_nat n) = unat s + n"
    using assms by (simp_all add: unat_word_ariths unat_of_nat)
  then show "s + of_nat m < s + of_nat n \<longleftrightarrow> m < n" "0 < m \<Longrightarrow> 0 < s + (of_nat m :: 64 word)"
    by (simp_all add: word_less_nat_alt)
qed

section \<open>Properties\<close>

text \<open>
  C22. Only a persistently flagged peer is blocked: in every run from a new blocker, a call of
  \<open>Blocklist\<close> for a peer is preceded by a \<open>Flag\<close> of that peer on an available network with
  no \<open>Unflag\<close> and no pruning of it since, and the sequencer has moved strictly past the value
  it had at that \<open>Flag\<close> plus the flag timeout.
\<close>

theorem blocklist_only_after_timeout:
  assumes "Blocker_New ft bd wakeUpTime = Some b0"
    and "blocker_step x (blocker_run ops b0) = (evs, b')" and "Blocklist a d \<in> set evs"
  shows "d = bd \<and> (\<exists>pre post. ops = pre @ DoFlag NetworkStatusAvailable a # post \<and>
    (\<forall>y\<in>set post. \<not> clears a y) \<and>
    sequence (blocker_run pre b0) + timeout_ticks b0 < sequence (blocker_run ops b0))"
proof -
  let ?b = "blocker_run ops b0"
  have b0: "flagged b0 = Map.empty" "blockDuration b0 = bd"
    using assms(1) by (auto simp: Blocker_New_def split: if_splits)
  obtain cb k where x: "x = Visit cb k"
    using assms(2,3) by (cases x) auto
  then obtain p where p: "flagged ?b k = Some p" "blockAfter p < sequence ?b" "address p = a" "d = blockDuration ?b"
    using assms(2,3) by (auto simp: block_visit_def split: option.splits if_splits)
  with flagged_history [OF b0(1) p(1)] blocker_run_const [of ops b0] b0 show ?thesis by fastforce
qed

theorem blocklist_only_after_timeout_witness:
  "\<exists>b0 evs b'. Blocker_New (2 * second) hour second = Some b0 \<and>
     blocker_step (Visit True [7]) (blocker_run (DoFlag NetworkStatusAvailable (Address [7]) #
       replicate 3 (Tick NetworkStatusAvailable)) b0) = (evs, b') \<and>
     sequence (blocker_run [] b0) + timeout_ticks b0 < 3"
proof -
  let ?b0 = "\<lparr>sequence = 0, flagTimeout = 2 * second, blockDuration = hour, flagged = Map.empty, quit = False\<rparr>"
  let ?ops = "DoFlag NetworkStatusAvailable (Address [7]) # replicate 3 (Tick NetworkStatusAvailable)"
  let ?r = "blocker_step (Visit True [7]) (blocker_run ?ops ?b0)"
  have n: "Blocker_New (2 * second) hour second = Some ?b0"
    by (simp add: Blocker_New_def sequencerResolution_def go_durations)
  have "Blocklist (Address [7]) hour \<in> set (fst ?r)" by code_simp
  with blocklist_only_after_timeout [OF n, of "Visit True [7]" ?ops "fst ?r" "snd ?r" "Address [7]" hour]
  have "\<exists>pre post. ?ops = pre @ DoFlag NetworkStatusAvailable (Address [7]) # post \<and>
      sequence (blocker_run pre ?b0) + timeout_ticks ?b0 < sequence (blocker_run ?ops ?b0)" by auto
  then have "sequence (blocker_run [] ?b0) + timeout_ticks ?b0 < sequence (blocker_run ?ops ?b0)"
    by (auto simp: Cons_eq_append_conv numeral_3_eq_3)
  moreover have "sequence (blocker_run ?ops ?b0) = 3" by code_simp
  ultimately show ?thesis using n by (metis prod.collapse)
qed

text \<open>
  C23. A flagged peer that stays unresponsive is blocked, and not too early: after a \<open>Flag\<close> of
  a peer that was not flagged, and operations that neither clear its flag nor stop the
  blocker nor visit it, the next visit of \<open>block\<close> puts it on the block list exactly when the
  network was available for more seconds than the flag timeout, as long as the 64-bit
  sequencer does not overflow; otherwise the visit changes nothing.
\<close>

theorem flagged_peer_is_blocked:
  assumes "\<not> quit b" "flagged b (ByteString a) = None" "second < flagTimeout b"
    and "\<forall>x\<in>set ops. undisturbed a x"
    and "unat (sequence b) + available_ticks ops < 2 ^ 64"
    and "unat (sequence b) + nat (flagTimeout b div second) < 2 ^ 64"
  defines "b' \<equiv> blocker_run ops (Flag NetworkStatusAvailable a b)"
  shows "block_visit cb (ByteString a) b' =
    (if flagTimeout b div second < int (available_ticks ops)
     then (Blocklist a (blockDuration b) # (if cb then [Callback a] else []),
           b'\<lparr>flagged := (flagged b')(ByteString a := None)\<rparr>)
     else ([], b'))"
proof -
  define m where "m = nat (flagTimeout b div second)"
  have m: "flagTimeout b div second = int m" "0 < m"
    using assms(3) by (auto simp: m_def go_durations pos_imp_zdiv_pos_iff)
  let ?p = "\<lparr>blockAfter = sequence b + timeout_ticks b, address = a\<rparr>"
  have tt: "timeout_ticks b = of_nat m"
    using assms(3) m by (simp add: timeout_ticks_def sequencerResolution_def tdiv_nonneg go_durations)
  have "\<not> quit b' \<and> flagged b' (ByteString a) = Some ?p \<and> sequence b' = sequence b + of_nat (available_ticks ops)"
    unfolding b'_def using undisturbed_run [OF assms(4), of "Flag NetworkStatusAvailable a b" ?p] assms(1,2)
    by (simp add: Flag_def)
  moreover have "blockDuration b' = blockDuration b"
    using blocker_run_const assms(2) by (simp add: b'_def Flag_def)
  moreover have "0 < sequence b + of_nat m" "sequence b + of_nat m < sequence b + of_nat (available_ticks ops)
      \<longleftrightarrow> m < available_ticks ops"
    using sequence_less_iff [of "sequence b" m "available_ticks ops"] assms(5,6) m by simp_all
  ultimately show ?thesis by (simp add: block_visit_def tt m)
qed

theorem flagged_peer_is_blocked_witness:
  "\<exists>b. Blocker_New (2 * second) hour second = Some b \<and>
     fst (block_visit False [7] (blocker_run (replicate 3 (Tick NetworkStatusAvailable))
       (Flag NetworkStatusAvailable (Address [7]) b))) = [Blocklist (Address [7]) hour]"
proof -
  let ?b = "\<lparr>sequence = 0, flagTimeout = 2 * second, blockDuration = hour, flagged = Map.empty, quit = False\<rparr>"
  have "\<not> quit ?b" "flagged ?b (ByteString (Address [7])) = None" "second < flagTimeout ?b"
    "\<forall>x\<in>set (replicate 3 (Tick NetworkStatusAvailable)). undisturbed (Address [7]) x"
    "unat (sequence ?b) + available_ticks (replicate 3 (Tick NetworkStatusAvailable)) < 2 ^ 64"
    "unat (sequence ?b) + nat (flagTimeout ?b div second) < 2 ^ 64"
    by (simp_all add: go_durations undisturbed_def available_ticks_def)
  from flagged_peer_is_blocked [OF this, of False] show ?thesis
    by (simp add: Blocker_New_def sequencerResolution_def go_durations ByteString_def available_ticks_def)
qed

end
