(* ===== verification/Statestore.thy ===== *)
theory Statestore
  imports Prelude "HOL-Library.Sublist"
begin

text \<open>
  The key-value store that the components persist their state in: the interface
  \<open>StateStorer\<close> (\<^verbatim>\<open>src/pkg/storage/store.go\<close>) as a record of operations, its contract
  as the locale \<open>state_storer\<close>, in which every operation may also fail, and the map-based
  store of \<^verbatim>\<open>src/pkg/statestore/mock/store.go\<close> as an interpretation. A stored value
  stands for its JSON or binary encoding, which decodes to the value that was encoded.
\<close>

section \<open>The interface\<close>

datatype store_error = ErrNotFound | ErrStore

record ('s, 'v) storer =
  st_Get :: "'s \<Rightarrow> string \<Rightarrow> store_error + 'v"
  st_Put :: "'s \<Rightarrow> string \<Rightarrow> 'v \<Rightarrow> store_error option \<times> 's"
  st_Delete :: "'s \<Rightarrow> string \<Rightarrow> store_error option \<times> 's"
  st_entries :: "'s \<Rightarrow> string \<Rightarrow> (string \<times> 'v) list"

text \<open>
  \<open>st_entries s p\<close> are the entries that \<open>Iterate\<close> passes to its callback, in its order;
  \<open>iterate\<close> is the loop over them, with a callback that returns \<open>stop\<close> and an error.
\<close>

fun iterate :: "(string \<Rightarrow> 'v \<Rightarrow> 'a \<Rightarrow> (bool \<times> 'e option) \<times> 'a) \<Rightarrow> (string \<times> 'v) list \<Rightarrow> 'a \<Rightarrow> 'e option \<times> 'a" where
  "iterate f [] a = (None, a)"
| "iterate f ((k, v) # es) a =
     (case f k v a of
        ((stop, err), a') \<Rightarrow>
          (case err of
             Some e \<Rightarrow> (Some e, a')
           | None \<Rightarrow> if stop then (None, a') else iterate f es a'))"

locale state_storer =
  fixes ops :: "('s, 'v) storer"
    and inv :: "'s \<Rightarrow> bool"
    and abs :: "'s \<Rightarrow> string \<rightharpoonup> 'v"
  assumes Get: "inv s \<Longrightarrow> st_Get ops s k \<noteq> Inl ErrStore \<Longrightarrow>
      st_Get ops s k = (case abs s k of None \<Rightarrow> Inl ErrNotFound | Some v \<Rightarrow> Inr v)"
    and Put: "inv s \<Longrightarrow> st_Put ops s k v = (e, s') \<Longrightarrow>
      inv s' \<and> abs s' = (if e = None then (abs s)(k \<mapsto> v) else abs s)"
    and Delete: "inv s \<Longrightarrow> st_Delete ops s k = (e, s') \<Longrightarrow>
      inv s' \<and> abs s' = (if e = None then (abs s)(k := None) else abs s)"
    and entries: "inv s \<Longrightarrow> distinct (map fst (st_entries ops s p)) \<and>
      set (st_entries ops s p) = {(k, v). abs s k = Some v \<and> prefix p k}"
begin

lemma Get_Inr: "inv s \<Longrightarrow> st_Get ops s k = Inr v \<Longrightarrow> abs s k = Some v"
  using Get [of s k] by (auto split: option.splits)

lemma Get_NotFound: "inv s \<Longrightarrow> st_Get ops s k = Inl ErrNotFound \<Longrightarrow> abs s k = None"
  using Get [of s k] by (auto split: option.splits)

lemma Get_after_Put:
  "inv s \<Longrightarrow> st_Put ops s k v = (None, s') \<Longrightarrow> st_Get ops s' k \<noteq> Inl ErrStore \<Longrightarrow> st_Get ops s' k = Inr v"
  using Put [of s k v None s'] Get [of s' k] by simp

end

section \<open>The map-based store\<close>

type_synonym 'v mockstore = "(string \<times> 'v) list"

definition mockSchemaNameKey :: string where
  "mockSchemaNameKey = ''schema_name''"

definition mock_Get :: "'v mockstore \<Rightarrow> string \<Rightarrow> store_error + 'v" where
  "mock_Get s k = (case map_of s k of None \<Rightarrow> Inl ErrNotFound | Some d \<Rightarrow> Inr d)"

definition mock_Put :: "'v mockstore \<Rightarrow> string \<Rightarrow> 'v \<Rightarrow> store_error option \<times> 'v mockstore" where
  "mock_Put s k v = (None, AList.update k v s)"

definition mock_Delete :: "'v mockstore \<Rightarrow> string \<Rightarrow> store_error option \<times> 'v mockstore" where
  "mock_Delete s k = (None, AList.delete k s)"

definition NewStateStore :: "'v \<Rightarrow> 'v mockstore" where
  "NewStateStore schema = snd (mock_Put [] mockSchemaNameKey schema)"

definition mock_entries :: "'v mockstore \<Rightarrow> string \<Rightarrow> (string \<times> 'v) list" where
  "mock_entries s p = filter (\<lambda>(k, v). prefix p k) s"

definition mock_store :: "('v mockstore, 'v) storer" where
  "mock_store = \<lparr>st_Get = mock_Get, st_Put = mock_Put, st_Delete = mock_Delete, st_entries = mock_entries\<rparr>"

definition mock_inv :: "'v mockstore \<Rightarrow> bool" where
  "mock_inv s \<longleftrightarrow> distinct (map fst s)"

lemma mock_entries_set:
  "mock_inv s \<Longrightarrow> distinct (map fst (mock_entries s p)) \<and>
     set (mock_entries s p) = {(k, v). map_of s k = Some v \<and> prefix p k}"
  by (auto simp: mock_inv_def mock_entries_def distinct_map_filter intro: map_of_is_SomeI dest: map_of_SomeD)

interpretation mock: state_storer mock_store mock_inv map_of
proof
  fix s :: "'v mockstore" and k v e s' p
  show "st_Get mock_store s k = (case map_of s k of None \<Rightarrow> Inl ErrNotFound | Some v \<Rightarrow> Inr v)"
    by (simp add: mock_store_def mock_Get_def)
  assume inv: "mock_inv s"
  show "st_Put mock_store s k v = (e, s') \<Longrightarrow>
      mock_inv s' \<and> map_of s' = (if e = None then (map_of s)(k \<mapsto> v) else map_of s)"
    using inv by (auto simp: mock_store_def mock_Put_def mock_inv_def gomap)
  show "st_Delete mock_store s k = (e, s') \<Longrightarrow>
      mock_inv s' \<and> map_of s' = (if e = None then (map_of s)(k := None) else map_of s)"
    using inv by (auto simp: mock_store_def mock_Delete_def mock_inv_def gomap)
  show "distinct (map fst (st_entries mock_store s p)) \<and>
      set (st_entries mock_store s p) = {(k, v). map_of s k = Some v \<and> prefix p k}"
    using mock_entries_set [OF inv] by (simp add: mock_store_def)
qed

end
