(* ===== verification/Blocklist.thy ===== *)
theory Blocklist
  imports Boson Statestore
begin

text \<open>
  The persistent list of blocked peers
  (\<^verbatim>\<open>src/pkg/p2p/libp2p/internal/blocklist/blocklist.go\<close>), over the state store
  interface. The duration of an entry is stored as the string that \<open>Duration.String\<close>
  prints; the model keeps the duration it parses back to, \<open>None\<close> for a string that does not
  parse. A duration of 0 blocks for ever. The client lemmas hold for every store that meets
  the contract \<open>state_storer\<close>; the properties are their instances for the map-based store.
\<close>

section \<open>Model\<close>

definition keyPrefix :: string where
  "keyPrefix = ''blocklist-''"

record entry =
  Timestamp :: gotime
  Duration :: "duration option"

datatype blocklist_error = StoreError store_error | ErrParseDuration | ErrHexKey hex_error

definition generateKey :: "address \<Rightarrow> string" where
  "generateKey overlay = keyPrefix @ String overlay"

definition unmarshalKey :: "string \<Rightarrow> blocklist_error + address" where
  "unmarshalKey s =
     (case ParseHexAddress (if prefix keyPrefix s then drop (length keyPrefix) s else s) of
        Inl e \<Rightarrow> Inl (ErrHexKey e) | Inr a \<Rightarrow> Inr a)"

definition blocklist_get ::
  "('s, entry) storer \<Rightarrow> 's \<Rightarrow> string \<Rightarrow> gotime \<times> duration \<times> blocklist_error option" where
  "blocklist_get ops s key =
     (case st_Get ops s key of
        Inl e \<Rightarrow> (zero_time, - 1, Some (StoreError e))
      | Inr e \<Rightarrow>
          (case Duration e of
             None \<Rightarrow> (zero_time, - 1, Some ErrParseDuration)
           | Some d \<Rightarrow> (Timestamp e, d, None)))"

definition Blocklist_Exists ::
  "('s, entry) storer \<Rightarrow> gotime \<Rightarrow> address \<Rightarrow> 's \<Rightarrow> (blocklist_error + bool) \<times> 's" where
  "Blocklist_Exists ops now overlay s =
     (let key = generateKey overlay in
      case blocklist_get ops s key of
        (timestamp, dur, Some err) \<Rightarrow>
          (if err = StoreError ErrNotFound then (Inr False, s) else (Inl err, s))
      | (timestamp, dur, None) \<Rightarrow>
          (if time_sub now timestamp > dur \<and> dur \<noteq> 0
           then (Inr False, snd (st_Delete ops s key)) else (Inr True, s)))"

definition Blocklist_Remove ::
  "('s, entry) storer \<Rightarrow> address \<Rightarrow> 's \<Rightarrow> store_error option \<times> 's" where
  "Blocklist_Remove ops overlay s = st_Delete ops s (generateKey overlay)"

definition Blocklist_Add ::
  "('s, entry) storer \<Rightarrow> gotime \<Rightarrow> address \<Rightarrow> duration \<Rightarrow> 's \<Rightarrow> blocklist_error option \<times> 's" where
  "Blocklist_Add ops now overlay dur s =
     (let key = generateKey overlay in
      case blocklist_get ops s key of
        (_, d, err) \<Rightarrow>
          if err \<noteq> None \<and> err \<noteq> Some (StoreError ErrNotFound) then (err, s)
          else
            (let dur' = (if dur < d \<and> dur \<noteq> 0 \<or> d = 0 then d else dur) in
             case st_Put ops s key \<lparr>Timestamp = now, Duration = Some dur'\<rparr> of
               (e, s') \<Rightarrow> (map_option StoreError e, s')))"

text \<open>The callback of \<open>Peers\<close>; a listed peer keeps the time and the duration themselves.\<close>

record block_peer =
  bpAddress :: address
  bpTimestamp :: gotime
  bpDuration :: duration

definition peers_callback ::
  "('s, entry) storer \<Rightarrow> gotime \<Rightarrow> 's \<Rightarrow> string \<Rightarrow> entry \<Rightarrow> block_peer list \<Rightarrow>
     (bool \<times> blocklist_error option) \<times> block_peer list" where
  "peers_callback ops now s k v acc =
     (if \<not> prefix keyPrefix k then ((True, None), acc)
      else case unmarshalKey k of
             Inl e \<Rightarrow> ((True, Some e), acc)
           | Inr a \<Rightarrow>
               (case blocklist_get ops s k of
                  (t, d, Some e) \<Rightarrow> ((True, Some e), acc)
                | (t, d, None) \<Rightarrow>
                    (if time_sub now t > d \<and> d \<noteq> 0 then ((False, None), acc)
                     else ((False, None),
                       acc @ [\<lparr>bpAddress = a, bpTimestamp = t, bpDuration = d\<rparr>]))))"

definition Blocklist_Peers ::
  "('s, entry) storer \<Rightarrow> gotime \<Rightarrow> 's \<Rightarrow> blocklist_error + block_peer list" where
  "Blocklist_Peers ops now s =
     (case iterate (peers_callback ops now s) (st_entries ops s keyPrefix) [] of
        (Some e, _) \<Rightarrow> Inl e
      | (None, ps) \<Rightarrow> Inr ps)"

section \<open>Specification\<close>

text \<open>An entry blocks at a time; a longer of two durations, where 0 is for ever.\<close>

definition entry_blocks :: "gotime \<Rightarrow> gotime \<Rightarrow> duration \<Rightarrow> bool" where
  "entry_blocks now t d \<longleftrightarrow> d = 0 \<or> time_sub now t \<le> d"

definition blocked :: "(string \<rightharpoonup> entry) \<Rightarrow> gotime \<Rightarrow> address \<Rightarrow> bool" where
  "blocked m now a \<longleftrightarrow>
     (\<exists>t d. m (generateKey a) = Some \<lparr>Timestamp = t, Duration = Some d\<rparr> \<and> entry_blocks now t d)"

definition longer :: "duration \<Rightarrow> duration \<Rightarrow> duration" where
  "longer d d' = (if d = 0 \<or> d' = 0 then 0 else max d d')"

text \<open>The duration that \<open>Add\<close> stores for a peer: the longer of the new and the stored one.\<close>

definition added_duration :: "(string \<rightharpoonup> entry) \<Rightarrow> address \<Rightarrow> duration \<Rightarrow> duration" where
  "added_duration m a dur =
     (case Option.bind (m (generateKey a)) Duration of
        Some d \<Rightarrow> if d < 0 then dur else longer dur d
      | None \<Rightarrow> dur)"

text \<open>Every key of the block list is that of an address and every duration is not negative.\<close>

definition blocklist_wf :: "(string \<rightharpoonup> entry) \<Rightarrow> bool" where
  "blocklist_wf m \<longleftrightarrow> (\<forall>k e. prefix keyPrefix k \<longrightarrow> m k = Some e \<longrightarrow>
     k \<in> range generateKey \<and> (\<exists>d\<ge>0. Duration e = Some d))"

lemma generateKey_inject [simp]: "generateKey a = generateKey b \<longleftrightarrow> a = b"
  by (simp add: generateKey_def)

lemma prefix_generateKey [simp]: "prefix keyPrefix (generateKey a)"
  by (simp add: generateKey_def)

lemma unmarshal_generateKey [simp]: "unmarshalKey (generateKey a) = Inr a"
  by (simp add: unmarshalKey_def) (simp add: generateKey_def)

lemma blocklist_wfD:
  "blocklist_wf m \<Longrightarrow> prefix keyPrefix k \<Longrightarrow> m k = Some e \<Longrightarrow>
     \<exists>a d. k = generateKey a \<and> Duration e = Some d \<and> 0 \<le> d"
  unfolding blocklist_wf_def by blast

locale blocklist_store = state_storer ops inv abs
  for ops :: "('s, entry) storer" and inv :: "'s \<Rightarrow> bool" and abs :: "'s \<Rightarrow> string \<rightharpoonup> entry"
begin

lemma get_ok:
  assumes "inv s" "blocklist_get ops s k = (t, d, None)"
  shows "abs s k = Some \<lparr>Timestamp = t, Duration = Some d\<rparr>"
  using assms Get_Inr [of s k]
  by (auto simp: blocklist_get_def split: sum.splits option.splits)

lemma get_missing:
  assumes "inv s" "blocklist_get ops s k = (t, d, Some (StoreError ErrNotFound))"
  shows "abs s k = None \<and> d = - 1"
  using assms Get_NotFound [of s k]
  by (auto simp: blocklist_get_def split: sum.splits option.splits)

lemma get_found:
  assumes "inv s" "st_Get ops s k \<noteq> Inl ErrStore" "abs s k = Some \<lparr>Timestamp = t, Duration = Some d\<rparr>"
  shows "blocklist_get ops s k = (t, d, None)"
  using assms Get [of s k] by (simp add: blocklist_get_def)

lemma Exists_blocked:
  assumes "inv s" "Blocklist_Exists ops now a s = (Inr r, s')"
  shows "r = blocked (abs s) now a \<and> inv s' \<and> (\<forall>now' a'. now \<le> now' \<longrightarrow> blocked (abs s') now' a' = blocked (abs s) now' a')"
proof -
  obtain t d err where g: "blocklist_get ops s (generateKey a) = (t, d, err)"
    by (metis prod_cases3)
  show ?thesis
  proof (cases err)
    case (Some e)
    then show ?thesis
      using assms g get_missing [OF assms(1), of "generateKey a" t d]
      by (auto simp: Blocklist_Exists_def blocked_def split: if_splits)
  next
    case None
    then have m: "abs s (generateKey a) = Some \<lparr>Timestamp = t, Duration = Some d\<rparr>"
      using g get_ok [OF assms(1)] by simp
    show ?thesis
    proof (cases "time_sub now t > d \<and> d \<noteq> 0")
      case True
      obtain e1 s1 where del: "st_Delete ops s (generateKey a) = (e1, s1)" by fastforce
      have "\<not> blocked (abs s) now' a" if "now \<le> now'" for now'
        using True m time_sub_mono [OF that, of t] by (auto simp: blocked_def entry_blocks_def)
      with True show ?thesis
        using assms g None m del Delete [OF assms(1) del]
        by (auto simp: Blocklist_Exists_def blocked_def entry_blocks_def split: if_splits)
    next
      case False
      then show ?thesis
        using assms g None m by (auto simp: Blocklist_Exists_def blocked_def entry_blocks_def)
    qed
  qed
qed

lemma Add_longer:
  assumes "inv s" "Blocklist_Add ops now a dur s = (None, s')" "0 \<le> dur"
  shows "inv s' \<and> abs s' = (abs s)(generateKey a \<mapsto> \<lparr>Timestamp = now, Duration = Some (added_duration (abs s) a dur)\<rparr>)"
proof -
  obtain t d err where g: "blocklist_get ops s (generateKey a) = (t, d, err)"
    by (metis prod_cases3)
  have d: "err = None \<or> err = Some (StoreError ErrNotFound)"
    using assms(2) g by (auto simp: Blocklist_Add_def split: if_splits)
  then have "(if dur < d \<and> dur \<noteq> 0 \<or> d = 0 then d else dur) = added_duration (abs s) a dur"
    using get_ok [OF assms(1), of "generateKey a" t d] get_missing [OF assms(1), of "generateKey a" t d] g assms(3)
    by (auto simp: added_duration_def longer_def)
  moreover obtain e s1 where p: "st_Put ops s (generateKey a)
      \<lparr>Timestamp = now, Duration = Some (if dur < d \<and> dur \<noteq> 0 \<or> d = 0 then d else dur)\<rparr> = (e, s1)"
    by fastforce
  moreover have "e = None" "s1 = s'"
    using assms(2) g d p by (auto simp: Blocklist_Add_def Let_def)
  ultimately show ?thesis using Put [OF assms(1) p] by simp
qed

lemma Add_blocked:
  assumes "inv s" "Blocklist_Add ops now a dur s = (None, s')" "0 \<le> dur"
  shows "blocked (abs s') now' a' = (if a' = a then entry_blocks now' now (added_duration (abs s) a dur)
    else blocked (abs s) now' a')"
  using Add_longer [OF assms] by (auto simp: blocked_def)

lemma Add_wf:
  assumes "inv s" "Blocklist_Add ops now a dur s = (None, s')" "0 \<le> dur" "blocklist_wf (abs s)"
  shows "blocklist_wf (abs s')"
proof -
  have "0 \<le> added_duration (abs s) a dur"
    using assms(3) by (auto simp: added_duration_def longer_def split: option.splits)
  then show ?thesis
    using Add_longer [OF assms(1-3)] assms(4) by (auto simp: blocklist_wf_def)
qed

lemma Peers_iterate:
  assumes "inv s" "\<And>k. st_Get ops s k \<noteq> Inl ErrStore" "blocklist_wf (abs s)"
    and "\<And>k v. (k, v) \<in> set es \<Longrightarrow> prefix keyPrefix k \<and> abs s k = Some v"
  shows "\<exists>ps. iterate (peers_callback ops now s) es acc = (None, acc @ ps) \<and>
    bpAddress ` set ps = {a. generateKey a \<in> fst ` set es \<and> blocked (abs s) now a} \<and>
    (distinct (map fst es) \<longrightarrow> distinct (map bpAddress ps))"
  using assms(4)
proof (induction es arbitrary: acc)
  case (Cons kv es)
  obtain k v where kv: "kv = (k, v)" by fastforce
  obtain a d where k: "k = generateKey a" "abs s k = Some v" "Duration v = Some d"
    using blocklist_wfD [OF assms(3), of k v] Cons.prems [of k v] by (auto simp: kv)
  let ?b = "entry_blocks now (Timestamp v) d"
  have v: "v = \<lparr>Timestamp = Timestamp v, Duration = Some d\<rparr>" using k(3) by simp
  then have g: "blocklist_get ops s k = (Timestamp v, d, None)"
    using get_found [OF assms(1) assms(2), of k "Timestamp v" d] k(2) by metis
  have b: "blocked (abs s) now a = ?b"
    using k by (cases v) (auto simp: blocked_def)
  let ?p = "\<lparr>bpAddress = a, bpTimestamp = Timestamp v, bpDuration = d\<rparr>"
  have cb: "peers_callback ops now s k v acc = ((False, None), acc @ (if ?b then [?p] else []))"
    using k(1) g by (auto simp: peers_callback_def entry_blocks_def)
  obtain ps where ps: "iterate (peers_callback ops now s) es (acc @ (if ?b then [?p] else [])) =
      (None, (acc @ (if ?b then [?p] else [])) @ ps)"
    "bpAddress ` set ps = {a. generateKey a \<in> fst ` set es \<and> blocked (abs s) now a}"
    "distinct (map fst es) \<longrightarrow> distinct (map bpAddress ps)"
    using Cons.IH [of "acc @ (if ?b then [?p] else [])"] Cons.prems by auto
  show ?case
    using cb ps b k(1)
    by (intro exI [of _ "(if ?b then [?p] else []) @ ps"]) (auto simp: kv)
qed simp

lemma Peers_blocked:
  assumes "inv s" "\<And>k. st_Get ops s k \<noteq> Inl ErrStore" "blocklist_wf (abs s)"
  shows "\<exists>ps. Blocklist_Peers ops now s = Inr ps \<and> distinct (map bpAddress ps) \<and>
    bpAddress ` set ps = {a. blocked (abs s) now a}"
proof -
  note es = entries [OF assms(1), of keyPrefix]
  obtain ps where ps: "iterate (peers_callback ops now s) (st_entries ops s keyPrefix) [] = (None, ps)"
    "bpAddress ` set ps = {a. generateKey a \<in> fst ` set (st_entries ops s keyPrefix) \<and> blocked (abs s) now a}"
    "distinct (map bpAddress ps)"
    using Peers_iterate [OF assms, of "st_entries ops s keyPrefix" now "[]"] es by auto
  have "generateKey a \<in> fst ` set (st_entries ops s keyPrefix)" if "blocked (abs s) now a" for a
    using that es by (force simp: blocked_def)
  with ps show ?thesis by (auto simp: Blocklist_Peers_def)
qed

end

interpretation mblock: blocklist_store mock_store mock_inv map_of
  by unfold_locales

lemma mock_Get_no_error: "st_Get mock_store s k \<noteq> Inl ErrStore"
  by (simp add: mock_store_def mock_Get_def split: option.splits)

section \<open>Properties\<close>

text \<open>
  C24. What \<open>Add\<close> promises: over the map-based store \<open>Add\<close> of a duration that is not negative
  succeeds or reports the entry that does not parse; after it, \<open>Exists\<close> answers true for the
  peer exactly while the longer of the new and the stored duration (0 is for ever) has not
  passed since the call, and answers as before for every other peer.
\<close>

theorem Blocklist_Add_Exists:
  assumes "mock_inv s" "Blocklist_Add mock_store now a dur s = (None, s')" "0 \<le> dur"
    and "Blocklist_Exists mock_store now' a' s' = (Inr r, s'')"
  shows "r = (if a' = a then entry_blocks now' now (added_duration (map_of s) a dur)
              else blocked (map_of s) now' a')"
  using mblock.Exists_blocked [OF _ assms(4)] mblock.Add_blocked [OF assms(1-3)]
    mblock.Add_longer [OF assms(1-3)] by blast

theorem Blocklist_Add_Exists_witness:
  "let s = [(generateKey (Address [1]), \<lparr>Timestamp = 5, Duration = Some 60\<rparr>)];
       s' = snd (Blocklist_Add mock_store 10 (Address [1]) 20 s)
   in Blocklist_Exists mock_store 70 (Address [1]) s' = (Inr True, s') \<and>
      entry_blocks 70 10 (added_duration (map_of s) (Address [1]) 20)"
proof -
  let ?s = "[(generateKey (Address [1]), \<lparr>Timestamp = 5, Duration = Some 60\<rparr>)]"
  let ?s' = "snd (Blocklist_Add mock_store 10 (Address [1]) 20 ?s)"
  have "mock_inv ?s" by (simp add: mock_inv_def)
  moreover have "Blocklist_Add mock_store 10 (Address [1]) 20 ?s = (None, ?s')"
    by (simp add: Blocklist_Add_def blocklist_get_def mock_store_def mock_Get_def mock_Put_def)
  moreover have e: "Blocklist_Exists mock_store 70 (Address [1]) ?s' = (Inr True, ?s')"
    by (simp add: Blocklist_Add_def Blocklist_Exists_def blocklist_get_def mock_store_def mock_Get_def
        mock_Put_def time_sub_def Let_def)
  ultimately show ?thesis
    using Blocklist_Add_Exists [of ?s 10 "Address [1]" 20 ?s' 70 "Address [1]" True ?s']
    by (simp add: Let_def)
qed

text \<open>
  \<open>Add\<close> never shortens a block: a peer that is blocked at a later time by an entry made no
  later than the call is still blocked at that time after it, and so is every other peer.
\<close>

theorem Blocklist_Add_keeps_blocked:
  assumes "mock_inv s" "blocklist_wf (map_of s)" "Blocklist_Add mock_store now a dur s = (None, s')" "0 \<le> dur"
    and "blocked (map_of s) now' b"
    and "\<And>e. map_of s (generateKey a) = Some e \<Longrightarrow> Timestamp e \<le> now"
  shows "blocked (map_of s') now' b \<and> blocklist_wf (map_of s')"
proof (cases "b = a")
  case True
  with assms(5) obtain t d where m: "map_of s (generateKey a) = Some \<lparr>Timestamp = t, Duration = Some d\<rparr>"
    "entry_blocks now' t d" by (auto simp: blocked_def)
  moreover have "t \<le> now" using assms(6) [OF m(1)] by simp
  moreover have "0 \<le> d" using blocklist_wfD [OF assms(2) _ m(1)] by auto
  ultimately show ?thesis
    using True mblock.Add_blocked [OF assms(1,3,4)] mblock.Add_wf [OF assms(1,3,4,2)]
    by (auto simp: entry_blocks_def added_duration_def longer_def time_sub_def)
next
  case False
  then show ?thesis
    using assms(5) mblock.Add_blocked [OF assms(1,3,4)] mblock.Add_wf [OF assms(1,3,4,2)] by simp
qed

theorem Blocklist_Add_keeps_blocked_witness:
  "let s = [(generateKey (Address [1]), \<lparr>Timestamp = 5, Duration = Some 60\<rparr>)];
       s' = snd (Blocklist_Add mock_store 10 (Address [1]) 20 s)
   in blocked (map_of s') 30 (Address [1])"
proof -
  let ?s = "[(generateKey (Address [1]), \<lparr>Timestamp = 5, Duration = Some 60\<rparr>)]"
  let ?s' = "snd (Blocklist_Add mock_store 10 (Address [1]) 20 ?s)"
  have "mock_inv ?s" "blocklist_wf (map_of ?s)" "blocked (map_of ?s) 30 (Address [1])"
    by (auto simp: mock_inv_def blocklist_wf_def blocked_def entry_blocks_def time_sub_def)
  moreover have "Blocklist_Add mock_store 10 (Address [1]) 20 ?s = (None, ?s')"
    by (simp add: Blocklist_Add_def blocklist_get_def mock_store_def mock_Get_def mock_Put_def)
  ultimately show ?thesis
    using Blocklist_Add_keeps_blocked [of ?s 10 "Address [1]" 20 ?s' 30 "Address [1]"] by (simp add: Let_def)
qed

text \<open>
  \<open>Peers\<close> lists exactly the blocked peers, each once, when the entries of the store are
  well-formed.
\<close>

theorem Blocklist_Peers_exact:
  assumes "mock_inv s" "blocklist_wf (map_of s)"
  shows "\<exists>ps. Blocklist_Peers mock_store now s = Inr ps \<and> distinct (map bpAddress ps) \<and>
    bpAddress ` set ps = {a. blocked (map_of s) now a}"
  using mblock.Peers_blocked [OF assms(1) mock_Get_no_error assms(2)] .

theorem Blocklist_Peers_exact_witness:
  "let s = [(generateKey (Address [1]), \<lparr>Timestamp = 5, Duration = Some 60\<rparr>)] in
   \<exists>ps. Blocklist_Peers mock_store 70 s = Inr ps \<and> bpAddress ` set ps = {a. blocked (map_of s) 70 a}"
proof -
  let ?s = "[(generateKey (Address [1]), \<lparr>Timestamp = 5, Duration = Some 60\<rparr>)]"
  have "mock_inv ?s" "blocklist_wf (map_of ?s)"
    by (auto simp: mock_inv_def blocklist_wf_def)
  from Blocklist_Peers_exact [OF this, of 70] show ?thesis by (auto simp: Let_def)
qed

text \<open>
  An expired entry still counts in \<open>Add\<close>: a peer whose block has run out, so that it is no
  longer blocked, is blocked by a shorter \<open>Add\<close> for the old, longer duration, when no \<open>Exists\<close>
  has removed the entry in between.
\<close>

theorem Blocklist_Add_reuses_expired:
  "let s = [(generateKey (Address [1]), \<lparr>Timestamp = 5, Duration = Some 60\<rparr>)];
       s' = snd (Blocklist_Add mock_store 100 (Address [1]) 20 s)
   in \<not> blocked (map_of s) 100 (Address [1]) \<and> blocked (map_of s') 150 (Address [1])"
  by (auto simp: Blocklist_Add_def blocklist_get_def mock_store_def mock_Get_def mock_Put_def blocked_def
      entry_blocks_def time_sub_def Let_def)

end
