(* ===== verification/Reacher.thy ===== *)
theory Reacher
  imports Boson
begin

text \<open>
  The background worker that pings connected peers and reports whether they are reachable
  (\<^verbatim>\<open>src/pkg/p2p/libp2p/internal/reacher/reacher.go\<close>). Peers are pointers (numbers into
  \<open>heap\<close>), because a worker keeps its pointer while the map may already hold another one for
  the same overlay. The goroutines are the rules of the step relation \<open>rstep\<close>: \<open>manage\<close>
  acquires a peer and hands it to a worker, a worker counts an attempt, pings, and then
  reports or puts the peer back. The result of a ping and the clock are arguments.
\<close>

section \<open>Model\<close>

datatype peer_state = waiting | inProgress

datatype reachability = ReachabilityStatusPublic | ReachabilityStatusPrivate

record 'm rpeer =
  overlay :: address
  multiaddr :: 'm
  retryAfter :: gotime
  attempts :: int
  pstate :: peer_state

record 'm reacher =
  rpeers :: "bytes \<rightharpoonup> nat"
  heap :: "nat \<Rightarrow> 'm rpeer"
  next_ptr :: nat
  work :: bool
  PingMaxAttempts :: int
  RetryAfterDuration :: duration
  hands :: "(nat \<times> int option) list"
  notified :: "(address \<times> reachability) list"

text \<open>Default options of the package.\<close>

definition pingMaxAttempts :: int where
  "pingMaxAttempts = 3"

definition retryAfterDuration :: duration where
  "retryAfterDuration = second * 15"

definition Reacher_New :: "(nat \<Rightarrow> 'm rpeer) \<Rightarrow> (int \<times> duration) option \<Rightarrow> 'm reacher" where
  "Reacher_New h o' =
     (let (m, d) = (case o' of None \<Rightarrow> (pingMaxAttempts, retryAfterDuration) | Some md \<Rightarrow> md) in
      \<lparr>rpeers = Map.empty, heap = h, next_ptr = 0, work = False, PingMaxAttempts = m,
       RetryAfterDuration = d, hands = [], notified = []\<rparr>)"

text \<open>The loop of \<open>tryAcquirePeer\<close> over the map, in an order that Go does not fix.\<close>

fun acquire_loop ::
  "gotime \<Rightarrow> 'm reacher \<Rightarrow> gotime \<Rightarrow> bytes list \<Rightarrow> nat option \<times> gotime" where
  "acquire_loop now r nextClosest [] = (None, nextClosest)"
| "acquire_loop now r nextClosest (k # ks) =
     (case rpeers r k of
        None \<Rightarrow> acquire_loop now r nextClosest ks
      | Some i \<Rightarrow>
          (let p = heap r i in
           if pstate p = inProgress then acquire_loop now r nextClosest ks
           else if retryAfter p < now then (Some i, nextClosest)
           else if nextClosest = zero_time \<or> retryAfter p < nextClosest
           then acquire_loop now r (retryAfter p) ks
           else acquire_loop now r nextClosest ks))"

definition tryAcquirePeer ::
  "gotime \<Rightarrow> gotime \<Rightarrow> bytes list \<Rightarrow> 'm reacher \<Rightarrow> (nat option \<times> duration) \<times> 'm reacher" where
  "tryAcquirePeer now now' ks r =
     (case acquire_loop now r zero_time ks of
        (Some i, _) \<Rightarrow> ((Some i, 0), r\<lparr>heap := (heap r)(i := (heap r i)\<lparr>pstate := inProgress\<rparr>)\<rparr>)
      | (None, nextClosest) \<Rightarrow>
          (if nextClosest = zero_time then ((None, 0), r)
           else ((None, time_sub nextClosest now'), r)))"

text \<open>What \<open>manage\<close> does with the answer.\<close>

datatype manage_wait = WaitWorkOrTimer duration | WaitWork | SendPeer nat

definition manage_next :: "nat option \<times> duration \<Rightarrow> manage_wait" where
  "manage_next pt =
     (case pt of (p, tryAfter) \<Rightarrow>
        if tryAfter > 0 then WaitWorkOrTimer tryAfter
        else (case p of None \<Rightarrow> WaitWork | Some i \<Rightarrow> SendPeer i))"

definition notifyManage :: "'m reacher \<Rightarrow> 'm reacher" where
  "notifyManage r = r\<lparr>work := True\<rparr>"

definition deletePeer :: "nat \<Rightarrow> 'm reacher \<Rightarrow> 'm reacher" where
  "deletePeer i r = r\<lparr>rpeers := (rpeers r)(ByteString (overlay (heap r i)) := None)\<rparr>"

definition Connected :: "address \<Rightarrow> 'm \<Rightarrow> 'm reacher \<Rightarrow> 'm reacher" where
  "Connected a m r =
     notifyManage
       (case rpeers r (ByteString a) of
          Some _ \<Rightarrow> r
        | None \<Rightarrow>
            r\<lparr>rpeers := (rpeers r)(ByteString a \<mapsto> next_ptr r),
              heap := (heap r)(next_ptr r :=
                \<lparr>overlay = a, multiaddr = m, retryAfter = zero_time, attempts = 0, pstate = waiting\<rparr>),
              next_ptr := Suc (next_ptr r)\<rparr>)"

definition Disconnected :: "address \<Rightarrow> 'm reacher \<Rightarrow> 'm reacher" where
  "Disconnected a r = r\<lparr>rpeers := (rpeers r)(ByteString a := None)\<rparr>"

text \<open>The body of a worker's loop, before and after the ping.\<close>

definition ping_begin :: "nat \<Rightarrow> 'm reacher \<Rightarrow> int \<times> 'm reacher" where
  "ping_begin i r =
     (let n = attempts (heap r i) + 1 in
      (n, r\<lparr>heap := (heap r)(i := (heap r i)\<lparr>attempts := n\<rparr>)\<rparr>))"

definition ping_end :: "bool \<Rightarrow> int \<Rightarrow> gotime \<Rightarrow> nat \<Rightarrow> 'm reacher \<Rightarrow> 'm reacher" where
  "ping_end ok n now i r =
     (let a = overlay (heap r i) in
      if ok then deletePeer i (r\<lparr>notified := notified r @ [(a, ReachabilityStatusPublic)]\<rparr>)
      else if n \<ge> PingMaxAttempts r
      then deletePeer i (r\<lparr>notified := notified r @ [(a, ReachabilityStatusPrivate)]\<rparr>)
      else notifyManage (r\<lparr>heap := (heap r)(i := (heap r i)
             \<lparr>pstate := waiting, retryAfter := now + RetryAfterDuration r * n\<rparr>)\<rparr>))"

section \<open>The step relation\<close>

inductive rstep :: "'m reacher \<Rightarrow> 'm reacher \<Rightarrow> bool" where
  connect: "rstep r (Connected a m r)"
| disconnect: "rstep r (Disconnected a r)"
| wait: "rstep r (r\<lparr>work := False\<rparr>)"
| acquire: "tryAcquirePeer now now' ks r = ((Some i, d), r') \<Longrightarrow>
    rstep r (r'\<lparr>hands := (i, None) # hands r'\<rparr>)"
| ping_start: "(i, None) \<in> set (hands r) \<Longrightarrow> ping_begin i r = (n, r') \<Longrightarrow>
    rstep r (r'\<lparr>hands := (i, Some n) # remove1 (i, None) (hands r')\<rparr>)"
| ping_done: "(i, Some n) \<in> set (hands r) \<Longrightarrow>
    rstep r ((ping_end ok n now i r)\<lparr>hands := remove1 (i, Some n) (hands r)\<rparr>)"

inductive_cases rstepE: "rstep r r'"

text \<open>
  The invariant: attempts stay within the limit and below it while a peer waits; a peer in
  the hands of \<open>manage\<close> or a worker is in progress, with the attempts the worker has read; no
  peer is in two hands; the map's pointers are filed under their own overlay.
\<close>

definition peer_ok :: "int \<Rightarrow> 'm rpeer \<Rightarrow> bool" where
  "peer_ok mx p \<longleftrightarrow> 0 \<le> attempts p \<and> attempts p \<le> mx \<and> (pstate p = waiting \<longrightarrow> attempts p < mx)"

definition hand_ok :: "int \<Rightarrow> 'm rpeer \<Rightarrow> int option \<Rightarrow> bool" where
  "hand_ok mx p ph \<longleftrightarrow> pstate p = inProgress \<and>
     (case ph of None \<Rightarrow> attempts p < mx | Some n \<Rightarrow> n = attempts p)"

definition reacher_inv :: "'m reacher \<Rightarrow> bool" where
  "reacher_inv r \<longleftrightarrow> 1 \<le> PingMaxAttempts r \<and> distinct (map fst (hands r)) \<and>
     (\<forall>k i. rpeers r k = Some i \<longrightarrow> i < next_ptr r \<and> ByteString (overlay (heap r i)) = k) \<and>
     (\<forall>h\<in>set (hands r). fst h < next_ptr r \<and> hand_ok (PingMaxAttempts r) (heap r (fst h)) (snd h)) \<and>
     (\<forall>i<next_ptr r. peer_ok (PingMaxAttempts r) (heap r i))"

lemma acquire_loop_Some:
  "acquire_loop now r c ks = (Some i, c') \<Longrightarrow>
   \<exists>k\<in>set ks. rpeers r k = Some i \<and> pstate (heap r i) = waiting \<and> retryAfter (heap r i) < now"
  by (induction ks arbitrary: c)
    (auto simp: Let_def split: option.splits if_splits intro: peer_state.exhaust)

text \<open>The peers of the map that wait for a ping, and their earliest time.\<close>

definition waiting_peers :: "'m reacher \<Rightarrow> bytes list \<Rightarrow> nat set" where
  "waiting_peers r ks = {i. \<exists>k\<in>set ks. rpeers r k = Some i \<and> pstate (heap r i) = waiting}"

lemma waiting_peers_Cons:
  "waiting_peers r (k # ks) =
     (case rpeers r k of None \<Rightarrow> {} | Some i \<Rightarrow> if pstate (heap r i) = waiting then {i} else {}) \<union> waiting_peers r ks"
  by (auto simp: waiting_peers_def split: option.splits)

lemma peer_state_cases: "s \<noteq> inProgress \<longleftrightarrow> s = waiting"
  by (cases s) auto

text \<open>What the loop knows of the peers it has passed, from the earliest time \<open>c\<close> so far.\<close>

definition closest_post :: "gotime \<Rightarrow> gotime set \<Rightarrow> gotime \<Rightarrow> gotime \<Rightarrow> bool" where
  "closest_post now T c c' \<longleftrightarrow> (\<forall>t\<in>T. now \<le> t) \<and>
     (if c = zero_time \<and> T = {} then c' = zero_time
      else now \<le> c' \<and> (\<forall>t\<in>T. c' \<le> t) \<and> (c \<noteq> zero_time \<longrightarrow> c' \<le> c) \<and> (c' \<in> T \<or> c \<noteq> zero_time \<and> c' = c))"

lemma closest_post_insert:
  assumes "closest_post now T (if c = zero_time \<or> t < c then t else c) c'"
    and "zero_time < now" "now \<le> t" "c = zero_time \<or> now \<le> c"
  shows "closest_post now (insert t T) c c'"
  using assms by (auto simp: closest_post_def split: if_splits)

lemma acquire_loop_None:
  assumes "acquire_loop now r c ks = (None, c')" "zero_time < now" "c = zero_time \<or> now \<le> c"
  shows "closest_post now ((\<lambda>i. retryAfter (heap r i)) ` waiting_peers r ks) c c'"
  using assms
proof (induction ks arbitrary: c)
  case Nil
  then show ?case by (auto simp: waiting_peers_def closest_post_def)
next
  case (Cons k ks)
  show ?case
  proof (cases "\<exists>i. rpeers r k = Some i \<and> pstate (heap r i) = waiting")
    case True
    then obtain i where i: "rpeers r k = Some i" "pstate (heap r i) = waiting" by blast
    let ?t = "retryAfter (heap r i)"
    have t: "now \<le> ?t"
      using Cons.prems(1) i by (auto simp: Let_def split: if_splits)
    have "acquire_loop now r (if c = zero_time \<or> ?t < c then ?t else c) ks = (None, c')"
      using Cons.prems(1) i t by (cases "c = zero_time \<or> ?t < c") (simp_all add: Let_def)
    from Cons.IH [OF this Cons.prems(2)] closest_post_insert [OF _ Cons.prems(2) t Cons.prems(3)]
    show ?thesis
      using t Cons.prems(3) i by (auto simp: waiting_peers_Cons)
  next
    case False
    then have "waiting_peers r (k # ks) = waiting_peers r ks"
      "acquire_loop now r c ks = (None, c')"
      using Cons.prems(1) by (auto simp: waiting_peers_Cons peer_state_cases Let_def split: option.splits if_splits)
    with Cons.IH Cons.prems(2,3) show ?thesis by simp
  qed
qed

text \<open>A change of one peer and of its hand.\<close>

lemma reacher_inv_change:
  assumes "reacher_inv r" "i < next_ptr r" "overlay p = overlay (heap r i)"
    and "peer_ok (PingMaxAttempts r) p"
    and "distinct (map fst hs)"
    and "\<And>h. h \<in> set hs \<Longrightarrow> fst h \<noteq> i \<Longrightarrow> h \<in> set (hands r)"
    and "\<And>h. h \<in> set hs \<Longrightarrow> fst h = i \<Longrightarrow> hand_ok (PingMaxAttempts r) p (snd h)"
  shows "reacher_inv (r\<lparr>heap := (heap r)(i := p), hands := hs\<rparr>)"
  using assms unfolding reacher_inv_def by simp

lemma reacher_inv_acquire:
  assumes "reacher_inv r" "tryAcquirePeer now now' ks r = ((Some i, d), r')"
  shows "reacher_inv (r'\<lparr>hands := (i, None) # hands r'\<rparr>)"
proof -
  obtain c k where l: "rpeers r k = Some i" "pstate (heap r i) = waiting"
    and r': "r' = r\<lparr>heap := (heap r)(i := (heap r i)\<lparr>pstate := inProgress\<rparr>)\<rparr>"
    using assms(2) acquire_loop_Some [of now r zero_time ks i]
    by (auto simp: tryAcquirePeer_def split: prod.splits option.splits if_splits)
  have i: "i < next_ptr r" "peer_ok (PingMaxAttempts r) (heap r i)"
    using assms(1) l(1) by (auto simp: reacher_inv_def)
  have n: "i \<notin> fst ` set (hands r)"
    using assms(1) l(2) by (auto simp: reacher_inv_def hand_ok_def)
  have "reacher_inv (r\<lparr>heap := (heap r)(i := (heap r i)\<lparr>pstate := inProgress\<rparr>), hands := (i, None) # hands r\<rparr>)"
    using assms(1) i n l(2)
    by (intro reacher_inv_change) (auto simp: peer_ok_def hand_ok_def reacher_inv_def)
  then show ?thesis by (simp add: r')
qed

lemma remove1_hands:
  assumes "distinct (map fst xs)" "(i, ph) \<in> set xs"
  shows "distinct (map fst (remove1 (i, ph) xs)) \<and> i \<notin> fst ` set (remove1 (i, ph) xs) \<and>
    set (remove1 (i, ph) xs) = set xs - {(i, ph)}"
  using assms by (induction xs) (auto simp: image_iff)

lemma reacher_inv_begin:
  assumes "reacher_inv r" "(i, None) \<in> set (hands r)" "ping_begin i r = (n, r')"
  shows "reacher_inv (r'\<lparr>hands := (i, Some n) # remove1 (i, None) (hands r')\<rparr>)"
proof -
  have d: "distinct (map fst (hands r))" using assms(1) by (simp add: reacher_inv_def)
  have i: "i < next_ptr r" "hand_ok (PingMaxAttempts r) (heap r i) None" "peer_ok (PingMaxAttempts r) (heap r i)"
    using assms(1,2) by (auto simp: reacher_inv_def)
  have n: "n = attempts (heap r i) + 1" "r' = r\<lparr>heap := (heap r)(i := (heap r i)\<lparr>attempts := n\<rparr>)\<rparr>"
    using assms(3) by (auto simp: ping_begin_def Let_def)
  note rm = remove1_hands [OF d assms(2)]
  have other: "fst h \<noteq> i" if "h \<in> set (remove1 (i, None) (hands r))" for h
    using rm that by (metis image_eqI)
  have "reacher_inv (r\<lparr>heap := (heap r)(i := (heap r i)\<lparr>attempts := n\<rparr>),
      hands := (i, Some n) # remove1 (i, None) (hands r)\<rparr>)"
  proof (rule reacher_inv_change [OF assms(1) i(1)])
    show "peer_ok (PingMaxAttempts r) ((heap r i)\<lparr>attempts := n\<rparr>)"
      using i n by (simp add: peer_ok_def hand_ok_def)
    show "h \<in> set ((i, Some n) # remove1 (i, None) (hands r)) \<Longrightarrow> fst h = i \<Longrightarrow>
        hand_ok (PingMaxAttempts r) ((heap r i)\<lparr>attempts := n\<rparr>) (snd h)" for h
      using i n(1) other [of h] by (cases h) (auto simp: hand_ok_def)
  qed (use rm in auto)
  then show ?thesis unfolding n(2) by simp
qed

lemma reacher_inv_deletePeer: "reacher_inv r \<Longrightarrow> reacher_inv (deletePeer i r)"
  by (simp add: reacher_inv_def deletePeer_def)

lemma reacher_inv_end:
  assumes "reacher_inv r" "(i, Some n) \<in> set (hands r)"
  shows "reacher_inv ((ping_end ok n now i r)\<lparr>hands := remove1 (i, Some n) (hands r)\<rparr>)"
proof -
  have d: "distinct (map fst (hands r))" using assms(1) by (simp add: reacher_inv_def)
  note rm = remove1_hands [OF d assms(2)]
  have i: "i < next_ptr r" "n = attempts (heap r i)" "peer_ok (PingMaxAttempts r) (heap r i)"
    using assms by (auto simp: reacher_inv_def hand_ok_def)
  show ?thesis
  proof (cases "ok \<or> PingMaxAttempts r \<le> n")
    case True
    have "reacher_inv (r\<lparr>hands := remove1 (i, Some n) (hands r)\<rparr>)"
      using assms(1) rm by (auto simp: reacher_inv_def)
    with True show ?thesis
      by (auto simp: ping_end_def Let_def reacher_inv_def deletePeer_def)
  next
    case False
    let ?p = "(heap r i)\<lparr>pstate := waiting, retryAfter := now + RetryAfterDuration r * n\<rparr>"
    have "reacher_inv (r\<lparr>heap := (heap r)(i := ?p), hands := remove1 (i, Some n) (hands r)\<rparr>)"
      using assms(1) i rm False by (intro reacher_inv_change) (auto simp: peer_ok_def)
    with False show ?thesis
      by (simp add: ping_end_def Let_def notifyManage_def reacher_inv_def)
  qed
qed

lemma reacher_inv_connect: "reacher_inv r \<Longrightarrow> reacher_inv (Connected a m r)"
  by (auto simp: reacher_inv_def Connected_def notifyManage_def less_Suc_eq peer_ok_def split: option.splits)

lemma reacher_inv_step: "rstep r r' \<Longrightarrow> reacher_inv r \<Longrightarrow> reacher_inv r'"
proof (induction rule: rstep.induct)
  case (disconnect r a)
  then show ?case by (auto simp: reacher_inv_def Disconnected_def)
next
  case (wait r)
  then show ?case by (simp add: reacher_inv_def)
qed (simp_all add: reacher_inv_connect reacher_inv_acquire reacher_inv_begin reacher_inv_end)

lemma reacher_inv_reach: "rstep\<^sup>*\<^sup>* r r' \<Longrightarrow> reacher_inv r \<Longrightarrow> reacher_inv r'"
  by (induction rule: rtranclp_induct) (auto intro: reacher_inv_step)

lemma Reacher_New_inv: "o' = None \<or> (\<exists>m d. o' = Some (m, d) \<and> 1 \<le> m) \<Longrightarrow> reacher_inv (Reacher_New h o')"
  by (auto simp: reacher_inv_def Reacher_New_def pingMaxAttempts_def)

section \<open>Properties\<close>



text \<open>
  What \<open>tryAcquirePeer\<close> returns, for every order of the map: a waiting peer whose retry
  time has passed, which it marks as in progress, whenever there is one; otherwise no peer
  and no change, with the time from the second reading of the clock to the earliest retry
  time, or 0 when no peer waits.
\<close>

theorem tryAcquirePeer_spec:
  assumes "zero_time < now" "tryAcquirePeer now now' ks r = ((p, d), r')"
  shows "case p of
      Some i \<Rightarrow> d = 0 \<and> i \<in> waiting_peers r ks \<and> retryAfter (heap r i) < now \<and>
        r' = r\<lparr>heap := (heap r)(i := (heap r i)\<lparr>pstate := inProgress\<rparr>)\<rparr>
    | None \<Rightarrow> r' = r \<and> (\<forall>i\<in>waiting_peers r ks. now \<le> retryAfter (heap r i)) \<and>
        (if waiting_peers r ks = {} then d = 0
         else (\<exists>i\<in>waiting_peers r ks. d = time_sub (retryAfter (heap r i)) now' \<and>
                 (\<forall>j\<in>waiting_peers r ks. retryAfter (heap r i) \<le> retryAfter (heap r j))))"
proof -
  obtain q c where l: "acquire_loop now r zero_time ks = (q, c)" by fastforce
  show ?thesis
  proof (cases q)
    case (Some i)
    then show ?thesis
      using assms l acquire_loop_Some [of now r zero_time ks i c]
      by (auto simp: tryAcquirePeer_def waiting_peers_def)
  next
    case None
    have "closest_post now ((\<lambda>i. retryAfter (heap r i)) ` waiting_peers r ks) zero_time c"
      using acquire_loop_None [of now r zero_time ks c] l None assms(1) by simp
    then show ?thesis
      using assms l None by (auto simp: tryAcquirePeer_def closest_post_def split: if_splits)
  qed
qed

theorem tryAcquirePeer_spec_witness:
  "let r = Connected (Address [1]) () (Reacher_New (\<lambda>_. undefined) None) in
   zero_time < 5 \<and> fst (tryAcquirePeer 5 6 [[1]] r) = (Some 0, 0) \<and> 0 \<in> waiting_peers r [[1]]"
proof -
  let ?r = "Connected (Address [1]) () (Reacher_New (\<lambda>_. undefined) None)"
  let ?t = "tryAcquirePeer 5 6 [[1]] ?r"
  have f: "fst ?t = (Some 0, 0)"
    by (simp add: tryAcquirePeer_def Connected_def notifyManage_def Reacher_New_def ByteString_def
        zero_time_def Let_def)
  then have "?t = ((Some 0, 0), snd ?t)" by (metis prod.collapse)
  from tryAcquirePeer_spec [OF _ this] f show ?thesis by (simp add: zero_time_def Let_def)
qed


text \<open>
  C27. A finished ping can drop a newer registration: if a peer disconnects and connects again
  while its first registration is being pinged, the end of that ping removes the second
  registration from the map, although it has never been pinged.
\<close>

theorem reacher_deletes_reconnected:
  "\<exists>r r' :: unit reacher. rstep\<^sup>*\<^sup>* (Reacher_New (\<lambda>_. undefined) None) r \<and> rstep r r' \<and>
     rpeers r [1] = Some 1 \<and> attempts (heap r 1) = 0 \<and> pstate (heap r 1) = waiting \<and> rpeers r' [1] = None"
proof -
  let ?r0 = "Reacher_New (\<lambda>_. undefined) None :: unit reacher"
  let ?r1 = "Connected (Address [1]) () ?r0"
  let ?r2 = "(snd (tryAcquirePeer 5 6 [[1]] ?r1))\<lparr>hands := [(0, None)]\<rparr>"
  let ?r3 = "(snd (ping_begin 0 ?r2))\<lparr>hands := [(0, Some 1)]\<rparr>"
  let ?r5 = "Connected (Address [1]) () (Disconnected (Address [1]) ?r3)"
  let ?r6 = "(ping_end True 1 9 0 ?r5)\<lparr>hands := []\<rparr>"
  note defs = tryAcquirePeer_def Connected_def Disconnected_def notifyManage_def Reacher_New_def
    ByteString_def zero_time_def Let_def ping_begin_def ping_end_def deletePeer_def
  have "rstep ?r0 ?r1" by (rule rstep.connect)
  moreover have "rstep ?r1 ?r2"
    using rstep.acquire [of 5 6 "[[1]]" ?r1 0 0 "snd (tryAcquirePeer 5 6 [[1]] ?r1)"] by (simp add: defs)
  moreover have "rstep ?r2 ?r3"
    using rstep.ping_start [of 0 ?r2 1 "snd (ping_begin 0 ?r2)"] by (simp add: defs)
  moreover have "rstep ?r3 (Disconnected (Address [1]) ?r3)" by (rule rstep.disconnect)
  moreover have "rstep (Disconnected (Address [1]) ?r3) ?r5" by (rule rstep.connect)
  ultimately have "rstep\<^sup>*\<^sup>* ?r0 ?r5" by (meson r_into_rtranclp rtranclp.rtrancl_into_rtrancl)
  moreover have "rstep ?r5 ?r6"
    using rstep.ping_done [of 0 1 ?r5 True 9] by (simp add: defs)
  moreover have "rpeers ?r5 [1] = Some 1" "attempts (heap ?r5 1) = 0" "pstate (heap ?r5 1) = waiting" "rpeers ?r6 [1] = None"
    by (simp_all add: defs)
  ultimately show ?thesis by blast
qed

end
