(* ===== verification/Kademlia.thy ===== *)
theory Kademlia
  imports PSlice
begin

text \<open>
  The queries of the Kademlia topology over its connected peers
  (\<^verbatim>\<open>src/pkg/topology/kademlia/kademlia.go\<close>): the neighbourhood depth, saturation and
  balance of bins, the iterations over peers and neighbours, the closest peers to an address,
  and random choices. The reachability filter is an argument; random numbers are arguments,
  \<open>None\<close> where reading them fails. The management loop that opens connections is not
  modelled. An outer \<open>None\<close> is a panic, which the lemmas exclude for well-formed peer lists.
\<close>

section \<open>Model\<close>

definition nnLowWatermark :: nat where
  "nnLowWatermark = 3"

definition quickSaturationPeers :: nat where
  "quickSaturationPeers = 4"

definition saturationPeers :: nat where
  "saturationPeers = 8"

record kad =
  base :: address
  bitSuffixLength :: int
  commonBinPrefixes :: "address list list"
  connectedPeers :: pslice
  knownPeers :: pslice
  depth :: byte
  radius :: byte
  public :: bool
  protectPeers :: "address list"

datatype kad_error = ErrPeerNotFound | ErrWantSelf | ErrDistance | ErrEmptyBin | ErrRandom

subsection \<open>Depth and saturation\<close>

text \<open>The callback that looks for the shallowest unsaturated bin.\<close>

definition unsaturated_cb :: "(address \<Rightarrow> bool) \<Rightarrow> (byte \<times> nat, unit) peer_func" where
  "unsaturated_cb filt a bin st =
     (case st of (shallowestUnsaturated, binCount) \<Rightarrow>
        if filt a then ((False, False, None), st)
        else if bin = shallowestUnsaturated
        then ((False, False, None), (shallowestUnsaturated, binCount + 1))
        else if bin > shallowestUnsaturated \<and> binCount < quickSaturationPeers
        then ((True, False, None), st)
        else ((False, False, None), (bin, 1)))"

text \<open>The callback that finds the bin of the peer number \<open>nnLowWatermark\<close> from the deepest.\<close>

definition candidate_cb :: "(address \<Rightarrow> bool) \<Rightarrow> (nat \<times> byte, unit) peer_func" where
  "candidate_cb filt a po st =
     (case st of (peersCtr, candidate) \<Rightarrow>
        if filt a then ((False, False, None), st)
        else if peersCtr + 1 \<ge> nnLowWatermark then ((True, False, None), (peersCtr + 1, po))
        else ((False, False, None), (peersCtr + 1, candidate)))"

definition shallowest_unsaturated :: "pslice \<Rightarrow> (address \<Rightarrow> bool) \<Rightarrow> byte option" where
  "shallowest_unsaturated ps filt =
     (let (shallowestEmpty, noEmptyBins) = PSlice_ShallowestEmpty ps in
      map_option
        (\<lambda>(_, su, _). if \<not> noEmptyBins \<and> shallowestEmpty < su then shallowestEmpty else su)
        (PSlice_EachBinRev (\<lambda>_. ps) (unsaturated_cb filt) (0, 0)))"

definition depth_candidate :: "pslice \<Rightarrow> (address \<Rightarrow> bool) \<Rightarrow> byte option" where
  "depth_candidate ps filt =
     map_option (\<lambda>(_, _, candidate). candidate)
       (PSlice_EachBin (\<lambda>_. ps) (candidate_cb filt) (0, 0))"

definition recalcDepth :: "pslice \<Rightarrow> byte \<Rightarrow> (address \<Rightarrow> bool) \<Rightarrow> byte option" where
  "recalcDepth ps rad filt =
     (if PSlice_Length ps \<le> nnLowWatermark then Some 0
      else
        case shallowest_unsaturated ps filt of
          None \<Rightarrow> None
        | Some su \<Rightarrow>
            (case depth_candidate ps filt of
               None \<Rightarrow> None
             | Some candidate \<Rightarrow>
                 Some (if su > candidate then (if rad < candidate then rad else candidate)
                       else if rad < su then rad else su)))"

definition binSaturated ::
  "nat \<Rightarrow> (address \<Rightarrow> bool) \<Rightarrow> byte \<Rightarrow> pslice \<Rightarrow> pslice \<Rightarrow> (address \<Rightarrow> bool) \<Rightarrow> (bool \<times> bool) option" where
  "binSaturated oversaturationAmount staticNode bin ps connected filt =
     (case recalcDepth ps MaxPO filt of
        None \<Rightarrow> None
      | Some potentialDepth \<Rightarrow>
          if bin \<ge> potentialDepth then Some (False, False)
          else
            map_option (\<lambda>(_, size). (size \<ge> saturationPeers, size \<ge> oversaturationAmount))
              (PSlice_EachBin (\<lambda>_. connected)
                (\<lambda>a po size.
                   ((False, False, None :: unit option),
                    if \<not> filt a \<and> po = bin \<and> \<not> staticNode a then size + 1 else size)) 0))"

definition NeighborhoodDepth :: "kad \<Rightarrow> byte" where
  "NeighborhoodDepth k = depth k"

text \<open>The flag tells whether the manage loop is notified.\<close>

definition SetRadius :: "(address \<Rightarrow> bool) \<Rightarrow> byte \<Rightarrow> kad \<Rightarrow> (kad \<times> bool) option" where
  "SetRadius filt r k =
     (if radius k = r then Some (k, False)
      else map_option (\<lambda>d. (k\<lparr>radius := r, depth := d\<rparr>, d \<noteq> depth k))
             (recalcDepth (connectedPeers k) r filt))"

definition Kad_Reachable :: "(address \<Rightarrow> bool) \<Rightarrow> bool \<Rightarrow> kad \<Rightarrow> (kad \<times> bool) option" where
  "Kad_Reachable filt is_public k =
     (if is_public
      then map_option (\<lambda>d. (k\<lparr>depth := d\<rparr>, True)) (recalcDepth (connectedPeers k) (radius k) filt)
      else Some (k, False))"

definition AddPeers :: "address list \<Rightarrow> kad \<Rightarrow> (kad \<times> bool) option" where
  "AddPeers addrs k = map_option (\<lambda>ps. (k\<lparr>knownPeers := ps\<rparr>, True)) (PSlice_Add (knownPeers k) addrs)"

subsection \<open>Iterations\<close>

definition EachNeighbor :: "kad \<Rightarrow> ('st, 'e) peer_func \<Rightarrow> 'st \<Rightarrow> ('e option \<times> 'st) option" where
  "EachNeighbor k f st =
     (let dep = NeighborhoodDepth k in
      PSlice_EachBin (\<lambda>_. connectedPeers k)
        (\<lambda>a po st. if po < dep then ((True, False, None), st) else f a po st) st)"

definition EachNeighborRev :: "kad \<Rightarrow> ('st, 'e) peer_func \<Rightarrow> 'st \<Rightarrow> ('e option \<times> 'st) option" where
  "EachNeighborRev k f st =
     (let dep = NeighborhoodDepth k in
      PSlice_EachBinRev (\<lambda>_. connectedPeers k)
        (\<lambda>a po st. if po < dep then ((False, True, None), st) else f a po st) st)"

definition EachPeer ::
  "(address \<Rightarrow> bool) \<Rightarrow> kad \<Rightarrow> ('st, 'e) peer_func \<Rightarrow> bool \<Rightarrow> 'st \<Rightarrow> ('e option \<times> 'st) option" where
  "EachPeer filt k f reachable st =
     PSlice_EachBin (\<lambda>_. connectedPeers k)
       (\<lambda>a po st. if reachable \<and> filt a then ((False, False, None), st) else f a po st) st"

definition EachPeerRev ::
  "(address \<Rightarrow> bool) \<Rightarrow> kad \<Rightarrow> ('st, 'e) peer_func \<Rightarrow> bool \<Rightarrow> 'st \<Rightarrow> ('e option \<times> 'st) option" where
  "EachPeerRev filt k f reachable st =
     PSlice_EachBinRev (\<lambda>_. connectedPeers k)
       (\<lambda>a po st. if reachable \<and> filt a then ((False, False, None), st) else f a po st) st"

definition binReachablePeers :: "(address \<Rightarrow> bool) \<Rightarrow> kad \<Rightarrow> byte \<Rightarrow> address list option" where
  "binReachablePeers filt k bin =
     map_option snd
       (EachPeerRev filt k
         (\<lambda>p po ps.
            if po = bin then ((False, False, None :: unit option), ps @ [p])
            else if po > bin then ((True, False, None), ps)
            else ((False, True, None), ps)) True [])"

subsection \<open>Closest peers\<close>

definition closestPeerFunc ::
  "address \<Rightarrow> (address \<Rightarrow> bool) \<Rightarrow> (address, kad_error) peer_func" where
  "closestPeerFunc a spf peer po closest =
     (if spf peer then ((False, False, None), closest)
      else if IsZero closest then ((False, False, None), peer)
      else
        (case Closer peer a closest of
           Inl e \<Rightarrow> ((False, False, Some ErrDistance), closest)
         | Inr closer \<Rightarrow> ((False, False, None), if closer then peer else closest)))"

definition closestPeer ::
  "pslice \<Rightarrow> address \<Rightarrow> (address \<Rightarrow> bool) \<Rightarrow> (kad_error + address) option" where
  "closestPeer ps a spf =
     map_option
       (\<lambda>(err, closest).
          case err of
            Some e \<Rightarrow> Inl e
          | None \<Rightarrow> if IsZero closest then Inl ErrPeerNotFound else Inr closest)
       (PSlice_EachBinRev (\<lambda>_. ps) (closestPeerFunc a spf) ZeroAddress)"

fun nClosePeerInSlice ::
  "address list \<Rightarrow> address \<Rightarrow> (address \<Rightarrow> bool) \<Rightarrow> byte \<Rightarrow> address \<times> bool" where
  "nClosePeerInSlice [] a spf minPO = (ZeroAddress, False)"
| "nClosePeerInSlice (peer # ps) a spf minPO =
     (if spf peer then nClosePeerInSlice ps a spf minPO
      else if ExtendedProximity (Bytes peer) (Bytes a) \<ge> minPO then (peer, True)
      else nClosePeerInSlice ps a spf minPO)"

text \<open>The callback of \<open>ClosestPeer\<close>, which ignores the error of \<open>Closer\<close>.\<close>

definition closest_cb :: "address \<Rightarrow> address list \<Rightarrow> (address, kad_error) peer_func" where
  "closest_cb a skips peer po closest =
     (if \<exists>s\<in>set skips. Equal s peer then ((False, False, None), closest)
      else if IsZero closest then ((False, False, None), peer)
      else ((False, False, None),
            if Closer peer a closest = Inr True then peer else closest))"

definition ClosestPeer ::
  "(address \<Rightarrow> bool) \<Rightarrow> kad \<Rightarrow> address \<Rightarrow> bool \<Rightarrow> bool \<Rightarrow> address list \<Rightarrow> (kad_error + address) option" where
  "ClosestPeer filt k a includeSelf reachable skips =
     (if PSlice_Length (connectedPeers k) = 0 then Some (Inl ErrPeerNotFound)
      else
        map_option
          (\<lambda>(err, closest).
             case err of
               Some e \<Rightarrow> Inl e
             | None \<Rightarrow>
                 if IsZero closest then Inl ErrPeerNotFound
                 else if Equal closest (base k) then Inl ErrWantSelf
                 else Inr closest)
          (EachPeerRev filt k (closest_cb a skips) reachable
            (if includeSelf \<and> public k then base k else ZeroAddress)))"

fun ClosestPeers ::
  "(address \<Rightarrow> bool) \<Rightarrow> kad \<Rightarrow> address \<Rightarrow> nat \<Rightarrow> bool \<Rightarrow> address list \<Rightarrow> address list \<Rightarrow> address list option" where
  "ClosestPeers filt k a 0 reachable skips out = Some out"
| "ClosestPeers filt k a (Suc n) reachable skips out =
     (case ClosestPeer filt k a False reachable skips of
        None \<Rightarrow> None
      | Some (Inl e) \<Rightarrow>
          (if e = ErrPeerNotFound then Some out else ClosestPeers filt k a n reachable skips out)
      | Some (Inr peer) \<Rightarrow> ClosestPeers filt k a n reachable (skips @ [peer]) (out @ [peer]))"

definition IsWithinDepth :: "kad \<Rightarrow> address \<Rightarrow> bool" where
  "IsWithinDepth k a \<longleftrightarrow> Proximity (Bytes (base k)) (Bytes a) \<ge> NeighborhoodDepth k"

definition RefreshProtectPeer :: "address list \<Rightarrow> kad \<Rightarrow> kad" where
  "RefreshProtectPeer ps k = k\<lparr>protectPeers := ps\<rparr>"

definition IsProtectPeer :: "kad \<Rightarrow> address \<Rightarrow> bool" where
  "IsProtectPeer k a \<longleftrightarrow> (\<exists>v\<in>set (protectPeers k). Equal v a)"

fun balanced_loop :: "kad \<Rightarrow> byte \<Rightarrow> address list \<Rightarrow> bool option" where
  "balanced_loop k bin [] = Some True"
| "balanced_loop k bin (pseudo # rest) =
     (case closestPeer (connectedPeers k) pseudo (\<lambda>_. False) of
        None \<Rightarrow> None
      | Some (Inl e) \<Rightarrow> Some False
      | Some (Inr c) \<Rightarrow>
          (if uint (ExtendedProximity (Bytes c) (Bytes pseudo)) < uint bin + bitSuffixLength k + 1
           then Some False else balanced_loop k bin rest))"

definition IsBalanced :: "kad \<Rightarrow> byte \<Rightarrow> bool option" where
  "IsBalanced k bin =
     (if unat bin > length (commonBinPrefixes k) then Some False
      else if unat bin = length (commonBinPrefixes k) then None
      else balanced_loop k bin (commonBinPrefixes k ! unat bin))"

definition IsSaturated :: "kad \<Rightarrow> byte \<Rightarrow> bool option" where
  "IsSaturated k bin = map_option (\<lambda>n. n \<ge> saturationPeers) (PSlice_BinSize (connectedPeers k) bin)"

subsection \<open>Random choices\<close>

definition isStaticPeer :: "address list \<Rightarrow> address \<Rightarrow> bool" where
  "isStaticPeer staticNodes overlay \<longleftrightarrow> (\<exists>a\<in>set staticNodes. Equal a overlay)"

definition randomPeer :: "(nat \<Rightarrow> nat option) \<Rightarrow> (address \<Rightarrow> bool) \<Rightarrow> kad \<Rightarrow> byte \<Rightarrow> (kad_error + address) option" where
  "randomPeer rnd static k bin =
     (case PSlice_BinPeers (connectedPeers k) bin of
        None \<Rightarrow> None
      | Some ps \<Rightarrow>
          (let ps' = filter (\<lambda>p. \<not> static p) ps in
           if length ps' = 0 then Some (Inl ErrEmptyBin)
           else case rnd (length ps') of
                  None \<Rightarrow> Some (Inl ErrRandom)
                | Some i \<Rightarrow> if i < length ps' then Some (Inr (ps' ! i)) else None))"

fun shuffle :: "nat option list \<Rightarrow> nat \<Rightarrow> 'a list \<Rightarrow> 'a list option" where
  "shuffle [] i xs = Some xs"
| "shuffle (None # rs) i xs = None"
| "shuffle (Some j # rs) i xs = shuffle rs (Suc i) (xs[i := xs ! j, j := xs ! i])"

definition randomSubset :: "nat option list \<Rightarrow> address list \<Rightarrow> int \<Rightarrow> (kad_error + address list) option" where
  "randomSubset rs addrs count =
     (if count \<ge> int (length addrs) then Some (Inr addrs)
      else case shuffle (take (length addrs) rs) 0 addrs of
             None \<Rightarrow> Some (Inl ErrRandom)
           | Some xs \<Rightarrow> if count < 0 then None else Some (Inr (take (nat count) xs)))"

section \<open>Lemmas on the depth\<close>

lemma pslice_bins: "pslice_placed s \<Longrightarrow> nat (maxBins s) = length (peers s)"
  by (simp add: pslice_placed_def)

text \<open>The peers of a list with their bins, from the shallowest and from the deepest bin.\<close>

definition up_pairs :: "pslice \<Rightarrow> (address \<times> byte) list" where
  "up_pairs s = concat (map (bin_pairs s) [0..<length (peers s)])"

definition down_pairs :: "pslice \<Rightarrow> (address \<times> byte) list" where
  "down_pairs s = concat (map (bin_pairs s) (rev [0..<length (peers s)]))"

lemma EachBin_visit:
  "pslice_placed s \<Longrightarrow> plain_callback pf \<Longrightarrow>
     PSlice_EachBin (\<lambda>_. s) pf st = Some (None, visit_list pf (down_pairs s) st)"
  by (simp add: PSlice_EachBin_def pslice_bins visit_bins_list down_pairs_def)

lemma EachBinRev_visit:
  "pslice_placed s \<Longrightarrow> plain_callback pf \<Longrightarrow>
     PSlice_EachBinRev (\<lambda>_. s) pf st = Some (None, visit_list pf (up_pairs s) st)"
  by (simp add: PSlice_EachBinRev_def pslice_bins visit_bins_list up_pairs_def)

lemma up_pairs_sorted: "pslice_placed s \<Longrightarrow> sorted_wrt (\<lambda>x y. snd x \<le> snd y) (up_pairs s)"
  unfolding up_pairs_def word_le_nat_alt by (rule bin_pairs_sorted [where r = "(\<le>)"]) auto

lemma down_pairs_sorted: "pslice_placed s \<Longrightarrow> sorted_wrt (\<lambda>x y. snd y \<le> snd x) (down_pairs s)"
  unfolding down_pairs_def word_le_nat_alt
  by (rule bin_pairs_sorted [where r = "(\<ge>)"]) (auto simp: sorted_wrt_rev)

lemma plain_callbacks: "plain_callback (unsaturated_cb filt)" "plain_callback (candidate_cb filt)"
  by (auto simp: plain_callback_def unsaturated_cb_def candidate_cb_def)

definition passing :: "(address \<Rightarrow> bool) \<Rightarrow> (address \<times> byte) list \<Rightarrow> (address \<times> byte) list" where
  "passing filt xs = filter (\<lambda>x. \<not> filt (fst x)) xs"

lemma visit_candidate:
  assumes "n < nnLowWatermark"
  shows "snd (visit_list (candidate_cb filt) xs (n, c)) =
    (if nnLowWatermark \<le> n + length (passing filt xs) then snd (passing filt xs ! (nnLowWatermark - Suc n)) else c)"
  using assms
proof (induction xs arbitrary: n)
  case (Cons x xs)
  obtain p i where x: "x = (p, i)" by fastforce
  show ?case
  proof (cases "filt p")
    case True
    with Cons show ?thesis by (simp add: x candidate_cb_def passing_def)
  next
    case False
    show ?thesis
    proof (cases "nnLowWatermark \<le> n + 1")
      case True
      with False Cons.prems show ?thesis by (simp add: x candidate_cb_def passing_def)
    next
      case lt: False
      then have "nnLowWatermark - Suc n = Suc (nnLowWatermark - Suc (Suc n))" by simp
      with False lt Cons.IH [of "Suc n"] show ?thesis
        by (simp add: x candidate_cb_def passing_def)
    qed
  qed
qed (simp add: passing_def)

text \<open>The peers of one bin among pairs that pass the filter.\<close>

definition in_bin :: "(address \<Rightarrow> bool) \<Rightarrow> byte \<Rightarrow> (address \<times> byte) list \<Rightarrow> nat" where
  "in_bin filt b xs = length (filter (\<lambda>x. \<not> filt (fst x) \<and> snd x = b) xs)"

lemma in_bin_Nil [simp]: "in_bin filt b [] = 0"
  by (simp add: in_bin_def)

lemma in_bin_snoc [simp]:
  "in_bin filt b (xs @ [x]) = in_bin filt b xs + (if \<not> filt (fst x) \<and> snd x = b then 1 else 0)"
  by (simp add: in_bin_def)

lemma in_bin_mono: "in_bin filt b xs \<le> in_bin filt b (xs @ ys)"
  by (simp add: in_bin_def)

lemma visit_unsaturated:
  assumes "sorted_wrt (\<lambda>x y. snd x \<le> snd y) (pre @ xs)"
    and "su = 0 \<or> (\<exists>x\<in>set pre. snd x = su)" "cnt = in_bin filt su pre" "\<forall>x\<in>set pre. \<not> filt (fst x) \<longrightarrow> snd x \<le> su"
    and "\<forall>b < su. in_bin filt b pre = 0 \<or> quickSaturationPeers \<le> in_bin filt b pre"
  shows "\<forall>b < fst (visit_list (unsaturated_cb filt) xs (su, cnt)).
      in_bin filt b (pre @ xs) = 0 \<or> quickSaturationPeers \<le> in_bin filt b (pre @ xs)"
  using assms
proof (induction xs arbitrary: pre su cnt)
  case Nil
  then show ?case by simp
next
  case (Cons x xs)
  obtain p i where x: "x = (p, i)" by fastforce
  have srt: "sorted_wrt (\<lambda>x y. snd x \<le> snd y) ((pre @ [x]) @ xs)" using Cons.prems(1) by simp
  show ?case
  proof (cases "filt p")
    case True
    have "visit_list (unsaturated_cb filt) (x # xs) (su, cnt) = visit_list (unsaturated_cb filt) xs (su, cnt)"
      using True by (simp add: x unsaturated_cb_def)
    with Cons.IH [OF srt, of su cnt] Cons.prems True show ?thesis by (auto simp: x)
  next
    case nf: False
    show ?thesis
    proof (cases "i = su")
      case True
      have "visit_list (unsaturated_cb filt) (x # xs) (su, cnt) = visit_list (unsaturated_cb filt) xs (su, cnt + 1)"
        using True nf by (simp add: x unsaturated_cb_def)
      with Cons.IH [OF srt, of su "cnt + 1"] Cons.prems True nf show ?thesis by (simp add: x)
    next
      case ne: False
      have "su \<le> i"
        using Cons.prems(1,2) by (auto simp: sorted_wrt_append x)
      with ne have lt: "su < i" by simp
      have rest: "in_bin filt b (x # xs) = 0" if "b < i" for b
        using Cons.prems(1) that by (fastforce simp: sorted_wrt_append in_bin_def x filter_empty_conv)
      have none: "in_bin filt b pre = 0" if "su < b" for b
        using Cons.prems(4) that by (fastforce simp: in_bin_def filter_empty_conv)
      show ?thesis
      proof (cases "cnt < quickSaturationPeers")
        case True
        then have "visit_list (unsaturated_cb filt) (x # xs) (su, cnt) = (su, cnt)"
          using nf ne lt by (simp add: x unsaturated_cb_def)
        moreover have "in_bin filt b (pre @ x # xs) = in_bin filt b pre" if "b < su" for b
          using rest [of b] that lt by (simp add: in_bin_def)
        ultimately show ?thesis using Cons.prems(5) by simp
      next
        case False
        have "visit_list (unsaturated_cb filt) (x # xs) (su, cnt) = visit_list (unsaturated_cb filt) xs (i, 1)"
          using nf ne False by (simp add: x unsaturated_cb_def)
        moreover have "\<forall>b<i. in_bin filt b (pre @ [x]) = 0 \<or> quickSaturationPeers \<le> in_bin filt b (pre @ [x])"
        proof (intro allI impI)
          fix b assume "b < i"
          then show "in_bin filt b (pre @ [x]) = 0 \<or> quickSaturationPeers \<le> in_bin filt b (pre @ [x])"
            using Cons.prems(3,5) False none [of b] by (cases b su rule: linorder_cases) (auto simp: x)
        qed
        moreover have "1 = in_bin filt i (pre @ [x])" using none [OF lt] nf by (simp add: x)
        moreover have "\<forall>y\<in>set (pre @ [x]). \<not> filt (fst y) \<longrightarrow> snd y \<le> i"
          using Cons.prems(1) by (auto simp: sorted_wrt_append x)
        ultimately show ?thesis
          using Cons.IH [OF srt, of i 1] by (simp add: x)
      qed
    qed
  qed
qed

lemma shallowest_loop_spec:
  "shallowest_loop k pss = (w, allfull) \<Longrightarrow>
     (allfull \<longleftrightarrow> [] \<notin> set pss) \<and>
     (\<not> allfull \<longrightarrow> (\<exists>i<length pss. w = word_of_nat (k + i) \<and> pss ! i = [] \<and> (\<forall>j<i. pss ! j \<noteq> [])))"
proof (induction pss arbitrary: k)
  case (Cons ps pss)
  show ?case
  proof (cases ps)
    case Nil
    with Cons.prems show ?thesis by (auto intro!: exI [of _ 0])
  next
    case (Cons p ps')
    with Cons.prems have r: "shallowest_loop (Suc k) pss = (w, allfull)" by simp
    show ?thesis
    proof (cases allfull)
      case True
      then show ?thesis using Cons.IH [OF r] Cons by simp
    next
      case False
      then obtain i where i: "i < length pss" "w = word_of_nat (Suc k + i)" "pss ! i = []" "\<forall>j<i. pss ! j \<noteq> []"
        using Cons.IH [OF r] by blast
      then have "Suc i < length (ps # pss) \<and> w = word_of_nat (k + Suc i) \<and> (ps # pss) ! Suc i = [] \<and>
          (\<forall>j<Suc i. (ps # pss) ! j \<noteq> [])"
        using Cons by (auto simp: less_Suc_eq_0_disj)
      moreover have "[] \<in> set pss" using i by (metis nth_mem)
      ultimately show ?thesis using False by auto
    qed
  qed
qed auto

lemma up_pairs_bin:
  assumes "pslice_placed s" "unat b < length (peers s)"
  shows "filter (\<lambda>x. P (fst x) \<and> snd x = b) (up_pairs s) = map (\<lambda>p. (p, b)) (filter P (peers s ! unat b))"
proof -
  let ?n = "length (peers s)" and ?F = "\<lambda>x. P (fst x) \<and> snd x = b"
  have other: "filter ?F (bin_pairs s i) = (if i = unat b then map (\<lambda>p. (p, b)) (filter P (peers s ! unat b)) else [])"
    if "i < ?n" for i
  proof (cases "i = unat b")
    case True
    then show ?thesis by (simp add: bin_pairs_def filter_map comp_def)
  next
    case False
    then show ?thesis
      using bin_pairs_po [OF assms(1) that] by (auto simp: filter_empty_conv)
  qed
  have "filter ?F (up_pairs s) = concat (map (\<lambda>i. if i = unat b then map (\<lambda>p. (p, b)) (filter P (peers s ! unat b)) else []) [0..<?n])"
    unfolding up_pairs_def filter_concat map_map comp_def
    by (intro arg_cong [of _ _ concat] map_cong refl other) simp
  also have "\<dots> = map (\<lambda>p. (p, b)) (filter P (peers s ! unat b))"
  proof -
    have "[0..<?n] = [0..<unat b] @ unat b # [Suc (unat b)..<?n]"
      using assms(2) by (metis add.commute le_add1 less_imp_add_positive upt_add_eq_append upt_conv_Cons plus_nat.add_0 less_or_eq_imp_le)
    then show ?thesis by (simp add: concat_map_none)
  qed
  finally show ?thesis .
qed

lemma in_bin_up_pairs:
  assumes "pslice_placed s" "unat b < length (peers s)"
  shows "in_bin filt b (up_pairs s) = length (filter (\<lambda>p. \<not> filt p) (peers s ! unat b))"
  using up_pairs_bin [OF assms, of "\<lambda>p. \<not> filt p"] by (simp add: in_bin_def)

lemma shallowest_unsaturated_spec:
  assumes "pslice_placed s" "maxBins s \<le> 256"
  shows "\<exists>su. shallowest_unsaturated s filt = Some su \<and>
    (\<forall>i<unat su. i < length (peers s) \<longrightarrow> peers s ! i \<noteq> [] \<and>
       (length (filter (\<lambda>p. \<not> filt p) (peers s ! i)) = 0 \<or>
        quickSaturationPeers \<le> length (filter (\<lambda>p. \<not> filt p) (peers s ! i))))"
proof -
  obtain se ne where e: "PSlice_ShallowestEmpty s = (se, ne)" by fastforce
  obtain su0 cnt where v: "visit_list (unsaturated_cb filt) (up_pairs s) (0, 0) = (su0, cnt)" by fastforce
  define su where "su = (if \<not> ne \<and> se < su0 then se else su0)"
  have r: "shallowest_unsaturated s filt = Some su"
    using EachBinRev_visit [OF assms(1) plain_callbacks(1), of filt "(0, 0)"] e v
    by (simp add: shallowest_unsaturated_def su_def)
  have sat: "\<forall>b < su0. in_bin filt b (up_pairs s) = 0 \<or> quickSaturationPeers \<le> in_bin filt b (up_pairs s)"
    using visit_unsaturated [of "[]" "up_pairs s" 0 0 filt] up_pairs_sorted [OF assms(1)] v by simp
  have len: "length (peers s) \<le> 256" using assms by (simp add: pslice_placed_def)
  have "peers s ! i \<noteq> [] \<and> (length (filter (\<lambda>p. \<not> filt p) (peers s ! i)) = 0 \<or>
      quickSaturationPeers \<le> length (filter (\<lambda>p. \<not> filt p) (peers s ! i)))"
    if i: "i < unat su" "i < length (peers s)" for i
  proof -
    have u: "unat (word_of_nat i :: byte) = i" using i(2) len by (simp add: unat_of_nat)
    have "i < unat su0" using i(1) by (auto simp: su_def word_less_nat_alt split: if_splits)
    then have "(word_of_nat i :: byte) < su0" using u by (simp add: word_less_nat_alt)
    with sat have s: "in_bin filt (word_of_nat i) (up_pairs s) = 0 \<or>
        quickSaturationPeers \<le> in_bin filt (word_of_nat i) (up_pairs s)" by blast
    have "peers s ! i \<noteq> []"
    proof (cases ne)
      case True
      then show ?thesis
        using shallowest_loop_spec [of 0 "peers s" se ne] e i(2) by (metis PSlice_ShallowestEmpty_def nth_mem)
    next
      case False
      obtain j where j: "j < length (peers s)" "se = word_of_nat j" "\<forall>l<j. peers s ! l \<noteq> []"
        using shallowest_loop_spec [of 0 "peers s" se ne] e False by (auto simp: PSlice_ShallowestEmpty_def)
      have "unat se = j" using j len by (simp add: unat_of_nat)
      moreover have "i < unat se" using i(1) False by (auto simp: su_def word_less_nat_alt split: if_splits)
      ultimately show ?thesis using j(3) by simp
    qed
    with s show ?thesis using in_bin_up_pairs [OF assms(1), of "word_of_nat i" filt] u i(2) by simp
  qed
  with r show ?thesis by blast
qed

lemma depth_candidate_spec:
  assumes "pslice_placed s"
  shows "\<exists>c. depth_candidate s filt = Some c \<and> (c = 0 \<or>
    nnLowWatermark \<le> length (filter (\<lambda>x. \<not> filt (fst x) \<and> c \<le> snd x) (down_pairs s)))"
proof -
  let ?ys = "passing filt (down_pairs s)"
  define c where "c = (if nnLowWatermark \<le> length ?ys then snd (?ys ! (nnLowWatermark - 1)) else 0)"
  have "depth_candidate s filt = Some c"
    using EachBin_visit [OF assms plain_callbacks(2), of filt "(0, 0)"]
      visit_candidate [of 0 filt "down_pairs s" 0]
    by (simp add: depth_candidate_def c_def nnLowWatermark_def split_beta)
  moreover have "nnLowWatermark \<le> length (filter (\<lambda>x. c \<le> snd x) ?ys)" if "c \<noteq> 0"
  proof -
    have l: "nnLowWatermark \<le> length ?ys" using that by (auto simp: c_def split: if_splits)
    have "sorted_wrt (\<lambda>x y. snd y \<le> snd x) ?ys"
      unfolding passing_def by (rule sorted_wrt_filter) (rule down_pairs_sorted [OF assms])
    from sorted_desc_take [OF this, of "nnLowWatermark - 1"]
    have "\<forall>x\<in>set (take nnLowWatermark ?ys). c \<le> snd x"
      using l by (simp add: c_def nnLowWatermark_def)
    then have "filter (\<lambda>x. c \<le> snd x) (take nnLowWatermark ?ys) = take nnLowWatermark ?ys" by simp
    then show ?thesis
      using l by (metis append_take_drop_id filter_append length_append length_take le_add1 min.absorb2)
  qed
  ultimately show ?thesis
    by (auto simp: passing_def conj_commute filter_filter)
qed

lemma recalcDepth_min:
  assumes "pslice_placed s" "maxBins s \<le> 256" "\<not> PSlice_Length s \<le> nnLowWatermark"
  obtains su c where "shallowest_unsaturated s filt = Some su" "depth_candidate s filt = Some c"
    "recalcDepth s rad filt = Some (min rad (min su c))"
proof -
  obtain su c where su: "shallowest_unsaturated s filt = Some su" and c: "depth_candidate s filt = Some c"
    using shallowest_unsaturated_spec [OF assms(1,2), of filt] depth_candidate_spec [OF assms(1), of filt] by blast
  have "recalcDepth s rad filt = Some (min rad (min su c))"
    using su c assms(3) by (auto simp: recalcDepth_def min_def)
  with that [OF su c] show ?thesis by blast
qed

lemma recalcDepth_total:
  assumes "pslice_placed s" "maxBins s \<le> 256"
  shows "\<exists>d. recalcDepth s rad filt = Some d \<and> d \<le> rad"
proof (cases "PSlice_Length s \<le> nnLowWatermark")
  case True
  then show ?thesis by (simp add: recalcDepth_def)
next
  case False
  obtain m where "recalcDepth s rad filt = Some (min rad m)"
    using recalcDepth_min [OF assms False, of filt rad] by blast
  then show ?thesis by simp
qed

lemma visit_bins_total: "\<forall>i\<in>set is. i < length (peers s) \<Longrightarrow> \<exists>r. visit_bins (\<lambda>_. s) pf is st = Some r"
  by (induction "is" arbitrary: st) (auto simp: PSlice_bin_def split: prod.splits visit.splits)

lemma EachBin_total:
  "pslice_placed s \<Longrightarrow> \<exists>r. PSlice_EachBin (\<lambda>_. s) pf st = Some r"
  "pslice_placed s \<Longrightarrow> \<exists>r. PSlice_EachBinRev (\<lambda>_. s) pf st = Some r"
  unfolding PSlice_EachBin_def PSlice_EachBinRev_def
  by (rule visit_bins_total; simp add: pslice_bins)+

lemma map_option_total: "\<exists>r. x = Some r \<Longrightarrow> \<exists>r. map_option f x = Some r"
  by auto

lemma binSaturated_total:
  assumes "pslice_placed ps" "maxBins ps \<le> 256" "pslice_placed connected"
  shows "\<exists>r. binSaturated over static bin ps connected filt = Some r"
proof -
  obtain d where d: "recalcDepth ps MaxPO filt = Some d"
    using recalcDepth_total [OF assms(1,2)] by blast
  show ?thesis
  proof (cases "bin \<ge> d")
    case True
    then show ?thesis unfolding binSaturated_def d option.case if_P [OF True] by blast
  next
    case False
    then show ?thesis
      unfolding binSaturated_def d option.case if_not_P [OF False]
      by (intro map_option_total EachBin_total(1) assms(3))
  qed
qed

lemma binReachablePeers_total: "pslice_placed (connectedPeers k) \<Longrightarrow> \<exists>r. binReachablePeers filt k bin = Some r"
  unfolding binReachablePeers_def EachPeerRev_def by (rule map_option_total, rule EachBin_total(2))

section \<open>Closest peers\<close>

text \<open>The distance of a peer to an address, as an integer.\<close>

definition xor_dist :: "address \<Rightarrow> address \<Rightarrow> nat" where
  "xor_dist a p = be_nat (map2 (\<lambda>u v. u XOR v) (Bytes p) (Bytes a))"

lemma Closer_xor_dist:
  assumes "length (Bytes p) = length (Bytes a)" "length (Bytes q) = length (Bytes a)"
  shows "Closer p a q = Inr (xor_dist a p < xor_dist a q)"
  by (simp add: assms Closer_def DistanceCmp_def xor_dist_def Let_def
      distance_cmp_loop_be_nat [OF assms [symmetric]])

text \<open>One step of the search for the closest peer among the eligible ones.\<close>

definition closest_step :: "address \<Rightarrow> (address \<Rightarrow> bool) \<Rightarrow> address \<Rightarrow> address \<Rightarrow> address" where
  "closest_step a elig c p =
     (if \<not> elig p then c else if c = ZeroAddress then p
      else if xor_dist a p < xor_dist a c then p else c)"

definition closest_of :: "address \<Rightarrow> (address \<Rightarrow> bool) \<Rightarrow> address \<Rightarrow> address set \<Rightarrow> address \<Rightarrow> bool" where
  "closest_of a elig c S r \<longleftrightarrow>
     (if c = ZeroAddress \<and> (\<forall>p\<in>S. \<not> elig p) then r = ZeroAddress
      else r \<noteq> ZeroAddress \<and> (r = c \<or> r \<in> S \<and> elig r) \<and>
        (\<forall>q\<in>S. elig q \<longrightarrow> xor_dist a r \<le> xor_dist a q) \<and>
        (c \<noteq> ZeroAddress \<longrightarrow> xor_dist a r \<le> xor_dist a c))"

lemma closest_of_step:
  assumes "closest_of a elig (closest_step a elig c p) S r" "p \<noteq> ZeroAddress"
  shows "closest_of a elig c (insert p S) r"
proof (cases "elig p")
  case False
  then show ?thesis using assms by (auto simp: closest_of_def closest_step_def split: if_splits)
next
  case True
  consider "c = ZeroAddress" | "c \<noteq> ZeroAddress" "xor_dist a p < xor_dist a c"
    | "c \<noteq> ZeroAddress" "xor_dist a c \<le> xor_dist a p" by force
  then show ?thesis
    by cases (use True assms in \<open>auto simp: closest_of_def closest_step_def split: if_splits\<close>)
qed

lemma foldl_closest:
  "ZeroAddress \<notin> set xs \<Longrightarrow> closest_of a elig c (set xs) (foldl (closest_step a elig) c xs)"
proof (induction xs arbitrary: c)
  case Nil
  then show ?case by (simp add: closest_of_def)
next
  case (Cons p xs)
  then show ?case
    using closest_of_step [of a elig c p "set xs" "foldl (closest_step a elig) c (p # xs)"] by auto
qed

lemma visit_list_foldl:
  assumes "\<And>p i st. (p, i) \<in> set xs \<Longrightarrow> I st \<Longrightarrow> pf p i st = ((False, nx p i st, er p i st), g st p) \<and> I (g st p)" "I st"
  shows "visit_list pf xs st = foldl g st (map fst xs)"
  using assms
proof (induction xs arbitrary: st)
  case (Cons x xs)
  obtain p i where x: "x = (p, i)" by fastforce
  have "pf p i st = ((False, nx p i st, er p i st), g st p)" "I (g st p)"
    using Cons.prems by (auto simp: x)
  moreover have "visit_list pf xs (g st p) = foldl g (g st p) (map fst xs)"
    using Cons.prems(1) calculation(2) by (intro Cons.IH) auto
  ultimately show ?case by (simp add: x)
qed simp

lemma map_fst_up_pairs: "map fst (up_pairs s) = concat (peers s)"
  by (simp add: up_pairs_def bin_pairs_def map_concat comp_def map_nth)

text \<open>
  All addresses in play have one length, which is not 0: the connected peers, the node's own
  address and the one that is looked up.
\<close>

definition same_length :: "kad \<Rightarrow> address \<Rightarrow> bool" where
  "same_length k a \<longleftrightarrow> Bytes a \<noteq> [] \<and> length (Bytes (base k)) = length (Bytes a) \<and>
     (\<forall>p\<in>pslice_members (connectedPeers k). length (Bytes p) = length (Bytes a))"

definition eligible :: "(address \<Rightarrow> bool) \<Rightarrow> bool \<Rightarrow> address list \<Rightarrow> address \<Rightarrow> bool" where
  "eligible filt reachable skips p \<longleftrightarrow> \<not> (reachable \<and> filt p) \<and> p \<notin> set skips"

lemma ClosestPeer_visit:
  assumes "pslice_wf (connectedPeers k)" "same_length k a" "c = ZeroAddress \<or> length (Bytes c) = length (Bytes a)"
  shows "EachPeerRev filt k (closest_cb a skips) reachable c =
    Some (None, foldl (closest_step a (eligible filt reachable skips)) c (concat (peers (connectedPeers k))))"
proof -
  let ?pf = "\<lambda>p po st. if reachable \<and> filt p then ((False, False, None), st) else closest_cb a skips p po st"
  let ?I = "\<lambda>c. c = ZeroAddress \<or> length (Bytes c) = length (Bytes a)"
  have p: "pslice_placed (connectedPeers k)" using assms(1) by (simp add: pslice_wf_def)
  have mem: "length (Bytes p) = length (Bytes a)" if "(p, i) \<in> set (up_pairs (connectedPeers k))" for p i
  proof -
    have "p \<in> set (concat (peers (connectedPeers k)))"
      using that map_fst_up_pairs by (metis fst_conv image_eqI set_map)
    then show ?thesis using assms(2) by (auto simp: same_length_def pslice_members_def)
  qed
  have "plain_callback ?pf" by (auto simp: plain_callback_def closest_cb_def)
  then have "EachPeerRev filt k (closest_cb a skips) reachable c =
      Some (None, visit_list ?pf (up_pairs (connectedPeers k)) c)"
    by (simp add: EachPeerRev_def EachBinRev_visit [OF p])
  also have "visit_list ?pf (up_pairs (connectedPeers k)) c =
      foldl (closest_step a (eligible filt reachable skips)) c (map fst (up_pairs (connectedPeers k)))"
  proof (rule visit_list_foldl [where I = ?I])
    fix p i st
    assume "(p, i) \<in> set (up_pairs (connectedPeers k))" "?I st"
    with mem show "?pf p i st = ((False, False, None), closest_step a (eligible filt reachable skips) st p) \<and>
        ?I (closest_step a (eligible filt reachable skips) st p)"
      by (auto simp: closest_cb_def closest_step_def eligible_def Closer_xor_dist)
  qed (rule assms(3))
  finally show ?thesis by (simp add: map_fst_up_pairs)
qed

definition candidates :: "(address \<Rightarrow> bool) \<Rightarrow> kad \<Rightarrow> bool \<Rightarrow> address list \<Rightarrow> address set" where
  "candidates filt k reachable skips =
     {p \<in> pslice_members (connectedPeers k). eligible filt reachable skips p}"

lemma ClosestPeer_spec:
  fixes filt reachable skips includeSelf
  assumes "pslice_wf (connectedPeers k)" "same_length k a"
  defines "S \<equiv> candidates filt k reachable skips"
    and "C \<equiv> candidates filt k reachable skips \<union> (if includeSelf \<and> public k then {base k} else {})"
  shows "(\<exists>p. ClosestPeer filt k a includeSelf reachable skips = Some (Inr p) \<and> p \<in> S \<and> p \<noteq> base k \<and>
      (\<forall>q\<in>C. xor_dist a p \<le> xor_dist a q)) \<or>
    (ClosestPeer filt k a includeSelf reachable skips = Some (Inl ErrWantSelf) \<and> base k \<in> C \<and>
      (\<forall>q\<in>C. xor_dist a (base k) \<le> xor_dist a q)) \<or>
    (ClosestPeer filt k a includeSelf reachable skips = Some (Inl ErrPeerNotFound) \<and> S = {} \<and>
      (PSlice_Length (connectedPeers k) = 0 \<or> C = {}))"
proof (cases "PSlice_Length (connectedPeers k) = 0")
  case True
  then have "pslice_members (connectedPeers k) = {}"
    using bins.count [OF assms(1)] by simp
  with True show ?thesis by (simp add: ClosestPeer_def S_def candidates_def)
next
  case False
  let ?ps = "concat (peers (connectedPeers k))"
  let ?c = "if includeSelf \<and> public k then base k else ZeroAddress"
  let ?r = "foldl (closest_step a (eligible filt reachable skips)) ?c ?ps"
  have ps: "set ?ps = pslice_members (connectedPeers k)"
    by (simp add: pslice_members_def)
  have nz: "ZeroAddress \<notin> set ?ps" "base k \<noteq> ZeroAddress"
    using assms(2) unfolding same_length_def ps by force+
  have v: "EachPeerRev filt k (closest_cb a skips) reachable ?c = Some (None, ?r)"
    using ClosestPeer_visit [OF assms(1,2), of ?c] assms(2) by (auto simp: same_length_def)
  have co: "closest_of a (eligible filt reachable skips) ?c (pslice_members (connectedPeers k)) ?r"
    using foldl_closest [OF nz(1)] unfolding ps by blast
  have res: "ClosestPeer filt k a includeSelf reachable skips = Some
      (if ?r = ZeroAddress then Inl ErrPeerNotFound else if ?r = base k then Inl ErrWantSelf else Inr ?r)"
    using False v by (simp add: ClosestPeer_def)
  show ?thesis
    using co nz(2) unfolding res closest_of_def S_def C_def candidates_def
    by (auto split: if_splits)
qed

definition nearest_list :: "address \<Rightarrow> address set \<Rightarrow> nat \<Rightarrow> address list \<Rightarrow> bool" where
  "nearest_list a S n ps \<longleftrightarrow> length ps = min n (card S) \<and> distinct ps \<and> set ps \<subseteq> S \<and>
     sorted_wrt (\<lambda>p q. xor_dist a p \<le> xor_dist a q) ps \<and>
     (\<forall>p\<in>set ps. \<forall>q\<in>S - set ps. xor_dist a p \<le> xor_dist a q)"

lemma nearest_list_Cons:
  assumes "finite S" "p \<in> S" "\<forall>q\<in>S. xor_dist a p \<le> xor_dist a q" "nearest_list a (S - {p}) n ps"
  shows "nearest_list a S (Suc n) (p # ps)"
  using assms by (auto simp: nearest_list_def card_gt_0_iff) (metis Suc_pred card_gt_0_iff empty_iff min_Suc_Suc)+

lemma ClosestPeers_nearest:
  assumes "pslice_wf (connectedPeers k)" "same_length k a" "base k \<notin> pslice_members (connectedPeers k)"
  shows "\<exists>ps. ClosestPeers filt k a n reachable skips out = Some (out @ ps) \<and>
    nearest_list a (candidates filt k reachable skips) n ps"
proof (induction n arbitrary: skips out)
  case 0
  then show ?case by (simp add: nearest_list_def)
next
  case (Suc n)
  have fin: "finite (candidates filt k reachable skips)"
    using bins.count [OF assms(1)] by (simp add: candidates_def)
  have "candidates filt k reachable skips \<subseteq> pslice_members (connectedPeers k)" by (auto simp: candidates_def)
  with ClosestPeer_spec [OF assms(1,2), of filt False reachable skips] assms(3)
  consider (none) "ClosestPeer filt k a False reachable skips = Some (Inl ErrPeerNotFound)"
        "candidates filt k reachable skips = {}"
    | (some) p where "ClosestPeer filt k a False reachable skips = Some (Inr p)"
        "p \<in> candidates filt k reachable skips"
        "\<forall>q\<in>candidates filt k reachable skips. xor_dist a p \<le> xor_dist a q"
    by auto
  then show ?case
  proof cases
    case none
    then show ?thesis by (simp add: nearest_list_def)
  next
    case some
    have "candidates filt k reachable (skips @ [p]) = candidates filt k reachable skips - {p}"
      by (auto simp: candidates_def eligible_def)
    with Suc.IH [of "skips @ [p]" "out @ [p]"] obtain ps where
      "ClosestPeers filt k a n reachable (skips @ [p]) (out @ [p]) = Some ((out @ [p]) @ ps)"
      "nearest_list a (candidates filt k reachable skips - {p}) n ps" by metis
    with some nearest_list_Cons [OF fin some(2,3)] show ?thesis
      by (intro exI [of _ "p # ps"]) simp
  qed
qed

section \<open>Properties\<close>

text \<open>
  C33. \<open>ClosestPeer\<close> returns the closest peer: for addresses of one length, among the connected
  peers that pass the filter and are not skipped, and the node itself when it may be included
  and is public, it returns a peer with the smallest XOR distance to the address, answers
  \<open>ErrWantSelf\<close> only when the node itself is at the smallest distance, and \<open>ErrNotFound\<close> only
  when no peer is eligible.
\<close>

theorem ClosestPeer_closest:
  assumes "pslice_wf (connectedPeers k)" "same_length k a"
  shows "(\<exists>p. ClosestPeer filt k a includeSelf reachable skips = Some (Inr p) \<and>
      p \<in> candidates filt k reachable skips \<and> p \<noteq> base k \<and>
      (\<forall>q\<in>candidates filt k reachable skips \<union> (if includeSelf \<and> public k then {base k} else {}).
         xor_dist a p \<le> xor_dist a q)) \<or>
    (ClosestPeer filt k a includeSelf reachable skips = Some (Inl ErrWantSelf) \<and>
      base k \<in> candidates filt k reachable skips \<union> (if includeSelf \<and> public k then {base k} else {}) \<and>
      (\<forall>q\<in>candidates filt k reachable skips. xor_dist a (base k) \<le> xor_dist a q)) \<or>
    (ClosestPeer filt k a includeSelf reachable skips = Some (Inl ErrPeerNotFound) \<and>
      candidates filt k reachable skips = {} \<and>
      (PSlice_Length (connectedPeers k) = 0 \<or> \<not> (includeSelf \<and> public k)))"
  using ClosestPeer_spec [OF assms, of filt includeSelf reachable skips] by (auto split: if_splits)

definition example_kad :: kad where
  "example_kad = \<lparr>base = Address [0], bitSuffixLength = 3, commonBinPrefixes = [],
     connectedPeers = \<lparr>peers = [[Address [128]], [Address [64], Address [80]]], baseBytes = [0], maxBins = 2\<rparr>,
     knownPeers = \<lparr>peers = [[], []], baseBytes = [0], maxBins = 2\<rparr>,
     depth = 0, radius = 31, public = True, protectPeers = []\<rparr>"

theorem ClosestPeer_closest_witness:
  "\<exists>p. ClosestPeer (\<lambda>_. False) example_kad (Address [81]) False False [Address [80]] = Some (Inr p) \<and>
     p \<in> candidates (\<lambda>_. False) example_kad False [Address [80]]"
proof -
  have "pslice_wf (connectedPeers example_kad)" by code_simp
  moreover have "same_length example_kad (Address [81])" by code_simp
  moreover have "Address [64] \<in> candidates (\<lambda>_. False) example_kad False [Address [80]]"
    by (simp add: candidates_def eligible_def example_kad_def pslice_members_def)
  moreover have "base example_kad \<notin> candidates (\<lambda>_. False) example_kad False [Address [80]]"
    by (simp add: candidates_def example_kad_def pslice_members_def)
  ultimately show ?thesis
    using ClosestPeer_closest [of example_kad "Address [81]" "\<lambda>_. False" False False "[Address [80]]"] by auto
qed

text \<open>
  C34. \<open>ClosestPeers\<close> returns the nearest peers in order: when the node is not among its own
  connected peers, the result is a list of as many eligible peers as there are, up to the
  limit, without repetition, sorted by distance, and no eligible peer outside it is closer
  than one inside.
\<close>

theorem ClosestPeers_k_nearest:
  assumes "pslice_wf (connectedPeers k)" "same_length k a" "base k \<notin> pslice_members (connectedPeers k)"
  shows "\<exists>ps. ClosestPeers filt k a limit reachable skips [] = Some ps \<and>
    nearest_list a (candidates filt k reachable skips) limit ps"
  using ClosestPeers_nearest [OF assms, of filt limit reachable skips "[]"] by simp

theorem ClosestPeers_k_nearest_witness:
  "\<exists>ps. ClosestPeers (\<lambda>_. False) example_kad (Address [81]) 2 False [] [] = Some ps \<and>
    nearest_list (Address [81]) (candidates (\<lambda>_. False) example_kad False []) 2 ps"
proof (rule ClosestPeers_k_nearest)
  show "pslice_wf (connectedPeers example_kad)" "same_length example_kad (Address [81])" by code_simp+
  show "base example_kad \<notin> pslice_members (connectedPeers example_kad)"
    by (simp add: example_kad_def pslice_members_def)
qed



text \<open>
  A bin whose peers are all filtered out is passed over as if it were saturated: with four
  reachable peers in bin 0, only an unreachable one in bin 1 and four reachable ones in bin 2,
  the depth becomes 2, although no peer of the shallower bin 1 is reachable.
\<close>

theorem recalcDepth_skips_filtered_bin:
  "let s = \<lparr>peers = [[Address [128], Address [129], Address [130], Address [131]], [Address [64]],
                     [Address [32], Address [33], Address [34], Address [35]]],
            baseBytes = [0], maxBins = 3\<rparr>;
       unreachable = (\<lambda>p. p = Address [64])
   in pslice_wf s \<and> recalcDepth s MaxPO unreachable = Some 2 \<and>
      filter (\<lambda>p. \<not> unreachable p) (peers s ! 1) = []"
  by code_simp

end
