(* ===== verification/RouteTable.thy ===== *)
theory RouteTable
  imports Boson
begin

text \<open>
  The route table (\<^verbatim>\<open>src/pkg/routetab/table.go\<close>, \<^verbatim>\<open>src/pkg/routetab/utils.go\<close>) and
  the table of pending route requests (\<^verbatim>\<open>src/pkg/routetab/pending.go\<close>). A node learns
  the paths that route messages carry: the items of a path are the nodes it has passed, the
  last one is the neighbour it came from, and every earlier one becomes a target that is
  reached through that neighbour. SHA-256, the conversion of an address to a hash and of a
  time to bytes are parameters (\<open>renv\<close>). The state store, whose errors the code drops, is
  the pair of maps \<open>db_paths\<close> and \<open>db_routes\<close>. One reading \<open>now\<close> of the clock stands for
  the consecutive readings of one call.
\<close>

section \<open>Model\<close>

record 'h renv =
  sha256 :: "bytes \<Rightarrow> 'h"
  hash_bytes :: "'h \<Rightarrow> bytes"
  bytesToHash :: "bytes \<Rightarrow> 'h"
  unixBytes :: "gotime \<Rightarrow> bytes"

definition MaxTTL :: nat where
  "MaxTTL = 10"

definition NeighborAlpha :: nat where
  "NeighborAlpha = 2"

record 'h target_route =
  Neighbor :: address
  PathKey :: 'h

record path =
  Sign :: bytes
  Bodys :: "bytes list"
  Items :: "address list"
  CreateTime :: gotime
  UsedTime :: gotime

record pbpath =
  pbSign :: bytes
  pbBodys :: "bytes list"
  pbItems :: "bytes list"

record 'h table =
  self :: address
  paths :: "'h \<rightharpoonup> path"
  routes :: "'h \<rightharpoonup> 'h target_route list"
  db_paths :: "'h \<rightharpoonup> path"
  db_routes :: "address \<rightharpoonup> 'h target_route list"

datatype route_error = ErrRouteNotFound

subsection \<open>Helpers\<close>

fun inPath :: "bytes \<Rightarrow> bytes list \<Rightarrow> bool" where
  "inPath b [] = False"
| "inPath b (v # vs) = (if v = b then True else inPath b vs)"

definition inPaths :: "bytes list \<Rightarrow> address list \<Rightarrow> bool" where
  "inPaths b p \<longleftrightarrow> (\<exists>v\<in>set p. \<exists>v1\<in>set b. Bytes v = v1)"

definition skipPeers :: "address list \<Rightarrow> address list \<Rightarrow> address list" where
  "skipPeers src skips = filter (\<lambda>v. \<not> MemberOf v skips) src"

definition existRoute :: "'h target_route \<Rightarrow> 'h target_route list \<Rightarrow> bool" where
  "existRoute r rs \<longleftrightarrow> (\<exists>v\<in>set rs. PathKey v = PathKey r \<and> Equal (Neighbor v) (Neighbor r))"

definition generatePathItems :: "'h renv \<Rightarrow> bytes list \<Rightarrow> 'h \<times> address list" where
  "generatePathItems env ps = (sha256 env (concat ps), map NewAddress ps)"

definition convItemsToBytes :: "address list \<Rightarrow> bytes list" where
  "convItemsToBytes items = map Bytes items"

definition verifyPath :: "pbpath \<Rightarrow> bool" where
  "verifyPath p = True"

definition getTargetKey :: "'h renv \<Rightarrow> address \<Rightarrow> 'h" where
  "getTargetKey env target = bytesToHash env (Bytes target)"

definition getPendingReqKey :: "address \<Rightarrow> address \<Rightarrow> string" where
  "getPendingReqKey target nxt = String target @ String nxt"

text \<open>The signature chain of \<^verbatim>\<open>src/pkg/crypto/bls/bls.go\<close>: a hash of the body and the signatures.\<close>

definition bls_Sign :: "'h renv \<Rightarrow> bytes \<Rightarrow> bytes list \<Rightarrow> bytes" where
  "bls_Sign env body signs = hash_bytes env (sha256 env (body @ concat signs))"

subsection \<open>Paths in messages\<close>

text \<open>The loop over the paths keeps the index of the first shortest one.\<close>

fun shortest_loop :: "nat \<Rightarrow> nat \<Rightarrow> nat \<Rightarrow> path list \<Rightarrow> nat" where
  "shortest_loop k minTTL key [] = key"
| "shortest_loop k minTTL key (v # vs) =
     (let l = length (Items v) in
      if k = 0 then shortest_loop (Suc k) l key vs
      else if l < minTTL then shortest_loop (Suc k) l k vs
      else shortest_loop (Suc k) minTTL key vs)"

definition convertPathsToPbPaths :: "'h renv \<Rightarrow> gotime \<Rightarrow> 'h table \<Rightarrow> path list \<Rightarrow> pbpath list" where
  "convertPathsToPbPaths env now t ps =
     (if ps = [] then []
      else
        (let p = ps ! shortest_loop 0 0 0 ps; body = unixBytes env now in
         [\<lparr>pbSign = bls_Sign env body [Sign p], pbBodys = Bodys p @ [body],
           pbItems = convItemsToBytes (Items p) @ [Bytes (self t)]\<rparr>]))"

definition generatePaths :: "'h renv \<Rightarrow> gotime \<Rightarrow> 'h table \<Rightarrow> pbpath list \<Rightarrow> pbpath list" where
  "generatePaths env now t ps =
     (let body = unixBytes env now in
      if ps = []
      then [\<lparr>pbSign = bls_Sign env body [], pbBodys = [body], pbItems = [Bytes (self t)]\<rparr>]
      else map (\<lambda>v. \<lparr>pbSign = bls_Sign env body [pbSign v], pbBodys = pbBodys v @ [body],
                       pbItems = pbItems v @ [Bytes (self t)]\<rparr>) ps)"

subsection \<open>Operations of the table\<close>

definition newRouteTable ::
  "address \<Rightarrow> ('h \<rightharpoonup> path) \<Rightarrow> (address \<rightharpoonup> 'h target_route list) \<Rightarrow> 'h table" where
  "newRouteTable s dbp dbr =
     \<lparr>self = s, paths = Map.empty, routes = Map.empty, db_paths = dbp, db_routes = dbr\<rparr>"

definition IterateTarget :: "address list \<Rightarrow> (address \<Rightarrow> 's \<Rightarrow> 's) \<Rightarrow> 's \<Rightarrow> 's" where
  "IterateTarget items fn s = fold fn (take (length items - 1) items) s"

text \<open>A new route goes to the front of a target's list, which is cut at the limit \<open>alpha\<close>.\<close>

definition push_route :: "nat \<Rightarrow> 'h target_route \<Rightarrow> 'h target_route list \<Rightarrow> 'h target_route list" where
  "push_route alpha r old =
     r # (if length old > alpha then take alpha old
          else if length old = alpha then take (alpha - 1) old
          else old)"

definition save_target ::
  "'h renv \<Rightarrow> nat \<Rightarrow> 'h target_route \<Rightarrow> address \<Rightarrow> 'h table \<Rightarrow> 'h table" where
  "save_target env alpha r target t =
     (let tk = getTargetKey env target;
          put = (\<lambda>rs. t\<lparr>routes := (routes t)(tk \<mapsto> rs), db_routes := (db_routes t)(target \<mapsto> rs)\<rparr>)
      in case routes t tk of
           Some old \<Rightarrow>
             (if length old > 0 then
                (if existRoute r old then t else put (push_route alpha r old))
              else put [r])
         | None \<Rightarrow> put [r])"

definition SavePath :: "'h renv \<Rightarrow> nat \<Rightarrow> gotime \<Rightarrow> pbpath \<Rightarrow> 'h table \<Rightarrow> 'h table" where
  "SavePath env alpha now p t =
     (if \<not> verifyPath p then t
      else if length (pbItems p) < 2 then t
      else
        (let (pathKey, items) = generatePathItems env (pbItems p);
             pt = \<lparr>Sign = pbSign p, Bodys = pbBodys p, Items = items, CreateTime = now, UsedTime = now\<rparr>;
             t1 = t\<lparr>paths := (paths t)(pathKey \<mapsto> pt), db_paths := (db_paths t)(pathKey \<mapsto> pt)\<rparr>;
             r = \<lparr>Neighbor = items ! (length items - 1), PathKey = pathKey\<rparr>
         in IterateTarget items (save_target env alpha r) t1))"

definition SavePaths :: "'h renv \<Rightarrow> nat \<Rightarrow> gotime \<Rightarrow> pbpath list \<Rightarrow> 'h table \<Rightarrow> 'h table" where
  "SavePaths env alpha now ps t = fold (SavePath env alpha now) ps t"

definition Table_Get :: "'h renv \<Rightarrow> address \<Rightarrow> 'h table \<Rightarrow> route_error + path list" where
  "Table_Get env target t =
     (case routes t (getTargetKey env target) of
        None \<Rightarrow> Inl ErrRouteNotFound
      | Some rs \<Rightarrow>
          (let ps = List.map_filter (\<lambda>v. paths t (PathKey v)) rs in
           if length ps = 0 then Inl ErrRouteNotFound else Inr ps))"

fun update_used :: "gotime \<Rightarrow> address \<Rightarrow> 'h target_route list \<Rightarrow> ('h \<rightharpoonup> path) \<Rightarrow> ('h \<rightharpoonup> path)" where
  "update_used now neighbor [] ps = ps"
| "update_used now neighbor (v # vs) ps =
     update_used now neighbor vs
       (if \<not> Equal (Neighbor v) neighbor then ps
        else case ps (PathKey v) of
               None \<Rightarrow> ps
             | Some p \<Rightarrow>
                 if time_sub now (UsedTime p) > 0 then ps(PathKey v \<mapsto> p\<lparr>UsedTime := now\<rparr>) else ps)"

definition updateUsedTime :: "'h renv \<Rightarrow> gotime \<Rightarrow> address \<Rightarrow> address \<Rightarrow> 'h table \<Rightarrow> 'h table" where
  "updateUsedTime env now target neighbor t =
     (case routes t (getTargetKey env target) of
        None \<Rightarrow> t
      | Some rs \<Rightarrow> t\<lparr>paths := update_used now neighbor rs (paths t)\<rparr>)"

text \<open>Go ranges over a map here, so the order of the result is not fixed; its elements are.\<close>

definition GetNextHop :: "'h renv \<Rightarrow> address \<Rightarrow> address list \<Rightarrow> 'h table \<Rightarrow> address list" where
  "GetNextHop env target skips t =
     (case routes t (getTargetKey env target) of
        None \<Rightarrow> []
      | Some rs \<Rightarrow> remdups (filter (\<lambda>v. \<not> MemberOf v skips) (map Neighbor rs)))"

definition delete_target :: "'h renv \<Rightarrow> 'h \<Rightarrow> address \<Rightarrow> 'h table \<Rightarrow> 'h table" where
  "delete_target env pathKey target t =
     (let tk = getTargetKey env target in
      case routes t tk of
        None \<Rightarrow> t
      | Some rs \<Rightarrow>
          (let routesNow = filter (\<lambda>v. PathKey v \<noteq> pathKey) rs in
           if length routesNow < length rs then t\<lparr>routes := (routes t)(tk \<mapsto> routesNow)\<rparr> else t))"

definition Table_Delete :: "'h renv \<Rightarrow> path \<Rightarrow> 'h table \<Rightarrow> 'h table" where
  "Table_Delete env p t =
     (let pathKey = fst (generatePathItems env (convItemsToBytes (Items p)));
          t1 = t\<lparr>paths := (paths t)(pathKey := None), db_paths := (db_paths t)(pathKey := None)\<rparr>
      in IterateTarget (Items p) (delete_target env pathKey) t1)"

definition milliseconds :: "duration \<Rightarrow> int" where
  "milliseconds d = tdiv d 1000000"

text \<open>\<open>Range\<close> visits the keys in some order.\<close>

fun Table_Gc :: "'h renv \<Rightarrow> gotime \<Rightarrow> duration \<Rightarrow> 'h list \<Rightarrow> 'h table \<Rightarrow> 'h table" where
  "Table_Gc env now expire [] t = t"
| "Table_Gc env now expire (k # ks) t =
     Table_Gc env now expire ks
       (case paths t k of
          None \<Rightarrow> t
        | Some p \<Rightarrow>
            if milliseconds (time_sub now (UsedTime p)) > milliseconds expire
            then Table_Delete env p t else t)"

text \<open>At the start of the node both maps are read back from the store.\<close>

definition ResumePaths :: "'h table \<Rightarrow> 'h table" where
  "ResumePaths t =
     t\<lparr>paths := (\<lambda>k. case db_paths t k of
          Some p \<Rightarrow> if length (Items p) \<le> MaxTTL then Some p else paths t k
        | None \<Rightarrow> paths t k)\<rparr>"

definition ResumeRoutes :: "'h renv \<Rightarrow> address list \<Rightarrow> 'h table \<Rightarrow> 'h table" where
  "ResumeRoutes env targets t =
     fold (\<lambda>target t. case db_routes t target of
             None \<Rightarrow> t
           | Some rs \<Rightarrow> t\<lparr>routes := (routes t)(getTargetKey env target \<mapsto> rs)\<rparr>) targets t"

section \<open>Pending requests\<close>

definition PendingTimeout :: duration where
  "PendingTimeout = second * 5"

text \<open>A waiting caller: its address, the time, and its channel, if it has one.\<close>

record 'c pend_item =
  Src :: address
  pCreateTime :: gotime
  ResCh :: "'c option"

record ('h, 'c) pend_tab =
  respList :: "'h \<rightharpoonup> 'c pend_item list"
  reqList :: "string \<rightharpoonup> gotime"

definition newPendCallResTab :: "('h, 'c) pend_tab" where
  "newPendCallResTab = \<lparr>respList = Map.empty, reqList = Map.empty\<rparr>"

definition Pend_Delete :: "'h renv \<Rightarrow> address \<Rightarrow> address \<Rightarrow> ('h, 'c) pend_tab \<Rightarrow> ('h, 'c) pend_tab" where
  "Pend_Delete env target nxt pd =
     pd\<lparr>respList := (respList pd)(getTargetKey env target := None),
        reqList := (reqList pd)(getPendingReqKey target nxt := None)\<rparr>"

definition Pend_Add ::
  "'h renv \<Rightarrow> gotime \<Rightarrow> address \<Rightarrow> address \<Rightarrow> address \<Rightarrow> 'c option \<Rightarrow> ('h, 'c) pend_tab \<Rightarrow> bool \<times> ('h, 'c) pend_tab" where
  "Pend_Add env now target src nxt ch pd =
     (let pending = \<lparr>Src = src, pCreateTime = now, ResCh = ch\<rparr>;
          key = getTargetKey env target;
          pd1 = pd\<lparr>respList := (respList pd)(key \<mapsto>
                  (case respList pd key of Some res \<Rightarrow> res @ [pending] | None \<Rightarrow> [pending]))\<rparr>;
          reqKey = getPendingReqKey target nxt
      in case reqList pd1 reqKey of
           Some _ \<Rightarrow> (True, pd1)
         | None \<Rightarrow> (False, pd1\<lparr>reqList := (reqList pd1)(reqKey \<mapsto> now)\<rparr>))"

definition Pend_Get ::
  "'h renv \<Rightarrow> address \<Rightarrow> address \<Rightarrow> ('h, 'c) pend_tab \<Rightarrow> 'c pend_item list \<times> ('h, 'c) pend_tab" where
  "Pend_Get env target nxt pd =
     (let key = getTargetKey env target in
      case respList pd key of
        Some res \<Rightarrow>
          (res, pd\<lparr>respList := (respList pd)(key := None),
                   reqList := (reqList pd)(getPendingReqKey target nxt := None)\<rparr>)
      | None \<Rightarrow> ([], pd))"

definition GcReqLog :: "gotime \<Rightarrow> duration \<Rightarrow> ('h, 'c) pend_tab \<Rightarrow> ('h, 'c) pend_tab" where
  "GcReqLog now expire pd =
     pd\<lparr>reqList := (\<lambda>k. case reqList pd k of
          None \<Rightarrow> None
        | Some t \<Rightarrow> if milliseconds (time_sub now t) \<ge> milliseconds expire then None else Some t)\<rparr>"

definition fresh_item :: "gotime \<Rightarrow> duration \<Rightarrow> 'c pend_item \<Rightarrow> bool" where
  "fresh_item now expire v \<longleftrightarrow> milliseconds (time_sub now (pCreateTime v)) < milliseconds expire"

text \<open>The index of the first item that has not expired, 0 when there is none.\<close>

fun expire_index :: "gotime \<Rightarrow> duration \<Rightarrow> nat \<Rightarrow> 'c pend_item list \<Rightarrow> nat" where
  "expire_index now expire k [] = 0"
| "expire_index now expire k (v # vs) =
     (if fresh_item now expire v then k else expire_index now expire (Suc k) vs)"

text \<open>
  The collection of one target; \<open>item[0]\<close> panics on an empty slice, which the map never
  holds. The outer \<open>None\<close> is the panic, the inner one the deletion of the key.
\<close>

definition gc_items :: "gotime \<Rightarrow> duration \<Rightarrow> 'c pend_item list \<Rightarrow> 'c pend_item list option option" where
  "gc_items now expire items =
     (case items of
        [] \<Rightarrow> None
      | v # vs \<Rightarrow>
          if fresh_item now expire v then Some (Some items)
          else
            (let expireK = expire_index now expire 0 items in
             if expireK = 0 then Some None else Some (Some (drop expireK items))))"

text \<open>Go ranges over the keys in some order.\<close>

fun GcResItems :: "gotime \<Rightarrow> duration \<Rightarrow> 'h list \<Rightarrow> ('h, 'c) pend_tab \<Rightarrow> ('h, 'c) pend_tab option" where
  "GcResItems now expire [] pd = Some pd"
| "GcResItems now expire (k # ks) pd =
     (case respList pd k of
        None \<Rightarrow> GcResItems now expire ks pd
      | Some items \<Rightarrow>
          (case gc_items now expire items of
             None \<Rightarrow> None
           | Some r \<Rightarrow> GcResItems now expire ks (pd\<lparr>respList := (respList pd)(k := r)\<rparr>)))"

section \<open>Invariant of the table\<close>

text \<open>
  The paths of a table: their items are addresses of 32 bytes, at least 2 and at most
  \<open>MaxTTL\<close> of them, without the node itself; \<open>U\<close> are the encodings of the paths that are met,
  on which SHA-256 has no collisions.
\<close>

definition path_key :: "'h renv \<Rightarrow> address list \<Rightarrow> 'h" where
  "path_key env items = sha256 env (concat (map Bytes items))"

definition items_ok :: "bytes set \<Rightarrow> address \<Rightarrow> address list \<Rightarrow> bool" where
  "items_ok U s items \<longleftrightarrow> 2 \<le> length items \<and> length items \<le> MaxTTL \<and> s \<notin> set items \<and>
     (\<forall>a\<in>set items. length (Bytes a) = 32) \<and> concat (map Bytes items) \<in> U"

definition route_ok :: "'h renv \<Rightarrow> ('h \<rightharpoonup> path) \<Rightarrow> 'h \<Rightarrow> 'h target_route \<Rightarrow> bool" where
  "route_ok env ps tk r \<longleftrightarrow> (\<exists>p. ps (PathKey r) = Some p \<and> Neighbor r = last (Items p) \<and>
     tk \<in> getTargetKey env ` set (butlast (Items p)))"

definition routes_ok :: "'h renv \<Rightarrow> nat \<Rightarrow> ('h \<rightharpoonup> path) \<Rightarrow> ('h \<rightharpoonup> 'h target_route list) \<Rightarrow> bool" where
  "routes_ok env alpha ps rts \<longleftrightarrow> (\<forall>tk rs. rts tk = Some rs \<longrightarrow>
     length rs \<le> alpha \<and> distinct rs \<and> (\<forall>r\<in>set rs. route_ok env ps tk r))"

definition table_inv :: "'h renv \<Rightarrow> bytes set \<Rightarrow> nat \<Rightarrow> 'h table \<Rightarrow> bool" where
  "table_inv env U alpha t \<longleftrightarrow>
     (\<forall>k p. paths t k = Some p \<longrightarrow> k = path_key env (Items p) \<and> items_ok U (self t) (Items p)) \<and>
     routes_ok env alpha (paths t) (routes t)"

lemma inPath_iff [simp]: "inPath b p \<longleftrightarrow> b \<in> set p"
  by (induction p) auto

lemma concat_fixed_inject:
  assumes "concat xs = concat ys" "\<forall>x\<in>set xs. length x = n" "\<forall>y\<in>set ys. length y = n" "0 < n"
  shows "xs = ys"
proof -
  have l: "length (concat zs) = n * length zs" if "\<forall>z\<in>set zs. length z = n" for zs :: "'a list list"
    using that by (induction zs) auto
  have "length xs = length ys"
    using l [OF assms(2)] l [OF assms(3)] assms(1,4) by simp
  moreover have "\<forall>(x, y)\<in>set (zip xs ys). length x = length y"
    using assms(2,3) by clarsimp (metis set_zip_leftD set_zip_rightD)
  ultimately show ?thesis using concat_injective [OF assms(1)] by blast
qed

lemma path_key_inject:
  assumes "inj_on (sha256 env) U" "items_ok U s xs" "items_ok U s' ys" "path_key env xs = path_key env ys"
  shows "xs = ys"
proof -
  have "concat (map Bytes xs) = concat (map Bytes ys)"
    using assms by (auto simp: path_key_def items_ok_def inj_on_def)
  then have "map Bytes xs = map Bytes ys"
    by (rule concat_fixed_inject [where n = 32]) (use assms in \<open>auto simp: items_ok_def\<close>)
  then show ?thesis by (rule map_injective) (simp add: inj_def address.expand)
qed

lemma length_push_route: "1 \<le> alpha \<Longrightarrow> length old \<le> alpha \<Longrightarrow> length (push_route alpha r old) \<le> alpha"
  by (auto simp: push_route_def)

lemma set_push_route: "set (push_route alpha r old) \<subseteq> insert r (set old)"
  by (auto simp: push_route_def dest: in_set_takeD)

lemma distinct_push_route: "distinct old \<Longrightarrow> \<not> existRoute r old \<Longrightarrow> distinct (push_route alpha r old)"
  by (auto simp: push_route_def existRoute_def dest: in_set_takeD)

lemma save_target_paths [simp]:
  "paths (save_target env alpha r target t) = paths t" "self (save_target env alpha r target t) = self t"
  by (auto simp: save_target_def Let_def split: option.splits)

lemma save_target_routes:
  assumes "1 \<le> alpha" "routes_ok env alpha (paths t) (routes t)" "route_ok env (paths t) (getTargetKey env target) r"
  shows "routes_ok env alpha (paths t) (routes (save_target env alpha r target t))"
  unfolding routes_ok_def
proof (intro allI impI)
  fix tk rs
  assume rs: "routes (save_target env alpha r target t) tk = Some rs"
  show "length rs \<le> alpha \<and> distinct rs \<and> (\<forall>r\<in>set rs. route_ok env (paths t) tk r)"
  proof (cases "routes t tk = Some rs")
    case True
    then show ?thesis using assms(2) by (simp add: routes_ok_def)
  next
    case False
    then consider "tk = getTargetKey env target" "rs = [r]"
      | old where "tk = getTargetKey env target" "routes t tk = Some old" "\<not> existRoute r old" "rs = push_route alpha r old"
      using rs by (auto simp: save_target_def Let_def split: option.splits if_splits)
    then show ?thesis
    proof cases
      case 1
      then show ?thesis using assms by simp
    next
      case 2
      then have "length old \<le> alpha" "distinct old" "\<forall>r\<in>set old. route_ok env (paths t) tk r"
        using assms(2) by (auto simp: routes_ok_def)
      moreover have "route_ok env (paths t) tk r" using 2(1) assms(3) by simp
      ultimately show ?thesis
        using 2(3,4) length_push_route [OF assms(1), of old r] distinct_push_route [of old r alpha]
          set_push_route [of alpha r old] by (metis insertE subsetD)
    qed
  qed
qed

lemma save_targets_inv:
  assumes "1 \<le> alpha" "table_inv env U alpha t" "\<forall>target\<in>set ts. route_ok env (paths t) (getTargetKey env target) r"
  shows "table_inv env U alpha (fold (save_target env alpha r) ts t)"
  using assms(2,3)
proof (induction ts arbitrary: t)
  case (Cons target ts)
  have "routes_ok env alpha (paths t) (routes (save_target env alpha r target t))"
    using Cons.prems by (intro save_target_routes assms(1)) (simp_all add: table_inv_def)
  then have "table_inv env U alpha (save_target env alpha r target t)"
    using Cons.prems(1) by (simp add: table_inv_def)
  with Cons.IH [of "save_target env alpha r target t"] Cons.prems(2) show ?case by simp
qed simp

text \<open>A path of a message that a node accepts.\<close>

definition acceptable :: "bytes set \<Rightarrow> address \<Rightarrow> pbpath \<Rightarrow> bool" where
  "acceptable U s p \<longleftrightarrow> length (pbItems p) \<le> MaxTTL \<and> Bytes s \<notin> set (pbItems p) \<and>
     (\<forall>b\<in>set (pbItems p). length b = 32) \<and> concat (pbItems p) \<in> U"

lemma acceptable_items:
  assumes "acceptable U s p" "2 \<le> length (pbItems p)"
  shows "items_ok U s (map NewAddress (pbItems p))"
  using assms by (auto simp: acceptable_def items_ok_def NewAddress_def comp_def image_iff)

lemma SavePath_table_inv:
  assumes "inj_on (sha256 env) U" "1 \<le> alpha" "table_inv env U alpha t" "acceptable U (self t) p"
  shows "table_inv env U alpha (SavePath env alpha now p t)"
proof (cases "length (pbItems p) < 2")
  case True
  then show ?thesis using assms(3) by (simp add: SavePath_def)
next
  case False
  let ?items = "map NewAddress (pbItems p)"
  let ?k = "path_key env ?items"
  let ?pt = "\<lparr>Sign = pbSign p, Bodys = pbBodys p, Items = ?items, CreateTime = now, UsedTime = now\<rparr>"
  let ?t1 = "t\<lparr>paths := (paths t)(?k \<mapsto> ?pt), db_paths := (db_paths t)(?k \<mapsto> ?pt)\<rparr>"
  let ?r = "\<lparr>Neighbor = last ?items, PathKey = ?k\<rparr>"
  have ok: "items_ok U (self t) ?items" using acceptable_items [OF assms(4)] False by simp
  have ne: "?items \<noteq> []" using False by auto
  have key: "sha256 env (concat (pbItems p)) = ?k"
    by (simp add: path_key_def comp_def NewAddress_def)
  have save: "SavePath env alpha now p t = fold (save_target env alpha ?r) (butlast ?items) ?t1"
    using False ne by (simp add: SavePath_def verifyPath_def generatePathItems_def IterateTarget_def
        key Let_def last_conv_nth butlast_conv_take)
  have keep: "route_ok env (paths ?t1) tk r" if r: "route_ok env (paths t) tk r" for tk r
  proof (cases "PathKey r = ?k")
    case True
    obtain q where q: "paths t ?k = Some q" "Neighbor r = last (Items q)" "tk \<in> getTargetKey env ` set (butlast (Items q))"
      using r True by (auto simp: route_ok_def)
    then have "Items q = ?items"
      using assms(1,3) ok by (intro path_key_inject [of env U "self t" _ "self t"]) (auto simp: table_inv_def)
    with q True show ?thesis by (simp add: route_ok_def)
  next
    case False
    then show ?thesis using r by (auto simp: route_ok_def)
  qed
  have "table_inv env U alpha ?t1"
    using assms(3) ok keep by (auto simp: table_inv_def routes_ok_def)
  then show ?thesis
    unfolding save by (rule save_targets_inv [OF assms(2)]) (auto simp: route_ok_def)
qed

lemma fold_delete_routes:
  "routes (fold (delete_target env K) ts t) tk =
     (if tk \<in> getTargetKey env ` set ts then map_option (filter (\<lambda>v. PathKey v \<noteq> K)) (routes t tk) else routes t tk)
   \<and> paths (fold (delete_target env K) ts t) = paths t \<and> self (fold (delete_target env K) ts t) = self t"
proof (induction ts arbitrary: t)
  case (Cons target ts)
  have 1: "routes (delete_target env K target t) tk = (if tk = getTargetKey env target
      then map_option (filter (\<lambda>v. PathKey v \<noteq> K)) (routes t tk) else routes t tk)"
    by (auto simp: delete_target_def Let_def not_less filter_id_conv length_filter_less split: option.splits)
      (metis filter_True le_antisym length_filter_le length_filter_less linorder_not_less)
  have 2: "paths (delete_target env K target t) = paths t" "self (delete_target env K target t) = self t"
    by (auto simp: delete_target_def Let_def split: option.splits)
  show ?case
    using Cons.IH [of "delete_target env K target t"] 1 2
    by (auto simp: option.map_comp comp_def)
qed simp

lemma Delete_routes:
  fixes env
  defines "K p \<equiv> path_key env (Items p)"
  shows "paths (Table_Delete env p t) = (paths t)(K p := None) \<and> self (Table_Delete env p t) = self t \<and>
    routes (Table_Delete env p t) tk =
      (if tk \<in> getTargetKey env ` set (butlast (Items p))
       then map_option (filter (\<lambda>v. PathKey v \<noteq> K p)) (routes t tk) else routes t tk)"
  using fold_delete_routes [of env "K p" "butlast (Items p)"]
  by (simp add: Table_Delete_def generatePathItems_def convItemsToBytes_def IterateTarget_def Let_def
      K_def path_key_def butlast_conv_take)

lemma Delete_table_inv:
  assumes "inj_on (sha256 env) U" "table_inv env U alpha t" "items_ok U (self t) (Items p)"
  shows "table_inv env U alpha (Table_Delete env p t)"
proof -
  let ?K = "path_key env (Items p)" and ?t = "Table_Delete env p t"
  note d = Delete_routes [of env p t]
  have "length rs \<le> alpha \<and> distinct rs \<and> (\<forall>r\<in>set rs. route_ok env (paths ?t) tk r)"
    if rs: "routes ?t tk = Some rs" for tk rs
  proof -
    obtain rs0 where rs0: "routes t tk = Some rs0"
      "rs = (if tk \<in> getTargetKey env ` set (butlast (Items p)) then filter (\<lambda>v. PathKey v \<noteq> ?K) rs0 else rs0)"
      using rs d [of tk] by (auto split: if_splits)
    then have inv: "length rs0 \<le> alpha" "distinct rs0" "\<forall>r\<in>set rs0. route_ok env (paths t) tk r"
      using assms(2) by (auto simp: table_inv_def routes_ok_def)
    have "PathKey r \<noteq> ?K" if r: "r \<in> set rs" for r
    proof
      assume K: "PathKey r = ?K"
      have "r \<in> set rs0" "tk \<notin> getTargetKey env ` set (butlast (Items p))"
        using r rs0(2) K by (auto split: if_splits)
      moreover from this obtain q where q: "paths t ?K = Some q" "tk \<in> getTargetKey env ` set (butlast (Items q))"
        using inv(3) K by (auto simp: route_ok_def)
      moreover have "Items q = Items p"
        using assms q by (intro path_key_inject [of env U "self t" _ "self t"]) (auto simp: table_inv_def)
      ultimately show False by simp
    qed
    moreover have "length rs \<le> length rs0" "distinct rs" "set rs \<subseteq> set rs0"
      using rs0(2) inv(2) by (auto simp: length_filter_le)
    ultimately show ?thesis
      using inv d [of tk] by (fastforce simp: route_ok_def)
  qed
  moreover have "k = path_key env (Items q) \<and> items_ok U (self ?t) (Items q)" if "paths ?t k = Some q" for k q
    using that assms(2) d by (auto simp: table_inv_def split: if_splits)
  ultimately show ?thesis by (auto simp: table_inv_def routes_ok_def)
qed

lemma update_used_Items: "map_option Items (update_used now nb rs ps k) = map_option Items (ps k)"
proof (induction rs arbitrary: ps)
  case (Cons v rs)
  show ?case
    by (simp add: Cons.IH split: option.splits)
qed simp

lemma table_inv_Items:
  assumes "table_inv env U alpha t" "\<And>k. map_option Items (ps k) = map_option Items (paths t k)"
  shows "table_inv env U alpha (t\<lparr>paths := ps\<rparr>)"
proof -
  have p: "\<exists>q. paths t k = Some q \<and> Items q = Items p" if "ps k = Some p" for k p
    using assms(2) [of k] that by (cases "paths t k") auto
  have q: "\<exists>p. ps k = Some p \<and> Items p = Items q" if "paths t k = Some q" for k q
    using assms(2) [of k] that by (cases "ps k") auto
  have "route_ok env ps tk r" if "route_ok env (paths t) tk r" for tk r
    using that q unfolding route_ok_def by metis
  moreover have "k = path_key env (Items p) \<and> items_ok U (self t) (Items p)" if "ps k = Some p" for k p
    using p [OF that] assms(1) unfolding table_inv_def by metis
  ultimately show ?thesis
    using assms(1) by (simp add: table_inv_def routes_ok_def)
qed

lemma updateUsedTime_inv: "table_inv env U alpha t \<Longrightarrow> table_inv env U alpha (updateUsedTime env now target nb t)"
  by (auto simp: updateUsedTime_def update_used_Items intro: table_inv_Items split: option.splits)

lemma updateUsedTime_self [simp]: "self (updateUsedTime env now target nb t) = self t"
  by (simp add: updateUsedTime_def split: option.splits)

lemma Delete_self [simp]: "self (Table_Delete env p t) = self t"
  using Delete_routes by metis

definition expired :: "gotime \<Rightarrow> duration \<Rightarrow> path \<Rightarrow> bool" where
  "expired now expire p \<longleftrightarrow> milliseconds (time_sub now (UsedTime p)) > milliseconds expire"

lemma Gc_step_inv:
  assumes "inj_on (sha256 env) U" "table_inv env U alpha t"
  shows "table_inv env U alpha (Table_Gc env now ex ks t) \<and> self (Table_Gc env now ex ks t) = self t \<and>
    (\<forall>k. paths (Table_Gc env now ex ks t) k =
       (case paths t k of None \<Rightarrow> None | Some p \<Rightarrow> if k \<in> set ks \<and> expired now ex p then None else Some p))"
  using assms(2)
proof (induction ks arbitrary: t)
  case (Cons k ks)
  let ?t = "case paths t k of None \<Rightarrow> t
    | Some p \<Rightarrow> if milliseconds (time_sub now (UsedTime p)) > milliseconds ex then Table_Delete env p t else t"
  have inv: "table_inv env U alpha ?t"
    using Cons.prems Delete_table_inv [OF assms(1) Cons.prems]
    by (auto simp: table_inv_def split: option.splits)
  have p: "paths ?t j = (if j = k then (case paths t k of None \<Rightarrow> None | Some p \<Rightarrow> if expired now ex p then None else Some p)
      else paths t j)" for j
  proof (cases "paths t k")
    case (Some p)
    have "paths (Table_Delete env p t) = (paths t)(path_key env (Items p) := None)" using Delete_routes by metis
    moreover have "k = path_key env (Items p)" using Some Cons.prems by (simp add: table_inv_def)
    ultimately show ?thesis using Some by (simp add: expired_def)
  qed simp
  have s: "self ?t = self t" by (simp split: option.splits)
  show ?case
    using Cons.IH [OF inv] p s by (auto split: option.splits)
qed (auto split: option.splits)

lemma save_targets_self [simp]: "self (fold (save_target env alpha r) ts t) = self t"
  by (induction ts arbitrary: t) simp_all

lemma SavePath_self [simp]: "self (SavePath env alpha now p t) = self t"
  by (simp add: SavePath_def IterateTarget_def Let_def split: prod.splits)

lemma Delete_all_inv:
  assumes "inj_on (sha256 env) U" "table_inv env U alpha t" "\<forall>p\<in>set ps. items_ok U (self t) (Items p)"
  shows "table_inv env U alpha (fold (Table_Delete env) ps t) \<and> self (fold (Table_Delete env) ps t) = self t"
  using assms(2,3)
proof (induction ps arbitrary: t)
  case (Cons p ps)
  then have "table_inv env U alpha (Table_Delete env p t)" by (intro Delete_table_inv [OF assms(1)]) auto
  with Cons.IH [of "Table_Delete env p t"] Cons.prems show ?case by simp
qed simp

section \<open>Runs\<close>

datatype 'h table_op =
    OpSave gotime pbpath
  | OpDelRoute address
  | OpGc gotime duration "'h list"
  | OpUsed gotime address address

text \<open>The calls that the service makes on its table.\<close>

fun table_app :: "'h renv \<Rightarrow> nat \<Rightarrow> 'h table_op \<Rightarrow> 'h table \<Rightarrow> 'h table" where
  "table_app env alpha (OpSave now p) t = SavePath env alpha now p t"
| "table_app env alpha (OpDelRoute target) t =
     (case Table_Get env target t of Inl e \<Rightarrow> t | Inr ps \<Rightarrow> fold (Table_Delete env) ps t)"
| "table_app env alpha (OpGc now ex ks) t = Table_Gc env now ex ks t"
| "table_app env alpha (OpUsed now target nb) t = updateUsedTime env now target nb t"

fun op_acceptable :: "bytes set \<Rightarrow> address \<Rightarrow> 'h table_op \<Rightarrow> bool" where
  "op_acceptable U s (OpSave now p) = acceptable U s p"
| "op_acceptable U s x = True"

lemma Table_Get_mem:
  assumes "Table_Get env target t = Inr ps" "p \<in> set ps"
  shows "\<exists>k. paths t k = Some p"
  using assms
  by (auto simp: Table_Get_def Let_def List.map_filter_def split: option.splits if_splits) blast

lemma table_app_inv:
  assumes "inj_on (sha256 env) U" "1 \<le> alpha" "table_inv env U alpha t" "op_acceptable U (self t) x"
  shows "table_inv env U alpha (table_app env alpha x t) \<and> self (table_app env alpha x t) = self t"
proof (cases x)
  case (OpDelRoute target)
  have "\<forall>p\<in>set ps. items_ok U (self t) (Items p)" if "Table_Get env target t = Inr ps" for ps
    using Table_Get_mem [OF that] assms(3) by (auto simp: table_inv_def)
  with OpDelRoute Delete_all_inv [OF assms(1,3)] assms(3) show ?thesis by (auto split: sum.splits)
next
  case (OpGc now ex ks)
  then show ?thesis using Gc_step_inv [OF assms(1,3), of now ex ks] by simp
qed (use assms SavePath_table_inv updateUsedTime_inv in auto)

lemma table_run_inv:
  assumes "inj_on (sha256 env) U" "1 \<le> alpha" "table_inv env U alpha t" "\<forall>x\<in>set xs. op_acceptable U (self t) x"
  shows "table_inv env U alpha (fold (table_app env alpha) xs t) \<and> self (fold (table_app env alpha) xs t) = self t"
  using assms(3,4)
proof (induction xs arbitrary: t)
  case (Cons x xs)
  with table_app_inv [OF assms(1,2) Cons.prems(1), of x] show ?case by simp
qed simp

lemma newRouteTable_inv: "table_inv env U alpha (newRouteTable s Map.empty Map.empty)"
  by (simp add: table_inv_def routes_ok_def newRouteTable_def)


lemma save_target_exists:
  assumes "tk = getTargetKey env target \<or> (\<exists>rs. routes t tk = Some rs \<and> existRoute r rs)"
  shows "\<exists>rs. routes (save_target env alpha r target t) tk = Some rs \<and> existRoute r rs"
  using assms
  by (auto simp: save_target_def Let_def existRoute_def push_route_def split: option.splits)

lemma save_targets_exist:
  assumes "tk \<in> getTargetKey env ` set ts \<or> (\<exists>rs. routes t tk = Some rs \<and> existRoute r rs)"
  shows "\<exists>rs. routes (fold (save_target env alpha r) ts t) tk = Some rs \<and> existRoute r rs"
  using assms
proof (induction ts arbitrary: t)
  case (Cons target ts)
  show ?case
    using Cons.IH [of "save_target env alpha r target t"] Cons.prems save_target_exists [of tk env target t r alpha]
    by auto
qed auto

lemma save_targets_paths [simp]: "paths (fold (save_target env alpha r) ts t) = paths t"
  by (induction ts arbitrary: t) simp_all

lemma SavePath_learns:
  assumes "2 \<le> length (pbItems p)" "a \<in> set (butlast (map NewAddress (pbItems p)))"
  defines "items \<equiv> map NewAddress (pbItems p)"
  shows "\<exists>q. paths (SavePath env alpha now p t) (path_key env items) = Some q \<and> Items q = items \<and>
    (\<exists>rs. routes (SavePath env alpha now p t) (getTargetKey env a) = Some rs \<and>
       existRoute \<lparr>Neighbor = last items, PathKey = path_key env items\<rparr> rs)"
proof -
  let ?k = "path_key env items"
  let ?pt = "\<lparr>Sign = pbSign p, Bodys = pbBodys p, Items = items, CreateTime = now, UsedTime = now\<rparr>"
  let ?t1 = "t\<lparr>paths := (paths t)(?k \<mapsto> ?pt), db_paths := (db_paths t)(?k \<mapsto> ?pt)\<rparr>"
  let ?r = "\<lparr>Neighbor = last items, PathKey = ?k\<rparr>"
  have ne: "items \<noteq> []" using assms(1) by (auto simp: items_def)
  have key: "sha256 env (concat (pbItems p)) = ?k"
    by (simp add: path_key_def items_def comp_def NewAddress_def)
  have save: "SavePath env alpha now p t = fold (save_target env alpha ?r) (butlast items) ?t1"
    using assms(1) ne by (simp add: SavePath_def verifyPath_def generatePathItems_def IterateTarget_def
        key Let_def last_conv_nth butlast_conv_take items_def)
  show ?thesis
    unfolding save using save_targets_exist [of "getTargetKey env a" env "butlast items" ?t1 ?r alpha] assms(2)
    by (simp add: items_def)
qed

section \<open>Waiting callers\<close>

lemma expire_index_dropWhile:
  "expire_index now expire k items =
     (if \<exists>v\<in>set items. fresh_item now expire v then k + length (takeWhile (\<lambda>v. \<not> fresh_item now expire v) items) else 0)"
  by (induction items arbitrary: k) auto


lemma gc_items_dropWhile:
  assumes "items \<noteq> []"
  shows "gc_items now expire items =
     Some (let r = dropWhile (\<lambda>v. \<not> fresh_item now expire v) items in if r = [] then None else Some r)"
proof (cases "\<exists>v\<in>set items. fresh_item now expire v")
  case True
  then have "dropWhile (\<lambda>v. \<not> fresh_item now expire v) items \<noteq> []" by (simp add: dropWhile_eq_Nil_conv)
  with True assms show ?thesis
    by (cases items) (auto simp: gc_items_def expire_index_dropWhile dropWhile_eq_drop Let_def)
next
  case False
  then have "dropWhile (\<lambda>v. \<not> fresh_item now expire v) items = []" by (simp add: dropWhile_eq_Nil_conv)
  with False assms show ?thesis
    by (cases items) (auto simp: gc_items_def expire_index_dropWhile Let_def)
qed

lemma dropWhile_sorted_filter:
  assumes "sorted_wrt R xs" "\<And>x y. R x y \<Longrightarrow> P x \<Longrightarrow> P y"
  shows "dropWhile (\<lambda>x. \<not> P x) xs = filter P xs"
  using assms(1)
proof (induction xs)
  case (Cons x xs)
  show ?case
  proof (cases "P x")
    case True
    then have "\<forall>y\<in>set xs. P y" using Cons.prems assms(2) by auto
    with True show ?thesis by simp
  next
    case False
    with Cons show ?thesis by simp
  qed
qed simp

lemma fresh_item_mono:
  assumes "fresh_item now expire x" "pCreateTime x \<le> pCreateTime y"
  shows "fresh_item now expire y"
proof -
  have "time_sub now (pCreateTime y) \<le> time_sub now (pCreateTime x)" using assms(2) by (simp add: time_sub_def)
  then have "milliseconds (time_sub now (pCreateTime y)) \<le> milliseconds (time_sub now (pCreateTime x))"
    unfolding milliseconds_def by (rule tdiv_mono) simp
  then show ?thesis using assms(1) by (simp add: fresh_item_def)
qed

definition fresh_part :: "gotime \<Rightarrow> duration \<Rightarrow> 'c pend_item list \<Rightarrow> 'c pend_item list option" where
  "fresh_part now expire items =
     (let fresh = filter (fresh_item now expire) items in if fresh = [] then None else Some fresh)"

definition waiting_ok :: "'c pend_item list \<Rightarrow> bool" where
  "waiting_ok items \<longleftrightarrow> items \<noteq> [] \<and> sorted_wrt (\<lambda>x y. pCreateTime x \<le> pCreateTime y) items"

lemma gc_items_fresh:
  assumes "waiting_ok items"
  shows "gc_items now expire items = Some (fresh_part now expire items)"
proof -
  have "dropWhile (\<lambda>v. \<not> fresh_item now expire v) items = filter (fresh_item now expire) items"
    using assms by (intro dropWhile_sorted_filter [where R = "\<lambda>x y. pCreateTime x \<le> pCreateTime y"])
      (auto simp: waiting_ok_def intro: fresh_item_mono)
  then show ?thesis
    using gc_items_dropWhile [of items now expire] assms by (simp only: fresh_part_def waiting_ok_def Let_def simp_thms)
qed

lemma fresh_part_idem: "fresh_part now expire items = Some r \<Longrightarrow> waiting_ok items \<Longrightarrow> waiting_ok r \<and> fresh_part now expire r = Some r"
  by (auto simp: fresh_part_def waiting_ok_def Let_def sorted_wrt_filter split: if_splits)

lemma GcResItems_run:
  assumes "\<forall>k items. respList pd k = Some items \<longrightarrow> waiting_ok items"
  shows "\<exists>pd'. GcResItems now expire ks pd = Some pd' \<and> reqList pd' = reqList pd \<and>
    (\<forall>k. respList pd' k = (if k \<in> set ks then Option.bind (respList pd k) (fresh_part now expire) else respList pd k))"
  using assms
proof (induction ks arbitrary: pd)
  case (Cons k ks)
  show ?case
  proof (cases "respList pd k")
    case None
    then show ?thesis using Cons.IH [OF Cons.prems] by fastforce
  next
    case (Some items)
    then have ok: "waiting_ok items" using Cons.prems by blast
    let ?pd = "pd\<lparr>respList := (respList pd)(k := fresh_part now expire items)\<rparr>"
    have "\<forall>k items. respList ?pd k = Some items \<longrightarrow> waiting_ok items"
      using Cons.prems fresh_part_idem [OF _ ok] by (auto split: if_splits)
    from Cons.IH [OF this] obtain pd' where "GcResItems now expire ks ?pd = Some pd'" "reqList pd' = reqList ?pd"
      "\<forall>j. respList pd' j = (if j \<in> set ks then Option.bind (respList ?pd j) (fresh_part now expire) else respList ?pd j)"
      by blast
    moreover have "Option.bind (fresh_part now expire items) (fresh_part now expire) = fresh_part now expire items"
      using fresh_part_idem [OF _ ok] by (cases "fresh_part now expire items") auto
    ultimately show ?thesis using Some gc_items_fresh [OF ok] by auto
  qed
qed simp

lemma Pend_Add_waiting:
  assumes "\<And>k items. respList pd k = Some items \<Longrightarrow> waiting_ok items \<and> (\<forall>x\<in>set items. pCreateTime x \<le> now)"
    and "respList (snd (Pend_Add env now target src nxt ch pd)) k = Some items"
  shows "waiting_ok items \<and> (\<forall>x\<in>set items. pCreateTime x \<le> now)"
proof -
  let ?x = "\<lparr>Src = src, pCreateTime = now, ResCh = ch\<rparr>"
  have "respList (snd (Pend_Add env now target src nxt ch pd)) = (respList pd)(getTargetKey env target \<mapsto>
      (case respList pd (getTargetKey env target) of Some res \<Rightarrow> res @ [?x] | None \<Rightarrow> [?x]))"
    by (simp add: Pend_Add_def Let_def split: option.splits)
  with assms(2) consider "respList pd k = Some items"
    | res where "respList pd k = Some res" "items = res @ [?x]" | "items = [?x]"
    by (auto split: if_splits option.splits)
  then show ?thesis
  proof cases
    case 2
    with assms(1) [of k res] show ?thesis by (simp add: waiting_ok_def sorted_wrt_append)
  qed (use assms(1) [of k items] in \<open>simp_all add: waiting_ok_def\<close>)
qed

section \<open>Properties\<close>


definition example_env :: "bytes renv" where
  "example_env = \<lparr>sha256 = (\<lambda>b. b), hash_bytes = (\<lambda>b. b), bytesToHash = (\<lambda>b. b), unixBytes = (\<lambda>_. [])\<rparr>"

definition example_path :: pbpath where
  "example_path = \<lparr>pbSign = [], pbBodys = [], pbItems = [replicate 32 1, replicate 32 2]\<rparr>"

lemma example_env_sel [simp]: "sha256 example_env = (\<lambda>b. b)" "bytesToHash example_env = (\<lambda>b. b)"
  by (simp_all add: example_env_def)

lemma SavePath_two:
  "SavePath example_env 2 now \<lparr>pbSign = [], pbBodys = [], pbItems = [a, b]\<rparr> t =
   save_target example_env 2 \<lparr>Neighbor = Address b, PathKey = a @ b\<rparr> (Address a)
    (t\<lparr>paths := (paths t)(a @ b \<mapsto> \<lparr>Sign = [], Bodys = [], Items = [Address a, Address b], CreateTime = now, UsedTime = now\<rparr>),
      db_paths := (db_paths t)(a @ b \<mapsto> \<lparr>Sign = [], Bodys = [], Items = [Address a, Address b], CreateTime = now, UsedTime = now\<rparr>)\<rparr>)"
  by (simp add: SavePath_def verifyPath_def generatePathItems_def NewAddress_def IterateTarget_def Let_def)

abbreviation example_table :: "bytes table" where
  "example_table \<equiv> newRouteTable (Address (replicate 32 0)) Map.empty Map.empty"

lemma example_acceptable: "acceptable UNIV (Address (replicate 32 0)) example_path"
  by (simp add: acceptable_def example_path_def MaxTTL_def)

lemma example_inj: "inj_on (sha256 example_env) UNIV"
  by (simp add: example_env_def)


text \<open>
  A saved path serves all its nodes: after \<open>SavePath\<close> of a path of at least two nodes, for
  every node of the path but the last, \<open>Get\<close> returns a path with exactly the items of the
  message, and the last node is among the next hops.
\<close>

theorem SavePath_serves_targets:
  assumes "2 \<le> length (pbItems p)" "a \<in> set (butlast (map NewAddress (pbItems p)))"
  shows "\<exists>ps q. Table_Get env a (SavePath env alpha now p t) = Inr ps \<and> q \<in> set ps \<and>
      Items q = map NewAddress (pbItems p) \<and>
      last (map NewAddress (pbItems p)) \<in> set (GetNextHop env a [] (SavePath env alpha now p t))"
proof -
  let ?items = "map NewAddress (pbItems p)" and ?t = "SavePath env alpha now p t"
  obtain q rs where q: "paths ?t (path_key env ?items) = Some q" "Items q = ?items"
    "routes ?t (getTargetKey env a) = Some rs"
    "existRoute \<lparr>Neighbor = last ?items, PathKey = path_key env ?items\<rparr> rs"
    using SavePath_learns [OF assms, of env alpha now t] by blast
  then obtain r where r: "r \<in> set rs" "PathKey r = path_key env ?items" "Neighbor r = last ?items"
    by (auto simp: existRoute_def)
  let ?ps = "List.map_filter (\<lambda>v. paths ?t (PathKey v)) rs"
  have m: "q \<in> set ?ps" using q(1) r by (force simp: List.map_filter_def)
  then have "Table_Get env a ?t = Inr ?ps" using q(3) by (auto simp: Table_Get_def Let_def)
  moreover have "last ?items \<in> set (GetNextHop env a [] ?t)"
    using q(3) r by (force simp: GetNextHop_def)
  ultimately show ?thesis using m q(2) by blast
qed

theorem SavePath_serves_targets_witness:
  "\<exists>ps q. Table_Get example_env (Address (replicate 32 1))
      (SavePath example_env 2 5 example_path example_table) = Inr ps \<and> q \<in> set ps"
  using SavePath_serves_targets [of example_path "Address (replicate 32 1)" example_env 2 5 example_table]
  by (auto simp: example_path_def NewAddress_def)




text \<open>
  The key of a path does not fix its items: it is the hash of the concatenated items, so
  two paths whose items are split differently collide for every hash function. After a second
  path with the same bytes is saved, the route of the first one leads to a path whose last
  item is not the route's neighbour.
\<close>

theorem path_key_split_collision:
  "fst (generatePathItems env [[1, 2], [3]]) = fst (generatePathItems env [[1], [2, 3]]) \<and>
   (let p1 = \<lparr>pbSign = [], pbBodys = [], pbItems = [[1, 2], [3]]\<rparr>;
        p2 = \<lparr>pbSign = [], pbBodys = [], pbItems = [[1], [2, 3]]\<rparr>;
        t = SavePaths example_env 2 5 [p1, p2] (newRouteTable (Address [0]) Map.empty Map.empty)
    in GetNextHop example_env (Address [1, 2]) [] t = [Address [3]] \<and>
       map_option Items (paths t [1, 2, 3]) = Some [Address [1], Address [2, 3]])"
  by (simp add: generatePathItems_def SavePaths_def SavePath_two newRouteTable_def save_target_def
      getTargetKey_def GetNextHop_def Let_def)

text \<open>
  The collection of waiting callers keeps exactly the fresh ones and never panics: when
  every target has callers and they are in the order of their creation, which is how \<open>Add\<close>
  leaves them, \<open>GcResItems\<close> returns, every target keeps the callers that are younger than the
  given time, and a target with none left is removed.
\<close>

theorem GcResItems_keeps_fresh:
  assumes "\<forall>k items. respList pd k = Some items \<longrightarrow> waiting_ok items"
    and "\<forall>k. respList pd k \<noteq> None \<longrightarrow> k \<in> set ks"
  shows "\<exists>pd'. GcResItems now expire ks pd = Some pd' \<and> reqList pd' = reqList pd \<and>
    (\<forall>k. respList pd' k = (case respList pd k of None \<Rightarrow> None | Some items \<Rightarrow>
       (let fresh = filter (fresh_item now expire) items in if fresh = [] then None else Some fresh)))"
proof -
  obtain pd' where pd': "GcResItems now expire ks pd = Some pd'" "reqList pd' = reqList pd"
    "\<And>k. respList pd' k = (if k \<in> set ks then Option.bind (respList pd k) (fresh_part now expire) else respList pd k)"
    using GcResItems_run [OF assms(1), of now expire ks] by blast
  have "respList pd' k = (case respList pd k of None \<Rightarrow> None | Some items \<Rightarrow> fresh_part now expire items)" for k
    using pd'(3) [of k] assms(2) by (cases "respList pd k") auto
  then show ?thesis unfolding fresh_part_def using pd'(1,2) by blast
qed

theorem GcResItems_keeps_fresh_witness:
  "\<exists>pd'. GcResItems 9 0 [[1]] (snd (Pend_Add example_env 5 (Address [1]) (Address [2]) (Address [3]) (None :: unit option)
     newPendCallResTab)) = Some pd'"
proof -
  let ?pd = "snd (Pend_Add example_env 5 (Address [1]) (Address [2]) (Address [3]) (None :: unit option) newPendCallResTab)"
  have "\<forall>k items. respList ?pd k = Some items \<longrightarrow> waiting_ok items" "\<forall>k. respList ?pd k \<noteq> None \<longrightarrow> k \<in> set [[1]]"
    by (auto simp: Pend_Add_def newPendCallResTab_def getTargetKey_def waiting_ok_def Let_def)
  from GcResItems_keeps_fresh [OF this, of 9 0] show ?thesis by blast
qed

end
