(* ===== verification/Metrics.thy ===== *)
theory Metrics
  imports Boson
begin

text \<open>
  The collector of peer metrics of the Kademlia topology
  (\<^verbatim>\<open>src/pkg/topology/kademlia/internal/metrics/metrics.go\<close>, with the snapshot of
  \<^verbatim>\<open>src/pkg/topology/model/model.go\<close>): sessions, retries, latency and reachability per
  peer, and the counters that survive a restart. The Go map of counters is an association
  list in some iteration order. A record operation is a partial function, \<open>None\<close> where the
  code panics. The value of the floating-point average is a parameter \<open>ewma\<close>; the store field
  is the value that was put last.
\<close>

section \<open>Model\<close>

datatype reachability_status =
    ReachabilityStatusUnknown
  | ReachabilityStatusPublic
  | ReachabilityStatusPrivate

datatype direction = DirectionNone | DirectionInbound | DirectionOutbound

definition unix_epoch :: gotime where
  "unix_epoch = 62135596800 * second"

definition UnixNano :: "gotime \<Rightarrow> int" where
  "UnixNano t = wrap64 (t - unix_epoch)"

record counters =
  isLoggedIn :: bool
  peerAddress :: address
  lastSeenTimestamp :: int
  connTotalDuration :: duration
  sessionConnRetry :: "64 word"
  sessionConnDuration :: duration
  sessionConnDirection :: direction
  latencyEWMA :: duration
  ReachabilityStatus :: reachability_status

record snapshot =
  LastSeenTimestamp :: int
  SessionConnectionRetry :: "64 word"
  ConnectionTotalDuration :: duration
  SessionConnectionDuration :: duration
  SessionConnectionDirection :: direction
  LatencyEWMA :: duration
  Reachability :: reachability_status

record persistent_counters =
  PeerAddress :: address
  pLastSeenTimestamp :: int
  pConnTotalDuration :: duration

type_synonym record_op = "counters \<Rightarrow> counters option"

definition PeerLogIn :: "gotime \<Rightarrow> direction \<Rightarrow> record_op" where
  "PeerLogIn t dir cs =
     (if isLoggedIn cs then Some cs
      else
        (let ls = UnixNano t in
         if ls < 0 then None
         else Some (cs\<lparr>isLoggedIn := True, sessionConnDirection := dir, lastSeenTimestamp := ls\<rparr>)))"

definition PeerLogOut :: "gotime \<Rightarrow> record_op" where
  "PeerLogOut t cs =
     (if \<not> isLoggedIn cs then Some cs
      else
        (let curLs = lastSeenTimestamp cs; newLs = UnixNano t in
         if newLs < 0 then None
         else
           (let d = wrap64 (newLs - curLs) in
            Some (cs\<lparr>isLoggedIn := False, sessionConnDuration := d,
                     connTotalDuration := wrap64 (connTotalDuration cs + d), lastSeenTimestamp := newLs\<rparr>))))"

definition IncSessionConnectionRetry :: record_op where
  "IncSessionConnectionRetry cs = Some (cs\<lparr>sessionConnRetry := sessionConnRetry cs + 1\<rparr>)"

definition PeerLatency :: "(duration \<Rightarrow> duration \<Rightarrow> duration) \<Rightarrow> duration \<Rightarrow> record_op" where
  "PeerLatency ewma t cs =
     Some (cs\<lparr>latencyEWMA := (if latencyEWMA cs = 0 then t else ewma t (latencyEWMA cs))\<rparr>)"

definition PeerReachability :: "reachability_status \<Rightarrow> record_op" where
  "PeerReachability s cs = Some (cs\<lparr>ReachabilityStatus := s\<rparr>)"

definition snapshot_of :: "gotime \<Rightarrow> counters \<Rightarrow> snapshot" where
  "snapshot_of t cs =
     (let session = (if isLoggedIn cs then time_sub t (unix_epoch + lastSeenTimestamp cs) else sessionConnDuration cs);
          total = (if isLoggedIn cs then wrap64 (connTotalDuration cs + session) else connTotalDuration cs)
      in \<lparr>LastSeenTimestamp = lastSeenTimestamp cs, SessionConnectionRetry = sessionConnRetry cs,
          ConnectionTotalDuration = total, SessionConnectionDuration = session,
          SessionConnectionDirection = sessionConnDirection cs, LatencyEWMA = latencyEWMA cs,
          Reachability = ReachabilityStatus cs\<rparr>)"

definition HasAtMaxOneConnectionAttempt :: "snapshot \<Rightarrow> bool" where
  "HasAtMaxOneConnectionAttempt ss \<longleftrightarrow> LastSeenTimestamp ss = 0 \<and> SessionConnectionRetry ss \<le> 1"

subsection \<open>The collector\<close>

type_synonym collector = "(bytes \<times> counters) list"

definition new_counters :: "address \<Rightarrow> counters" where
  "new_counters a =
     \<lparr>isLoggedIn = False, peerAddress = a, lastSeenTimestamp = 0, connTotalDuration = 0, sessionConnRetry = 0,
      sessionConnDuration = 0, sessionConnDirection = DirectionNone, latencyEWMA = 0,
      ReachabilityStatus = ReachabilityStatusUnknown\<rparr>"

definition marshal :: "counters \<Rightarrow> persistent_counters" where
  "marshal cs =
     \<lparr>PeerAddress = peerAddress cs, pLastSeenTimestamp = lastSeenTimestamp cs,
      pConnTotalDuration = connTotalDuration cs\<rparr>"

definition unmarshal :: "persistent_counters \<Rightarrow> counters" where
  "unmarshal v = (new_counters (PeerAddress v))
     \<lparr>lastSeenTimestamp := pLastSeenTimestamp v, connTotalDuration := pConnTotalDuration v\<rparr>"

definition NewCollector :: "(bytes \<times> persistent_counters) list \<Rightarrow> collector" where
  "NewCollector persisted =
     fold (\<lambda>(_, v). AList.update (ByteString (PeerAddress v)) (unmarshal v)) persisted []"

fun apply_ops :: "record_op list \<Rightarrow> record_op" where
  "apply_ops [] cs = Some cs"
| "apply_ops (rop # rops) cs = Option.bind (rop cs) (apply_ops rops)"

definition Record :: "address \<Rightarrow> record_op list \<Rightarrow> collector \<Rightarrow> collector option" where
  "Record a rops c =
     (let val = (case map_of c (ByteString a) of Some cs \<Rightarrow> cs | None \<Rightarrow> new_counters a) in
      map_option (\<lambda>cs. AList.update (ByteString a) cs c) (apply_ops rops val))"

definition Snapshot :: "gotime \<Rightarrow> address list \<Rightarrow> collector \<Rightarrow> (bytes \<times> snapshot) list" where
  "Snapshot t addresses c =
     (if addresses = []
      then fold (\<lambda>(_, cs). AList.update (ByteString (peerAddress cs)) (snapshot_of t cs)) c []
      else fold (\<lambda>a ss. case map_of c (ByteString a) of
                   None \<Rightarrow> ss
                 | Some cs \<Rightarrow> AList.update (ByteString a) (snapshot_of t cs) ss) addresses [])"

definition Inspect :: "gotime \<Rightarrow> address \<Rightarrow> collector \<Rightarrow> snapshot option" where
  "Inspect now a c = map_of (Snapshot now [a] c) (ByteString a)"

definition Flush :: "collector \<Rightarrow> (bytes \<times> persistent_counters) list" where
  "Flush c = fold (\<lambda>(_, cs). AList.update (ByteString (peerAddress cs)) (marshal cs)) c []"

fun log_out_all :: "gotime \<Rightarrow> collector \<Rightarrow> collector option" where
  "log_out_all t [] = Some []"
| "log_out_all t ((k, cs) # c) =
     Option.bind (PeerLogOut t cs) (\<lambda>cs'. map_option (\<lambda>c'. (k, cs') # c') (log_out_all t c))"

text \<open>
  \<open>put_ok\<close> tells whether the store takes the counters; the result is whether an error is
  returned, what is stored (\<open>None\<close>: as before) and the collector.
\<close>

definition Finalize ::
  "bool \<Rightarrow> gotime \<Rightarrow> bool \<Rightarrow> collector \<Rightarrow> (bool \<times> (bytes \<times> persistent_counters) list option \<times> collector) option" where
  "Finalize put_ok t del c =
     map_option
       (\<lambda>c'. if \<not> put_ok then (True, None, c')
             else (False, Some (Flush c'),
                   if del then fold (\<lambda>(_, cs). AList.delete (ByteString (peerAddress cs))) c' c' else c'))
       (log_out_all t c)"

section \<open>Specification: the time a peer has been online\<close>

datatype metric_event =
    LoggedIn gotime direction
  | LoggedOut gotime
  | Retried
  | Measured duration
  | Reached reachability_status

fun event_op :: "(duration \<Rightarrow> duration \<Rightarrow> duration) \<Rightarrow> metric_event \<Rightarrow> record_op" where
  "event_op ewma (LoggedIn t d) = PeerLogIn t d"
| "event_op ewma (LoggedOut t) = PeerLogOut t"
| "event_op ewma Retried = IncSessionConnectionRetry"
| "event_op ewma (Measured l) = PeerLatency ewma l"
| "event_op ewma (Reached s) = PeerReachability s"

text \<open>
  The sum of the lengths of the sessions up to time \<open>t\<close>, when the peer is logged in since
  \<open>since\<close>, if it is.
\<close>

fun time_online :: "gotime option \<Rightarrow> metric_event list \<Rightarrow> gotime \<Rightarrow> int" where
  "time_online since [] t = (case since of None \<Rightarrow> 0 | Some t0 \<Rightarrow> t - t0)"
| "time_online None (LoggedIn t0 d # evs) t = time_online (Some t0) evs t"
| "time_online (Some t0) (LoggedOut t1 # evs) t = (t1 - t0) + time_online None evs t"
| "time_online since (ev # evs) t = time_online since evs t"

text \<open>The events carry readings of one clock, in order, from \<open>t0\<close> to \<open>t\<close>.\<close>

fun clock_order :: "gotime \<Rightarrow> metric_event list \<Rightarrow> gotime \<Rightarrow> bool" where
  "clock_order t0 [] t = (t0 \<le> t)"
| "clock_order t0 (LoggedIn t1 d # evs) t = (t0 \<le> t1 \<and> clock_order t1 evs t)"
| "clock_order t0 (LoggedOut t1 # evs) t = (t0 \<le> t1 \<and> clock_order t1 evs t)"
| "clock_order t0 (ev # evs) t = clock_order t0 evs t"

section \<open>Lemmas\<close>

lemma clock_order_le: "clock_order t0 evs t \<Longrightarrow> t0 \<le> t"
  by (induction t0 evs t rule: clock_order.induct) auto

lemma UnixNano_id: "unix_epoch \<le> t \<Longrightarrow> t < unix_epoch + 2 ^ 63 \<Longrightarrow> UnixNano t = t - unix_epoch"
  by (simp add: UnixNano_def wrap64_id in_int64_def)

text \<open>What the counters of a peer say about its sessions at time \<open>now\<close>.\<close>

definition online_inv :: "gotime \<Rightarrow> gotime option \<Rightarrow> counters \<Rightarrow> bool" where
  "online_inv now since cs \<longleftrightarrow> unix_epoch \<le> now \<and> now < unix_epoch + 2 ^ 63 \<and>
     0 \<le> connTotalDuration cs \<and> isLoggedIn cs = (since \<noteq> None) \<and>
     (case since of
        None \<Rightarrow> connTotalDuration cs \<le> now - unix_epoch
      | Some t0 \<Rightarrow> unix_epoch \<le> t0 \<and> t0 \<le> now \<and> lastSeenTimestamp cs = t0 - unix_epoch \<and>
          connTotalDuration cs \<le> t0 - unix_epoch)"

lemma online_snapshot:
  assumes "online_inv now since cs"
  shows "ConnectionTotalDuration (snapshot_of now cs) = connTotalDuration cs + time_online since [] now"
proof (cases since)
  case (Some t0)
  then have i: "unix_epoch \<le> t0" "t0 \<le> now" "now < unix_epoch + 2 ^ 63" "lastSeenTimestamp cs = t0 - unix_epoch"
    "0 \<le> connTotalDuration cs" "connTotalDuration cs \<le> t0 - unix_epoch" "isLoggedIn cs"
    using assms by (auto simp: online_inv_def)
  then have "time_sub now (unix_epoch + lastSeenTimestamp cs) = now - t0"
    by (simp add: time_sub_small in_int64_def)
  moreover have "wrap64 (connTotalDuration cs + (now - t0)) = connTotalDuration cs + (now - t0)"
    using i by (intro wrap64_id) (simp add: in_int64_def)
  ultimately show ?thesis using Some i by (simp add: snapshot_of_def Let_def)
qed (use assms in \<open>simp add: snapshot_of_def online_inv_def Let_def\<close>)

lemma online_inv_mono: "online_inv t0 since cs \<Longrightarrow> t0 \<le> t \<Longrightarrow> t < unix_epoch + 2 ^ 63 \<Longrightarrow> online_inv t since cs"
  by (auto simp: online_inv_def split: option.splits)

lemma online_log_in:
  assumes "online_inv now None cs"
  shows "\<exists>cs'. PeerLogIn now d cs = Some cs' \<and> online_inv now (Some now) cs' \<and>
    connTotalDuration cs' = connTotalDuration cs \<and> peerAddress cs' = peerAddress cs"
  using assms by (simp add: PeerLogIn_def online_inv_def UnixNano_id Let_def)

lemma online_log_out:
  assumes "online_inv now (Some t0) cs"
  shows "\<exists>cs'. PeerLogOut now cs = Some cs' \<and> online_inv now None cs' \<and>
    connTotalDuration cs' = connTotalDuration cs + (now - t0) \<and> peerAddress cs' = peerAddress cs"
proof -
  have i: "unix_epoch \<le> t0" "t0 \<le> now" "now < unix_epoch + 2 ^ 63" "lastSeenTimestamp cs = t0 - unix_epoch"
    "0 \<le> connTotalDuration cs" "connTotalDuration cs \<le> t0 - unix_epoch" "isLoggedIn cs"
    using assms by (auto simp: online_inv_def)
  then have "UnixNano now = now - unix_epoch" by (simp add: UnixNano_id)
  moreover have "wrap64 (now - t0) = now - t0"
    "wrap64 (connTotalDuration cs + (now - t0)) = connTotalDuration cs + (now - t0)"
    using i by (intro wrap64_id; simp add: in_int64_def)+
  ultimately show ?thesis using i by (simp add: PeerLogOut_def Let_def online_inv_def)
qed

lemma online_events:
  assumes "clock_order t0 evs t" "online_inv t0 since cs" "t < unix_epoch + 2 ^ 63"
  shows "\<exists>cs' since'. apply_ops (map (event_op ewma) evs) cs = Some cs' \<and> online_inv t since' cs' \<and>
    peerAddress cs' = peerAddress cs \<and>
    connTotalDuration cs' + time_online since' [] t = connTotalDuration cs + time_online since evs t"
  using assms
proof (induction evs arbitrary: t0 since cs)
  case Nil
  then show ?case using online_inv_mono [of t0 since cs t] by (auto intro: exI [of _ since])
next
  case (Cons ev evs)
  have t: "t0 \<le> t" using clock_order_le [OF Cons.prems(1)] .
  have same: ?case if "event_op ewma ev cs = Some cs'" "online_inv t0 since cs'" "peerAddress cs' = peerAddress cs"
    "connTotalDuration cs' = connTotalDuration cs" "clock_order t0 evs t"
    "time_online since (ev # evs) t = time_online since evs t" for cs'
    using Cons.IH [OF that(5) that(2) Cons.prems(3)] that by simp
  show ?case
  proof (cases ev)
    case (LoggedIn t1 d)
    then have t1: "t0 \<le> t1" "clock_order t1 evs t" using Cons.prems(1) by auto
    then have t1': "t1 < unix_epoch + 2 ^ 63" using clock_order_le Cons.prems(3) by fastforce
    have inv: "online_inv t1 since cs" using online_inv_mono [OF Cons.prems(2) t1(1) t1'] .
    show ?thesis
    proof (cases since)
      case None
      with online_log_in [of t1 cs d] inv obtain cs' where "PeerLogIn t1 d cs = Some cs'" "online_inv t1 (Some t1) cs'"
        "connTotalDuration cs' = connTotalDuration cs" "peerAddress cs' = peerAddress cs" by blast
      with Cons.IH [OF t1(2) _ Cons.prems(3), of "Some t1" cs'] LoggedIn None show ?thesis by simp
    next
      case (Some u)
      then have "PeerLogIn t1 d cs = Some cs" using inv by (simp add: PeerLogIn_def online_inv_def)
      with Cons.IH [OF t1(2) inv Cons.prems(3)] LoggedIn Some show ?thesis by simp
    qed
  next
    case (LoggedOut t1)
    then have t1: "t0 \<le> t1" "clock_order t1 evs t" using Cons.prems(1) by auto
    then have t1': "t1 < unix_epoch + 2 ^ 63" using clock_order_le Cons.prems(3) by fastforce
    have inv: "online_inv t1 since cs" using online_inv_mono [OF Cons.prems(2) t1(1) t1'] .
    show ?thesis
    proof (cases since)
      case None
      then have "PeerLogOut t1 cs = Some cs" using inv by (simp add: PeerLogOut_def online_inv_def)
      with Cons.IH [OF t1(2) inv Cons.prems(3)] LoggedOut None show ?thesis by simp
    next
      case (Some u)
      with online_log_out [of t1 u cs] inv obtain cs' where "PeerLogOut t1 cs = Some cs'" "online_inv t1 None cs'"
        "connTotalDuration cs' = connTotalDuration cs + (t1 - u)" "peerAddress cs' = peerAddress cs" by blast
      with Cons.IH [OF t1(2) _ Cons.prems(3), of None cs'] LoggedOut Some show ?thesis by (simp add: add.assoc)
    qed
  qed (use Cons.prems same in \<open>auto simp: IncSessionConnectionRetry_def PeerLatency_def PeerReachability_def online_inv_def\<close>)
qed

subsection \<open>The collector as a map\<close>

text \<open>The key of an entry is the address of its peer.\<close>

definition keyed :: "('v \<Rightarrow> address) \<Rightarrow> (bytes \<times> 'v) list \<Rightarrow> bool" where
  "keyed adr m \<longleftrightarrow> distinct (map fst m) \<and> (\<forall>(k, v)\<in>set m. k = ByteString (adr v))"

lemma keyed_Nil [simp]: "keyed adr []"
  by (simp add: keyed_def)

lemma set_AList_update: "set (AList.update k v m) \<subseteq> insert (k, v) (set m)"
  by (induction m) auto

lemma keyed_update: "keyed adr m \<Longrightarrow> k = ByteString (adr v) \<Longrightarrow> keyed adr (AList.update k v m)"
  using set_AList_update [of k v m] by (auto simp: keyed_def gomap)

lemma keyed_Cons: "keyed adr ((k, v) # m) \<longleftrightarrow> k = ByteString (adr v) \<and> keyed adr m \<and> map_of m k = None"
  by (auto simp: keyed_def map_of_eq_None_iff)

lemma keyed_lookup: "keyed adr m \<Longrightarrow> map_of m k = Some v \<Longrightarrow> k = ByteString (adr v)"
  by (auto simp: keyed_def dest: map_of_SomeD)

lemma fold_update_keyed:
  "keyed adr m \<Longrightarrow> map_of (fold (\<lambda>(_, v). AList.update (ByteString (adr v)) (f v)) m acc) k =
     (case map_of m k of Some v \<Rightarrow> Some (f v) | None \<Rightarrow> map_of acc k)"
proof (induction m arbitrary: acc)
  case (Cons x m)
  obtain k0 v0 where x: "x = (k0, v0)" by fastforce
  with Cons.prems have "k0 = ByteString (adr v0)" "keyed adr m" "map_of m k0 = None"
    by (auto simp: keyed_Cons)
  with Cons.IH [of "AList.update (ByteString (adr v0)) (f v0) acc"] x show ?case
    by (auto simp: gomap split: option.splits)
qed simp

lemma fold_update_keyed_keyed:
  "keyed adr' acc \<Longrightarrow> (\<And>v. adr' (f v) = adr v) \<Longrightarrow>
     keyed adr' (fold (\<lambda>(_, v). AList.update (ByteString (adr v)) (f v)) m acc)"
proof (induction m arbitrary: acc)
  case (Cons x m)
  then show ?case by (cases x) (simp add: keyed_update)
qed simp

lemma Inspect_eq: "Inspect t a c = map_option (snapshot_of t) (map_of c (ByteString a))"
  by (simp add: Inspect_def Snapshot_def gomap split: option.splits)

lemma Flush_lookup: "keyed peerAddress c \<Longrightarrow> map_of (Flush c) k = map_option marshal (map_of c k)"
  unfolding Flush_def by (simp add: fold_update_keyed split: option.splits)

lemma Flush_keyed: "keyed PeerAddress (Flush c)"
  unfolding Flush_def by (rule fold_update_keyed_keyed) (simp_all add: marshal_def)

lemma NewCollector_lookup: "keyed PeerAddress m \<Longrightarrow> map_of (NewCollector m) k = map_option unmarshal (map_of m k)"
  unfolding NewCollector_def by (simp add: fold_update_keyed split: option.splits)

lemma snapshot_restored [simp]:
  "ConnectionTotalDuration (snapshot_of t (unmarshal (marshal cs))) = connTotalDuration cs"
  by (simp add: snapshot_of_def unmarshal_def marshal_def new_counters_def Let_def)

lemma log_out_all_lookup:
  assumes "0 \<le> UnixNano t"
  shows "\<exists>c'. log_out_all t c = Some c' \<and> map fst c' = map fst c \<and>
    (\<forall>k. map_of c' k = Option.bind (map_of c k) (PeerLogOut t))"
proof (induction c)
  case (Cons x c)
  obtain k cs where x: "x = (k, cs)" by fastforce
  have "\<exists>cs'. PeerLogOut t cs = Some cs'"
    using assms by (simp add: PeerLogOut_def Let_def)
  with Cons x show ?case by auto
qed simp

lemma PeerLogOut_address: "PeerLogOut t cs = Some cs' \<Longrightarrow> peerAddress cs' = peerAddress cs"
  by (auto simp: PeerLogOut_def Let_def split: if_splits)

lemma log_out_all_keyed:
  assumes "keyed peerAddress c" "log_out_all t c = Some c'"
  shows "keyed peerAddress c' \<and> map fst c' = map fst c"
  using assms
proof (induction c arbitrary: c')
  case (Cons x c)
  obtain k cs where x: "x = (k, cs)" by fastforce
  with Cons.prems(2) obtain cs1 c1 where c1: "PeerLogOut t cs = Some cs1" "log_out_all t c = Some c1" "c' = (k, cs1) # c1"
    by (auto simp: bind_eq_Some_conv)
  with Cons.IH Cons.prems(1) x have "keyed peerAddress c1" "map fst c1 = map fst c" by (auto simp: keyed_Cons)
  with c1 x Cons.prems(1) PeerLogOut_address [OF c1(1)] show ?case
    by (auto simp: keyed_Cons map_of_eq_None_iff simp flip: set_map)
qed simp

text \<open>Events of several peers, each recorded by its own call.\<close>

fun record_events ::
  "(duration \<Rightarrow> duration \<Rightarrow> duration) \<Rightarrow> (address \<times> metric_event) list \<Rightarrow> collector \<Rightarrow> collector option" where
  "record_events ewma [] c = Some c"
| "record_events ewma ((a, ev) # evs) c =
     Option.bind (Record a [event_op ewma ev] c) (record_events ewma evs)"

definition events_of :: "address \<Rightarrow> (address \<times> metric_event) list \<Rightarrow> metric_event list" where
  "events_of a evs = map snd (filter (\<lambda>(b, _). b = a) evs)"

definition counters_at :: "collector \<Rightarrow> address \<Rightarrow> counters" where
  "counters_at c a = (case map_of c (ByteString a) of Some cs \<Rightarrow> cs | None \<Rightarrow> new_counters a)"

lemma event_op_address: "event_op ewma ev cs = Some cs' \<Longrightarrow> peerAddress cs' = peerAddress cs"
  by (cases ev) (auto simp: PeerLogIn_def PeerLogOut_def IncSessionConnectionRetry_def PeerLatency_def
      PeerReachability_def Let_def split: if_splits)

lemma Record_event:
  assumes "keyed peerAddress c" "event_op ewma ev (counters_at c a) = Some cs"
  shows "\<exists>c'. Record a [event_op ewma ev] c = Some c' \<and> keyed peerAddress c' \<and> counters_at c' a = cs \<and>
    (\<forall>b. b \<noteq> a \<longrightarrow> map_of c' (ByteString b) = map_of c (ByteString b)) \<and> map_of c' (ByteString a) \<noteq> None"
proof -
  have "peerAddress (counters_at c a) = a"
    using keyed_lookup [OF assms(1), of "ByteString a"]
    by (auto simp: counters_at_def new_counters_def split: option.splits)
  then have "keyed peerAddress (AList.update (ByteString a) cs c)"
    using event_op_address [OF assms(2)] by (intro keyed_update [OF assms(1)]) simp
  moreover have "Record a [event_op ewma ev] c = Some (AList.update (ByteString a) cs c)"
    using assms(2) by (simp add: Record_def counters_at_def Let_def)
  ultimately show ?thesis by (simp add: counters_at_def gomap)
qed

lemma record_events_lookup:
  assumes "keyed peerAddress c"
    and "\<And>a. \<exists>cs. apply_ops (map (event_op ewma) (events_of a evs)) (counters_at c a) = Some cs"
  shows "\<exists>c'. record_events ewma evs c = Some c' \<and> keyed peerAddress c' \<and>
    (\<forall>a. apply_ops (map (event_op ewma) (events_of a evs)) (counters_at c a) = Some (counters_at c' a)) \<and>
    (\<forall>a. map_of c' (ByteString a) = None \<longleftrightarrow> map_of c (ByteString a) = None \<and> events_of a evs = [])"
  using assms
proof (induction evs arbitrary: c)
  case (Cons x evs)
  obtain a ev where x: "x = (a, ev)" by fastforce
  have ev: "events_of b (x # evs) = (if b = a then ev # events_of b evs else events_of b evs)" for b
    by (simp add: events_of_def x)
  obtain cs where cs: "event_op ewma ev (counters_at c a) = Some cs"
    using Cons.prems(2) [of a] by (auto simp: ev bind_eq_Some_conv)
  obtain c1 where c1: "Record a [event_op ewma ev] c = Some c1" "keyed peerAddress c1" "counters_at c1 a = cs"
    "\<And>b. b \<noteq> a \<Longrightarrow> map_of c1 (ByteString b) = map_of c (ByteString b)" "map_of c1 (ByteString a) \<noteq> None"
    using Record_event [OF Cons.prems(1) cs] by blast
  have at: "counters_at c1 b = counters_at c b" if "b \<noteq> a" for b
    using c1(4) [OF that] by (simp add: counters_at_def)
  have step: "apply_ops (map (event_op ewma) (events_of b evs)) (counters_at c1 b) =
      apply_ops (map (event_op ewma) (events_of b (x # evs))) (counters_at c b)" for b
    using at [of b] cs c1(3) by (auto simp: ev)
  obtain c' where c': "record_events ewma evs c1 = Some c'" "keyed peerAddress c'"
    "\<And>b. apply_ops (map (event_op ewma) (events_of b evs)) (counters_at c1 b) = Some (counters_at c' b)"
    "\<And>b. map_of c' (ByteString b) = None \<longleftrightarrow> map_of c1 (ByteString b) = None \<and> events_of b evs = []"
    using Cons.IH [OF c1(2)] Cons.prems(2) unfolding step by blast
  have "map_of c' (ByteString b) = None \<longleftrightarrow> map_of c (ByteString b) = None \<and> events_of b (x # evs) = []" for b
    using c'(4) [of b] c1(4) [of b] c1(5) by (cases "b = a") (simp_all add: ev)
  then show ?case using c' c1(1) step by (intro exI [of _ c']) (simp add: x)
qed (simp add: events_of_def)

lemma clock_order_events_of:
  "clock_order t0 (map snd evs) t \<Longrightarrow> clock_order t0 (events_of a evs) t"
proof (induction evs arbitrary: t0)
  case (Cons x evs)
  obtain b ev where x: "x = (b, ev)" by fastforce
  have drop: "clock_order t0 xs t" if "clock_order t1 xs t" "t0 \<le> t1" for t1 xs
    using that by (induction t1 xs t rule: clock_order.induct) auto
  show ?case
    using Cons.prems Cons.IH by (cases ev) (auto simp: x events_of_def intro: drop)
qed (simp add: events_of_def)

section \<open>Properties\<close>



end
