(* ===== verification/BinPrefix.thy ===== *)
theory BinPrefix
  imports Boson
begin

text \<open>
  The pseudo addresses of the bin balancer (\<^verbatim>\<open>src/pkg/topology/kademlia/binprefix.go\<close>): for
  every bin and every combination of the \<open>suffixLength\<close> bits after the bin's own bit, an
  address that leaves the base address at the bin's bit and continues with that combination.
  \<open>None\<close> is the panic of an index out of range. \<open>bits.Reverse8\<close> is \<open>word_reverse\<close>.
\<close>

section \<open>Model\<close>

definition clearBit :: "byte \<Rightarrow> nat \<Rightarrow> byte" where
  "clearBit n pos = n AND NOT (push_bit pos 1)"

definition setBit :: "byte \<Rightarrow> nat \<Rightarrow> byte" where
  "setBit n pos = n OR push_bit pos 1"

definition hasBit :: "byte \<Rightarrow> nat \<Rightarrow> bool" where
  "hasBit n pos \<longleftrightarrow> n AND push_bit pos 1 > 0"

text \<open>The assignment to the bit at position \<open>l\<close> of the address, most significant first.\<close>

definition write_bit :: "bool \<Rightarrow> nat \<Rightarrow> bytes \<Rightarrow> bytes option" where
  "write_bit v l xs =
     (let index = l div 8; pos = l mod 8 in
      if index < length xs
      then Some (xs[index := word_reverse ((if v then setBit else clearBit) (word_reverse (xs ! index)) pos)])
      else None)"

definition flip_bit :: "nat \<Rightarrow> bytes \<Rightarrow> bytes option" where
  "flip_bit i xs =
     (let indexByte = i div 8; posBit = i mod 8 in
      if indexByte < length xs then write_bit (\<not> hasBit (word_reverse (xs ! indexByte)) posBit) i xs
      else None)"

text \<open>The loop over the positions after the bin's bit, with the remaining suffix bits.\<close>

fun write_suffix :: "byte \<Rightarrow> nat \<Rightarrow> nat \<Rightarrow> bytes \<Rightarrow> bytes option" where
  "write_suffix suffix l 0 xs = Some xs"
| "write_suffix suffix l (Suc bitSuffixPos) xs =
     Option.bind (write_bit (hasBit suffix bitSuffixPos) l xs) (write_suffix suffix (Suc l) bitSuffixPos)"

fun clear_bits :: "nat list \<Rightarrow> bytes \<Rightarrow> bytes option" where
  "clear_bits [] xs = Some xs"
| "clear_bits (l # ls) xs = Option.bind (write_bit False l xs) (clear_bits ls)"

definition pseudo_address :: "bytes \<Rightarrow> nat \<Rightarrow> nat \<Rightarrow> nat \<Rightarrow> bytes option" where
  "pseudo_address base suffixLength i j =
     (if length base < 1 then Some base
      else
        Option.bind (flip_bit i base) (\<lambda>p1.
        Option.bind (write_suffix (word_of_nat j) (i + 1) suffixLength p1) (\<lambda>p2.
        clear_bits [i + suffixLength + 1..<length base * 8] p2)))"

fun all_some :: "'a option list \<Rightarrow> 'a list option" where
  "all_some [] = Some []"
| "all_some (x # xs) = Option.bind x (\<lambda>y. map_option (\<lambda>ys. y # ys) (all_some xs))"

definition generateCommonBinPrefixes :: "address \<Rightarrow> nat \<Rightarrow> address list list option" where
  "generateCommonBinPrefixes base suffixLength =
     all_some (map (\<lambda>i. all_some (map (\<lambda>j. map_option NewAddress (pseudo_address (Bytes base) suffixLength i j))
       [0..<2 ^ suffixLength])) [0..<unat MaxBins])"

section \<open>Lemmas\<close>

lemma all_some_map: "(\<And>x. x \<in> set xs \<Longrightarrow> f x = Some (g x)) \<Longrightarrow> all_some (map f xs) = Some (map g xs)"
  by (induction xs) auto

lemma bit_setBit: "n < 8 \<Longrightarrow> bit (setBit w pos) n \<longleftrightarrow> n = pos \<or> bit w n"
  by (auto simp: setBit_def bit_or_iff bit_push_bit_iff bit_exp_iff)

lemma bit_clearBit: "n < 8 \<Longrightarrow> bit (clearBit w pos) n \<longleftrightarrow> n \<noteq> pos \<and> bit w n"
  by (auto simp: clearBit_def bit_and_iff bit_not_iff bit_push_bit_iff bit_exp_iff)

lemma hasBit_iff: "hasBit w pos \<longleftrightarrow> bit w pos"
  by (simp add: hasBit_def word_gt_0 bit_iff_and_push_bit_not_eq_0)

lemma write_bit_Some:
  assumes "l < 8 * length xs"
  shows "\<exists>ys. write_bit v l xs = Some ys \<and> length ys = length xs \<and>
    (\<forall>k<8 * length xs. addr_bit ys k = (if k = l then v else addr_bit xs k))"
proof -
  let ?w = "word_reverse ((if v then setBit else clearBit) (word_reverse (xs ! (l div 8))) (l mod 8))"
  have l: "l div 8 < length xs" using assms by simp
  have "addr_bit (xs[l div 8 := ?w]) k = (if k = l then v else addr_bit xs k)" if k: "k < 8 * length xs" for k
  proof (cases "k div 8 = l div 8")
    case True
    then have eq: "k mod 8 = l mod 8 \<longleftrightarrow> k = l" by (metis div_mult_mod_eq)
    have "7 - k mod 8 < 8" by arith
    then have "addr_bit (xs[l div 8 := ?w]) k = bit ((if v then setBit else clearBit) (word_reverse (xs ! (l div 8))) (l mod 8)) (k mod 8)"
      using l True by (simp add: addr_bit_def bit_word_reverse_iff)
    also have "\<dots> = (if k mod 8 = l mod 8 then v else addr_bit xs k)"
      using True by (auto simp: bit_setBit bit_clearBit addr_bit_def bit_word_reverse_iff)
    finally show ?thesis by (simp add: eq)
  next
    case False
    then show ?thesis by (auto simp: addr_bit_def)
  qed
  then show ?thesis using l by (simp add: write_bit_def Let_def)
qed

lemma write_suffix_Some:
  assumes "l + n \<le> 8 * length xs"
  shows "\<exists>ys. write_suffix suffix l n xs = Some ys \<and> length ys = length xs \<and>
    (\<forall>k<8 * length xs. addr_bit ys k = (if l \<le> k \<and> k < l + n then bit suffix (l + n - Suc k) else addr_bit xs k))"
  using assms
proof (induction n arbitrary: l xs)
  case (Suc n)
  obtain ys where ys: "write_bit (hasBit suffix n) l xs = Some ys" "length ys = length xs"
    "\<And>k. k < 8 * length xs \<Longrightarrow> addr_bit ys k = (if k = l then bit suffix n else addr_bit xs k)"
    using write_bit_Some [of l xs "hasBit suffix n"] Suc.prems by (auto simp: hasBit_iff)
  obtain zs where zs: "write_suffix suffix (Suc l) n ys = Some zs" "length zs = length ys"
    "\<And>k. k < 8 * length ys \<Longrightarrow> addr_bit zs k =
       (if Suc l \<le> k \<and> k < Suc l + n then bit suffix (Suc l + n - Suc k) else addr_bit ys k)"
    using Suc.IH [of "Suc l" ys] Suc.prems ys(2) by auto
  have "addr_bit zs k = (if l \<le> k \<and> k < l + Suc n then bit suffix (l + Suc n - Suc k) else addr_bit xs k)"
    if "k < 8 * length xs" for k
    using zs(3) [of k] ys(2) ys(3) [of k] that by (auto simp: Suc_le_eq not_less)
  with zs(1,2) ys(1,2) show ?case by auto
qed auto

lemma clear_bits_Some:
  assumes "\<forall>l\<in>set ls. l < 8 * length xs"
  shows "\<exists>ys. clear_bits ls xs = Some ys \<and> length ys = length xs \<and>
    (\<forall>k<8 * length xs. addr_bit ys k = (k \<notin> set ls \<and> addr_bit xs k))"
  using assms
proof (induction ls arbitrary: xs)
  case (Cons l ls)
  obtain ys where ys: "write_bit False l xs = Some ys" "length ys = length xs"
    "\<And>k. k < 8 * length xs \<Longrightarrow> addr_bit ys k = (k \<noteq> l \<and> addr_bit xs k)"
    using write_bit_Some [of l xs False] Cons.prems by auto
  with Cons.IH [of ys] Cons.prems show ?case by auto
qed simp

text \<open>The bits of a pseudo address.\<close>

definition pseudo_bit :: "bytes \<Rightarrow> nat \<Rightarrow> nat \<Rightarrow> nat \<Rightarrow> nat \<Rightarrow> bool" where
  "pseudo_bit base s i j k =
     (if k < i then addr_bit base k
      else if k = i then \<not> addr_bit base i
      else if k \<le> i + s then bit (word_of_nat j :: byte) (i + s - k)
      else False)"

lemma pseudo_address_bits:
  assumes "i + s < 8 * length base"
  shows "\<exists>ys. pseudo_address base s i j = Some ys \<and> length ys = length base \<and>
    (\<forall>k<8 * length base. addr_bit ys k = pseudo_bit base s i j k)"
proof -
  have b: "i div 8 < length base" "\<not> length base < 1" using assms by auto
  have "hasBit (word_reverse (base ! (i div 8))) (i mod 8) = addr_bit base i"
    by (simp add: hasBit_iff addr_bit_def bit_word_reverse_iff)
  then have f: "flip_bit i base = write_bit (\<not> addr_bit base i) i base"
    using b by (simp add: flip_bit_def Let_def)
  obtain p1 where p1: "flip_bit i base = Some p1" "length p1 = length base"
    "\<And>k. k < 8 * length base \<Longrightarrow> addr_bit p1 k = (if k = i then \<not> addr_bit base i else addr_bit base k)"
    unfolding f using write_bit_Some [of i base "\<not> addr_bit base i"] assms by auto
  obtain p2 where p2: "write_suffix (word_of_nat j) (i + 1) s p1 = Some p2" "length p2 = length base"
    "\<And>k. k < 8 * length base \<Longrightarrow> addr_bit p2 k =
      (if i + 1 \<le> k \<and> k < i + 1 + s then bit (word_of_nat j :: byte) (i + 1 + s - Suc k) else addr_bit p1 k)"
    using write_suffix_Some [of "i + 1" s p1 "word_of_nat j"] assms p1(2) by auto
  obtain p3 where p3: "clear_bits [i + s + 1..<length base * 8] p2 = Some p3" "length p3 = length base"
    "\<And>k. k < 8 * length base \<Longrightarrow> addr_bit p3 k = (k \<notin> set [i + s + 1..<length base * 8] \<and> addr_bit p2 k)"
    using clear_bits_Some [of "[i + s + 1..<length base * 8]" p2] p2(2) by auto
  have "addr_bit p3 k = pseudo_bit base s i j k" if "k < 8 * length base" for k
    using p3(3) [OF that] p2(3) [OF that] p1(3) [OF that] that by (auto simp: pseudo_bit_def)
  with p1(1) p2(1) p3(1,2) b(2) show ?thesis by (simp add: pseudo_address_def)
qed

lemma unat_ExtendedPO [simp]: "unat ExtendedPO = 36"
  by (simp add: ExtendedPO_def MaxPO_def)

lemma ExtendedProximity_prefix:
  assumes "5 \<le> length x" "length x < 256" "5 \<le> length y" "length y < 256" "n \<le> 36"
  shows "n \<le> unat (ExtendedProximity x y) \<longleftrightarrow> common_prefix x y n"
proof -
  have "shorter (shorter (ExtendedPO div 8 + 1) x) y = 5"
    using assms by (simp add: ExtendedPO_def MaxPO_def shorter_id)
  then have "(ExtendedProximity x y = ExtendedPO \<and> common_prefix x y 40) \<or>
    (unat (ExtendedProximity x y) < 40 \<and> addr_bit x (unat (ExtendedProximity x y)) \<noteq> addr_bit y (unat (ExtendedProximity x y)) \<and>
     common_prefix x y (unat (ExtendedProximity x y)))"
    using proximity_scan_upt [of x y 5] by (auto simp: ExtendedProximity_def unat_of_nat)
  then show ?thesis
    using assms(5) by (auto simp: common_prefix_def) (meson not_less)+
qed

lemma generate_nth:
  assumes "32 + s \<le> 8 * length (Bytes base)"
  shows "\<exists>ps. generateCommonBinPrefixes base s = Some ps \<and> length ps = 32 \<and>
    (\<forall>i<32. length (ps ! i) = 2 ^ s \<and> (\<forall>j<2 ^ s. \<exists>ys. ps ! i ! j = Address ys \<and>
       length ys = length (Bytes base) \<and>
       (\<forall>k<8 * length (Bytes base). addr_bit ys k = pseudo_bit (Bytes base) s i j k)))"
proof -
  define f where "f i j = the (pseudo_address (Bytes base) s i j)" for i j
  have f: "pseudo_address (Bytes base) s i j = Some (f i j) \<and> length (f i j) = length (Bytes base) \<and>
      (\<forall>k<8 * length (Bytes base). addr_bit (f i j) k = pseudo_bit (Bytes base) s i j k)" if "i < 32" for i j
    using pseudo_address_bits [of i s "Bytes base" j] that assms by (auto simp: f_def)
  have m: "unat MaxBins = 32" by (simp add: MaxBins_def MaxPO_def)
  have "generateCommonBinPrefixes base s = Some (map (\<lambda>i. map (\<lambda>j. Address (f i j)) [0..<2 ^ s]) [0..<32])"
    unfolding generateCommonBinPrefixes_def m
    by (intro all_some_map) (simp add: f NewAddress_def)
  then show ?thesis using f by auto
qed

lemma suffix_match:
  assumes "s \<le> 8" "j < 2 ^ s" "j' < 2 ^ s"
    and "\<And>n. n < s \<Longrightarrow> bit (word_of_nat j :: byte) n = bit (word_of_nat j' :: byte) n"
  shows "j = j'"
proof -
  have "bit j n = bit j' n" for n
  proof (cases "n < s")
    case True
    then show ?thesis using assms(1) assms(4) [OF True] by (simp add: bit_of_nat_iff)
  next
    case False
    have "\<not> bit j n" "\<not> bit j' n"
      using assms(2,3) False by (metis bit_take_bit_iff take_bit_nat_eq_self)+
    then show ?thesis by simp
  qed
  then show ?thesis by (rule bit_eqI)
qed

text \<open>The combination that an address has in the \<open>s\<close> bits after bit \<open>i\<close>.\<close>

definition slot_of :: "bytes \<Rightarrow> nat \<Rightarrow> nat \<Rightarrow> nat" where
  "slot_of x s i = horner_sum of_bool 2 (map (\<lambda>n. addr_bit x (i + s - n)) [0..<s])"

lemma bit_slot_of: "n < s \<Longrightarrow> bit (slot_of x s i) n = addr_bit x (i + s - n)"
  by (simp add: slot_of_def bit_horner_sum_bit_iff)

lemma slot_of_less: "slot_of x s i < 2 ^ s"
  unfolding slot_of_def using horner_sum_bound [of "map (\<lambda>n. addr_bit x (i + s - n)) [0..<s]"] by simp


lemma common_prefix_slot:
  assumes "s \<le> 8" "j < 2 ^ s" "i + s + 1 \<le> 8 * l"
    and "\<And>k. k < 8 * l \<Longrightarrow> addr_bit ys k = pseudo_bit b s i j k"
  shows "common_prefix x ys (i + s + 1) \<longleftrightarrow>
    common_prefix x b i \<and> addr_bit x i \<noteq> addr_bit b i \<and> j = slot_of x s i"
proof -
  have "common_prefix x ys (i + s + 1) \<longleftrightarrow> (\<forall>k<i + s + 1. addr_bit x k = pseudo_bit b s i j k)"
    using assms(3,4) by (simp add: common_prefix_def)
  also have "\<dots> \<longleftrightarrow> common_prefix x b i \<and> addr_bit x i \<noteq> addr_bit b i \<and>
      (\<forall>k. i < k \<and> k \<le> i + s \<longrightarrow> addr_bit x k = bit (word_of_nat j :: byte) (i + s - k))" (is "?L \<longleftrightarrow> ?R")
  proof
    assume L: ?L
    have "addr_bit x k = addr_bit b k" if "k < i" for k using spec [OF L, of k] that by (simp add: pseudo_bit_def)
    moreover have "addr_bit x i \<noteq> addr_bit b i" using spec [OF L, of i] by (simp add: pseudo_bit_def)
    moreover have "addr_bit x k = bit (word_of_nat j :: byte) (i + s - k)" if "i < k" "k \<le> i + s" for k
      using spec [OF L, of k] that by (simp add: pseudo_bit_def)
    ultimately show ?R by (simp add: common_prefix_def)
  next
    assume ?R
    then show ?L by (auto simp: common_prefix_def pseudo_bit_def)
  qed
  also have "(\<forall>k. i < k \<and> k \<le> i + s \<longrightarrow> addr_bit x k = bit (word_of_nat j :: byte) (i + s - k)) \<longleftrightarrow> j = slot_of x s i"
    (is "?L \<longleftrightarrow> ?R")
  proof
    assume L: ?L
    show ?R
    proof (rule suffix_match [OF assms(1,2) slot_of_less])
      fix n assume n: "n < s"
      then have "addr_bit x (i + s - n) = bit (word_of_nat j :: byte) n" using spec [OF L, of "i + s - n"] by simp
      moreover have "bit (word_of_nat (slot_of x s i) :: byte) n = addr_bit x (i + s - n)"
        using n assms(1) by (simp add: bit_of_nat_iff bit_slot_of)
      ultimately show "bit (word_of_nat j :: byte) n = bit (word_of_nat (slot_of x s i) :: byte) n" by simp
    qed
  next
    assume R: ?R
    show ?L
    proof (intro allI impI)
      fix k assume k: "i < k \<and> k \<le> i + s"
      then have "i + s - k < s" "i + s - k < 8" using assms(1) by auto
      then have "bit (word_of_nat (slot_of x s i) :: byte) (i + s - k) = addr_bit x (i + s - (i + s - k))"
        by (simp only: bit_of_nat_iff bit_slot_of) simp
      with R k show "addr_bit x k = bit (word_of_nat j :: byte) (i + s - k)" by simp
    qed
  qed
  finally show ?thesis .
qed

lemma bin_prefix_slot:
  assumes "5 \<le> length (Bytes b)" "length (Bytes b) < 256" "5 \<le> length x" "length x < 256" "i < 32" "j < 8"
    and "generateCommonBinPrefixes b 3 = Some ps"
  shows "i + 4 \<le> unat (ExtendedProximity x (Bytes (ps ! i ! j))) \<longleftrightarrow>
    common_prefix x (Bytes b) i \<and> addr_bit x i \<noteq> addr_bit (Bytes b) i \<and> j = slot_of x 3 i"
proof -
  have "\<exists>ys. ps ! i ! j = Address ys \<and> length ys = length (Bytes b) \<and>
      (\<forall>k<8 * length (Bytes b). addr_bit ys k = pseudo_bit (Bytes b) 3 i j k)"
    using generate_nth [of 3 b] assms by simp
  then obtain ys where ys: "ps ! i ! j = Address ys" "length ys = length (Bytes b)"
    "\<And>k. k < 8 * length (Bytes b) \<Longrightarrow> addr_bit ys k = pseudo_bit (Bytes b) 3 i j k"
    by blast
  then have "i + 4 \<le> unat (ExtendedProximity x (Bytes (ps ! i ! j))) \<longleftrightarrow> common_prefix x ys (i + 4)"
    using ExtendedProximity_prefix [of x ys "i + 4"] assms by simp
  also have "\<dots> \<longleftrightarrow> common_prefix x (Bytes b) i \<and> addr_bit x i \<noteq> addr_bit (Bytes b) i \<and> j = slot_of x 3 i"
    using common_prefix_slot [of 3 j i "length (Bytes b)" ys "Bytes b" x] ys(3) assms
    by (simp add: add.commute [of 4 i])
  finally show ?thesis .
qed

lemma Proximity_eq_iff:
  assumes "4 \<le> length b" "length b < 256" "4 \<le> length x" "length x < 256" "i < 31"
  shows "unat (Proximity b x) = i \<longleftrightarrow> common_prefix x b i \<and> addr_bit x i \<noteq> addr_bit b i"
proof -
  have "unat (Proximity b x) = i \<longleftrightarrow> i \<le> unat (Proximity b x) \<and> \<not> i + 1 \<le> unat (Proximity b x)"
    by auto
  also have "\<dots> \<longleftrightarrow> common_prefix b x i \<and> \<not> common_prefix b x (i + 1)"
    using Proximity_prefix [of b x] assms by simp
  finally show ?thesis by (auto simp: common_prefix_def less_Suc_eq)
qed

section \<open>Properties\<close>

text \<open>
  C30. The pseudo addresses of a bin divide its peers into slots: for a base address and peers
  of 5 to 255 bytes and the default suffix length 3, the generation does not panic, and for a
  bin \<open>i\<close> below the last one a peer \<open>x\<close> lies in that bin exactly when its extended proximity
  to one of the 8 pseudo addresses of the bin reaches \<open>i + 4\<close>, the bound that the balancer
  tests; there is exactly one such pseudo address then, the one with the three bits of \<open>x\<close>
  after bit \<open>i\<close>.
\<close>

theorem bin_prefix_slots:
  assumes "5 \<le> length (Bytes b)" "length (Bytes b) < 256" "5 \<le> length x" "length x < 256" "i < 31"
  shows "\<exists>ps. generateCommonBinPrefixes b 3 = Some ps \<and>
    (unat (Proximity (Bytes b) x) = i \<longleftrightarrow> (\<exists>j<8. i + 4 \<le> unat (ExtendedProximity x (Bytes (ps ! i ! j))))) \<and>
    (\<forall>j<8. i + 4 \<le> unat (ExtendedProximity x (Bytes (ps ! i ! j))) \<longrightarrow> j = slot_of x 3 i)"
proof -
  obtain ps where ps: "generateCommonBinPrefixes b 3 = Some ps"
    using generate_nth [of 3 b] assms by auto
  have "unat (Proximity (Bytes b) x) = i \<longleftrightarrow> common_prefix x (Bytes b) i \<and> addr_bit x i \<noteq> addr_bit (Bytes b) i"
    using assms by (intro Proximity_eq_iff) auto
  then show ?thesis
    using ps bin_prefix_slot [OF assms(1-4) _ _ ps, of i] assms(5) slot_of_less [of x 3 i]
    by (intro exI [of _ ps]) auto
qed

theorem bin_prefix_slots_witness:
  "\<exists>ps. generateCommonBinPrefixes (Address [0, 0, 0, 0, 0]) 3 = Some ps \<and>
     (\<exists>j<8. 4 \<le> unat (ExtendedProximity [208, 0, 0, 0, 0] (Bytes (ps ! 0 ! j))))"
proof -
  have "unat (Proximity [0, 0, 0, 0, 0] [208, 0, 0, 0, 0]) = 0" by code_simp
  with bin_prefix_slots [of "Address [0, 0, 0, 0, 0]" "[208, 0, 0, 0, 0]" 0] show ?thesis by auto
qed

end
