(* ===== verification/KadManage.thy ===== *)
theory KadManage
  imports Kademlia Blocker Metrics BinPrefix BitVector "HOL-Library.Monad_Syntax"
begin

text \<open>
  The connection management of the Kademlia topology
  (\<^verbatim>\<open>src/pkg/topology/kademlia/kademlia.go\<close>): the handlers for dialled, accepted and closed
  connections, the dialling of balanced peers and neighbours, the announcements to other
  peers and the pruning of oversaturated bins, over the peer lists, the retry table, the
  metrics collector and the address book; and the node modes of
  \<^verbatim>\<open>src/pkg/address/model.go\<close>. What a handler asks of the network is an argument (the result
  of a dial, the streams of a peer, whether a worker takes a request); what it tells others is
  a list of events. The reading \<open>now\<close> of the clock stands for the readings of one call.
  \<open>None\<close> is a panic.
\<close>

section \<open>Node modes\<close>

type_synonym node_mode = bitvector

definition FullNode :: int where
  "FullNode = 0"

definition BootNode :: int where
  "BootNode = 1"

definition bitVictorNodeModeLen :: int where
  "bitVictorNodeModeLen = 1"

definition NewModel :: "node_mode option" where
  "NewModel = Option.bind (BitVector_New bitVictorNodeModeLen) (\<lambda>r. case r of Inl _ \<Rightarrow> None | Inr bv \<Rightarrow> Some bv)"

definition NewModelFromBytes :: "bytes \<Rightarrow> (bv_error option \<times> node_mode) option" where
  "NewModelFromBytes m =
     (case NewFromBytes m bitVictorNodeModeLen of
        Inl e \<Rightarrow> map_option (\<lambda>bv. (Some e, bv)) NewModel
      | Inr bv \<Rightarrow> Some (None, bv))"

definition SetMode :: "node_mode \<Rightarrow> int \<Rightarrow> node_mode option" where
  "SetMode m md = BitVector_Set m md"

definition IsFull :: "node_mode \<Rightarrow> bool option" where
  "IsFull m = BitVector_Get m FullNode"

definition IsBootNode :: "node_mode \<Rightarrow> bool option" where
  "IsBootNode m = BitVector_Get m BootNode"

section \<open>State\<close>

record p2p_peer =
  pAddress :: address
  pMode :: node_mode

datatype peer_state_event = PeerStateConnectOut | PeerStateDisconnect

datatype kad_event =
    NotifyManage
  | PublishPeersChange
  | NotifyPeerState address bytes peer_state_event
  | P2PDisconnect address
  | BroadcastPeers address "address list"

record 'u kstate =
  kd :: kad
  addressBook :: "address \<rightharpoonup> 'u"
  waitNext :: waitnext
  k_collector :: collector
  nodeMode :: node_mode
  staticNodes :: "address list"
  oversaturation :: nat
  k_blocker :: blocker

datatype conn_error =
    ErrNetworkUnavailable
  | ErrPruneEntry
  | ErrOverlayMismatch
  | ErrCanceled
  | ErrPeerBlocklisted
  | ErrBackoff gotime bool
  | ErrDial bool
  | ErrAnnounce
  | ErrOversaturated
  | ErrEmpty
  | ErrDisconnect
  | ErrAddressBook

text \<open>
  The result of \<open>p2p.Connect\<close>; the flag of the last two errors is \<open>isNetworkError\<close>, and a
  backoff error carries the time of the next attempt.
\<close>

datatype dial_result =
    DialOk p2p_peer
  | DialNetworkUnavailable
  | DialLightNode
  | DialAlreadyConnected p2p_peer
  | DialCanceled
  | DialBlocklisted
  | DialBackoff gotime bool
  | DialError bool

definition kad_flagTimeout :: duration where
  "kad_flagTimeout = 5 * minute"

definition kad_blockDuration :: duration where
  "kad_blockDuration = hour"

definition blockWorkerWakeup :: duration where
  "blockWorkerWakeup = second * 15"

definition maxConnAttempts :: int where
  "maxConnAttempts = 1"

definition overSaturationPeers :: nat where
  "overSaturationPeers = 20"

definition shortRetry :: duration where
  "shortRetry = 30 * second"

definition timeToRetry :: duration where
  "timeToRetry = 2 * shortRetry"

definition broadcastBinSize :: int where
  "broadcastBinSize = 4"

definition peerUnreachable :: "gotime \<Rightarrow> collector \<Rightarrow> address \<Rightarrow> bool" where
  "peerUnreachable now c a =
     (case Inspect now a c of
        None \<Rightarrow> True
      | Some ss \<Rightarrow> if Reachability ss \<noteq> ReachabilityStatusPublic then True else False)"

definition put_connected :: "pslice \<Rightarrow> 'u kstate \<Rightarrow> 'u kstate" where
  "put_connected ps k = k\<lparr>kd := (kd k)\<lparr>connectedPeers := ps\<rparr>\<rparr>"

definition put_known :: "pslice \<Rightarrow> 'u kstate \<Rightarrow> 'u kstate" where
  "put_known ps k = k\<lparr>kd := (kd k)\<lparr>knownPeers := ps\<rparr>\<rparr>"

text \<open>\<open>k.depth = recalcDepth(k.connectedPeers, k.radius, k.peerFilter)\<close>\<close>

definition update_depth :: "gotime \<Rightarrow> 'u kstate \<Rightarrow> 'u kstate option" where
  "update_depth now k =
     map_option (\<lambda>d. k\<lparr>kd := (kd k)\<lparr>depth := d\<rparr>\<rparr>)
       (recalcDepth (connectedPeers (kd k)) (radius (kd k)) (peerUnreachable now (k_collector k)))"

definition saturation ::
  "gotime \<Rightarrow> byte \<Rightarrow> 'u kstate \<Rightarrow> (bool \<times> bool) option" where
  "saturation now po k =
     binSaturated (oversaturation k) (isStaticPeer (staticNodes k)) po (knownPeers (kd k)) (connectedPeers (kd k))
       (peerUnreachable now (k_collector k))"

text \<open>The constructor, for the default options.\<close>

definition Kad_New :: "address \<Rightarrow> node_mode \<Rightarrow> address list \<Rightarrow> (address \<rightharpoonup> 'u) \<Rightarrow> collector \<Rightarrow> 'u kstate option" where
  "Kad_New b mode static book c = do {
     bl \<leftarrow> Blocker_New kad_flagTimeout kad_blockDuration blockWorkerWakeup;
     known \<leftarrow> PSlice_New (uint MaxBins) b;
     connected \<leftarrow> PSlice_New (uint MaxBins) b;
     prefixes \<leftarrow> generateCommonBinPrefixes b 3;
     Some \<lparr>kd = \<lparr>base = b, bitSuffixLength = 3, commonBinPrefixes = prefixes, connectedPeers = connected,
                 knownPeers = known, depth = 0, radius = MaxPO, public = False, protectPeers = []\<rparr>,
           addressBook = book, waitNext = WaitNext_New, k_collector = c, nodeMode = mode, staticNodes = static,
           oversaturation = overSaturationPeers, k_blocker = bl\<rparr> }"

section \<open>Handlers\<close>

definition Outbound :: "gotime \<Rightarrow> p2p_peer \<Rightarrow> 'u kstate \<Rightarrow> ('u kstate \<times> kad_event list) option" where
  "Outbound now peer k = do {
     c \<leftarrow> Record (pAddress peer) [PeerLogIn now DirectionOutbound] (k_collector k);
     boot \<leftarrow> IsBootNode (pMode peer);
     let k1 = k\<lparr>k_collector := c, waitNext := WaitNext_Remove (pAddress peer) (waitNext k)\<rparr>;
     let out = NotifyPeerState (pAddress peer) (bv_b (pMode peer)) PeerStateConnectOut;
     if boot then do {
       known \<leftarrow> PSlice_Remove (knownPeers (kd k1)) (pAddress peer);
       Some (put_known known k1, [out])
     } else do {
       known \<leftarrow> PSlice_Add (knownPeers (kd k1)) [pAddress peer];
       connected \<leftarrow> PSlice_Add (connectedPeers (kd k1)) [pAddress peer];
       k2 \<leftarrow> update_depth now (put_connected connected (put_known known k1));
       Some (k2, [NotifyManage, PublishPeersChange, out])
     } }"

definition Pick :: "gotime \<Rightarrow> p2p_peer \<Rightarrow> 'u kstate \<Rightarrow> bool option" where
  "Pick now peer k = do {
     boot \<leftarrow> IsBootNode (nodeMode k);
     if boot then Some True
     else if IsProtectPeer (kd k) (pAddress peer) then Some True
     else do {
       (_, oversaturated) \<leftarrow> saturation now (Proximity (Bytes (base (kd k))) (Bytes (pAddress peer))) k;
       Some (\<not> oversaturated)
     } }"

text \<open>
  The discovery service: whether it runs, and whether it is the second version, which does
  its own gossip; \<open>bg_done\<close> tells that the node is closing, \<open>bc_ok\<close> whether the last broadcast
  succeeds, \<open>rs\<close> gives the random numbers for each bin.
\<close>

record announce_env =
  a_started :: bool
  a_hive2 :: bool
  a_bg_done :: bool
  a_bc_ok :: bool
  a_rs :: "byte \<Rightarrow> nat option list"

fun announce_peers :: "bool \<Rightarrow> bool \<Rightarrow> address \<Rightarrow> address list \<Rightarrow> address list \<times> kad_event list" where
  "announce_peers fullnode bg_done peer [] = ([], [])"
| "announce_peers fullnode bg_done peer (p # ps) =
     (case announce_peers fullnode bg_done peer ps of
        (addrs, evs) \<Rightarrow>
          if Equal p peer then (addrs, evs)
          else if \<not> fullnode \<or> bg_done then (p # addrs, evs)
          else (p # addrs, BroadcastPeers p [peer] # evs))"

fun announce_bins ::
  "announce_env \<Rightarrow> (address \<Rightarrow> bool) \<Rightarrow> address \<Rightarrow> bool \<Rightarrow> kad \<Rightarrow> byte list
   \<Rightarrow> (bool \<times> address list \<times> kad_event list) option" where
  "announce_bins env filt peer fullnode k [] = Some (False, [], [])"
| "announce_bins env filt peer fullnode k (bin # bins) = do {
     ps \<leftarrow> binReachablePeers filt k bin;
     r \<leftarrow> randomSubset (a_rs env bin) ps broadcastBinSize;
     case r of
       Inl _ \<Rightarrow> Some (True, [], [])
     | Inr sub \<Rightarrow> do {
         let (addrs, evs) = announce_peers fullnode (a_bg_done env) peer sub;
         (err, addrs', evs') \<leftarrow> announce_bins env filt peer fullnode k bins;
         Some (err, addrs @ addrs', evs @ evs')
       } }"

definition all_bins :: "byte list" where
  "all_bins = map word_of_nat [0..<unat MaxBins]"

definition Announce ::
  "announce_env \<Rightarrow> gotime \<Rightarrow> address \<Rightarrow> bool \<Rightarrow> 'u kstate \<Rightarrow> (bool \<times> kad_event list) option" where
  "Announce env now peer fullnode k =
     (if \<not> a_started env \<or> a_hive2 env then Some (False, [])
      else do {
        (err, addrs, evs) \<leftarrow> announce_bins env (peerUnreachable now (k_collector k)) peer fullnode (kd k) all_bins;
        if err then Some (True, evs)
        else if length addrs = 0 then Some (False, evs)
        else if a_bc_ok env then Some (False, evs @ [BroadcastPeers peer addrs])
        else Some (True, evs @ [BroadcastPeers peer addrs, P2PDisconnect peer])
      })"

definition AnnounceTo :: "announce_env \<Rightarrow> address \<Rightarrow> address \<Rightarrow> bool \<Rightarrow> bool \<times> kad_event list" where
  "AnnounceTo env addressee peer fullnode =
     (if \<not> fullnode then (True, [])
      else if \<not> a_started env \<or> a_hive2 env then (False, [])
      else (\<not> a_bc_ok env, [BroadcastPeers addressee [peer]]))"

definition onConnected ::
  "announce_env \<Rightarrow> gotime \<Rightarrow> p2p_peer \<Rightarrow> 'u kstate \<Rightarrow> (conn_error option \<times> 'u kstate \<times> kad_event list) option" where
  "onConnected env now peer k = do {
     (err, evs) \<leftarrow> Announce env now (pAddress peer) True k;
     if err then Some (Some ErrAnnounce, k, evs)
     else do {
       known \<leftarrow> PSlice_Add (knownPeers (kd k)) [pAddress peer];
       connected \<leftarrow> PSlice_Add (connectedPeers (kd k)) [pAddress peer];
       c \<leftarrow> Record (pAddress peer) [PeerLogIn now DirectionInbound] (k_collector k);
       k2 \<leftarrow> update_depth now ((put_connected connected (put_known known k))
               \<lparr>k_collector := c, waitNext := WaitNext_Remove (pAddress peer) (waitNext k)\<rparr>);
       Some (None, k2, evs @ [NotifyManage, PublishPeersChange])
     } }"

definition Kad_Connected ::
  "announce_env \<Rightarrow> (nat \<Rightarrow> nat option) \<Rightarrow> gotime \<Rightarrow> p2p_peer \<Rightarrow> bool \<Rightarrow> 'u kstate
   \<Rightarrow> (conn_error option \<times> 'u kstate \<times> kad_event list) option" where
  "Kad_Connected env rnd now peer forceConnection k = do {
     let po = Proximity (Bytes (base (kd k))) (Bytes (pAddress peer));
     (_, overSaturated) \<leftarrow> saturation now po k;
     if overSaturated \<and> \<not> IsProtectPeer (kd k) (pAddress peer) then do {
       boot \<leftarrow> IsBootNode (nodeMode k);
       if boot then do {
         r \<leftarrow> randomPeer rnd (isStaticPeer (staticNodes k)) (kd k) po;
         case r of
           Inl _ \<Rightarrow> Some (Some ErrEmpty, k, [])
         | Inr randPeer \<Rightarrow>
             map_option (\<lambda>(e, k', evs). (e, k', P2PDisconnect randPeer # evs)) (onConnected env now peer k)
       }
       else if \<not> forceConnection then Some (Some ErrOversaturated, k, [])
       else onConnected env now peer k
     }
     else onConnected env now peer k }"

definition Kad_Disconnected :: "gotime \<Rightarrow> p2p_peer \<Rightarrow> 'u kstate \<Rightarrow> ('u kstate \<times> kad_event list) option" where
  "Kad_Disconnected now peer k = do {
     connected \<leftarrow> PSlice_Remove (connectedPeers (kd k)) (pAddress peer);
     c \<leftarrow> Record (pAddress peer) [PeerLogOut now] (k_collector k);
     k2 \<leftarrow> update_depth now ((put_connected connected k)
             \<lparr>waitNext := WaitNext_SetTryAfter (pAddress peer) (now + timeToRetry) (waitNext k), k_collector := c\<rparr>);
     Some (k2, [NotifyManage, PublishPeersChange,
                NotifyPeerState (pAddress peer) (bv_b (pMode peer)) PeerStateDisconnect]) }"

text \<open>\<open>disc_ok\<close> and \<open>book_ok\<close> tell whether the calls of the p2p service and the address book succeed.\<close>

definition DisconnectForce ::
  "bool \<Rightarrow> bool \<Rightarrow> gotime \<Rightarrow> address \<Rightarrow> 'u kstate \<Rightarrow> (conn_error option \<times> 'u kstate) option" where
  "DisconnectForce disc_ok book_ok now a k =
     (if \<not> disc_ok then Some (Some ErrDisconnect, k)
      else if \<not> book_ok then Some (Some ErrAddressBook, k)
      else do {
        connected \<leftarrow> PSlice_Remove (connectedPeers (kd k)) a;
        known \<leftarrow> PSlice_Remove (knownPeers (kd k)) a;
        c \<leftarrow> Record a [PeerLogOut now] (k_collector k);
        k2 \<leftarrow> update_depth now ((put_connected connected (put_known known k))
                \<lparr>addressBook := (addressBook k)(a := None), k_collector := c\<rparr>);
        Some (None, k2)
      })"

definition Kad_Reachable_status ::
  "gotime \<Rightarrow> address \<Rightarrow> reachability_status \<Rightarrow> 'u kstate \<Rightarrow> ('u kstate \<times> kad_event list) option" where
  "Kad_Reachable_status now a status k = do {
     c \<leftarrow> Record a [PeerReachability status] (k_collector k);
     let k1 = k\<lparr>k_collector := c\<rparr>;
     if status = ReachabilityStatusPublic
     then map_option (\<lambda>k2. (k2, [NotifyManage])) (update_depth now k1)
     else Some (k1, []) }"

definition UpdateReachability :: "reachability_status \<Rightarrow> 'u kstate \<Rightarrow> 'u kstate" where
  "UpdateReachability status k =
     (if status = ReachabilityStatusUnknown then k
      else k\<lparr>kd := (kd k)\<lparr>public := (status = ReachabilityStatusPublic)\<rparr>\<rparr>)"

section \<open>Dialling\<close>

definition forget_peer :: "address \<Rightarrow> 'u kstate \<Rightarrow> 'u kstate option" where
  "forget_peer a k = do {
     known \<leftarrow> PSlice_Remove (knownPeers (kd k)) a;
     Some ((put_known known k)
       \<lparr>waitNext := WaitNext_Remove a (waitNext k), addressBook := (addressBook k)(a := None)\<rparr>) }"

text \<open>The bookkeeping of a failed dial: the retry time, the failed attempts, the pruning.\<close>

definition dial_failed ::
  "gotime \<Rightarrow> address \<Rightarrow> gotime option \<Rightarrow> bool \<Rightarrow> 'u kstate \<Rightarrow> 'u kstate option" where
  "dial_failed now peer backoff networkError k = do {
     let retryTime = (case backoff of Some t \<Rightarrow> t | None \<Rightarrow> now + timeToRetry);
     let failedAttempts = (case backoff of Some _ \<Rightarrow> 0 | None \<Rightarrow> Attempts peer (waitNext k) + 1);
     c \<leftarrow> Record peer [IncSessionConnectionRetry] (k_collector k);
     let k1 = k\<lparr>k_collector := c\<rparr>;
     let ss = Inspect now peer c;
     let quickPrune = ((case ss of None \<Rightarrow> True | Some s \<Rightarrow> HasAtMaxOneConnectionAttempt s) \<and> networkError);
     if (PSlice_Length (connectedPeers (kd k)) > 0 \<and> quickPrune) \<or> failedAttempts \<ge> maxConnAttempts
     then forget_peer peer k1
     else Some (k1\<lparr>waitNext := WaitNext_Set peer retryTime failedAttempts (waitNext k1)\<rparr>) }"

text \<open>
  \<open>connect\<close>: the peer and the error it returns (both, when the announcement fails), the state
  and the events. \<open>unavailable\<close> is the network status after the dial.
\<close>

definition kad_connect ::
  "announce_env \<Rightarrow> gotime \<Rightarrow> dial_result \<Rightarrow> bool \<Rightarrow> address \<Rightarrow> 'u kstate
   \<Rightarrow> (p2p_peer option \<times> conn_error option \<times> 'u kstate \<times> kad_event list) option" where
  "kad_connect env now dial unavailable peer k =
     (if dial = DialNetworkUnavailable then Some (None, Some ErrNetworkUnavailable, k, [])
      else if unavailable then Some (None, Some ErrNetworkUnavailable, k, [])
      else
        case dial of
          DialNetworkUnavailable \<Rightarrow> Some (None, Some ErrNetworkUnavailable, k, [])
        | DialLightNode \<Rightarrow> Some (None, Some ErrPruneEntry, k, [])
        | DialAlreadyConnected i \<Rightarrow>
            (if \<not> Equal (pAddress i) peer then Some (None, Some ErrOverlayMismatch, k, [])
             else Some (Some i, None, k, []))
        | DialCanceled \<Rightarrow> Some (None, Some ErrCanceled, k, [])
        | DialBlocklisted \<Rightarrow> Some (None, Some ErrPeerBlocklisted, k, [])
        | DialBackoff t ne \<Rightarrow>
            map_option (\<lambda>k'. (None, Some (ErrBackoff t ne), k', [])) (dial_failed now peer (Some t) ne k)
        | DialError ne \<Rightarrow>
            map_option (\<lambda>k'. (None, Some (ErrDial ne), k', [])) (dial_failed now peer None ne k)
        | DialOk i \<Rightarrow>
            (if \<not> Equal (pAddress i) peer
             then Some (None, Some ErrOverlayMismatch, k, [P2PDisconnect peer, P2PDisconnect (pAddress i)])
             else do {
               full \<leftarrow> IsFull (pMode i);
               (err, evs) \<leftarrow> Announce env now (pAddress i) full k;
               Some (Some i, if err then Some ErrAnnounce else None, k, evs)
             }))"

definition Connection ::
  "announce_env \<Rightarrow> gotime \<Rightarrow> dial_result \<Rightarrow> bool \<Rightarrow> address \<Rightarrow> 'u kstate
   \<Rightarrow> (conn_error option \<times> 'u kstate \<times> kad_event list) option" where
  "Connection env now dial unavailable overlay k = do {
     (i, err, k1, evs) \<leftarrow> kad_connect env now dial unavailable overlay k;
     case err of
       Some e \<Rightarrow>
         (if e = ErrPruneEntry \<or> e = ErrOverlayMismatch
          then map_option (\<lambda>k2. (Some e, k2, evs)) (forget_peer overlay k1)
          else Some (Some e, k1, evs))
     | None \<Rightarrow>
         (case i of
            None \<Rightarrow> None
          | Some peer \<Rightarrow> map_option (\<lambda>(k2, evs'). (None, k2, evs @ evs')) (Outbound now peer k1)) }"

text \<open>\<open>book_error\<close> is an error of the address book other than a missing entry.\<close>

definition GetAuroraAddress :: "bool \<Rightarrow> address \<Rightarrow> 'u kstate \<Rightarrow> ('u option \<times> 'u kstate) option" where
  "GetAuroraAddress book_error overlay k =
     (if book_error then Some (None, k)
      else case addressBook k overlay of
             Some u \<Rightarrow> Some (Some u, k)
           | None \<Rightarrow> map_option (\<lambda>known. (None, put_known known k)) (PSlice_Remove (knownPeers (kd k)) overlay))"

text \<open>A worker takes a request from the channel.\<close>

definition connAttempt ::
  "announce_env \<Rightarrow> gotime \<Rightarrow> dial_result \<Rightarrow> bool \<Rightarrow> bool \<Rightarrow> address \<Rightarrow> 'u kstate \<Rightarrow> ('u kstate \<times> kad_event list) option" where
  "connAttempt env now dial unavailable book_error peer k =
     (if Waiting now peer (waitNext k) then Some (k, [])
      else do {
        (entry, k1) \<leftarrow> GetAuroraAddress book_error peer k;
        case entry of
          None \<Rightarrow> Some (k1, [])
        | Some _ \<Rightarrow> map_option (\<lambda>(_, k2, evs). (k2, evs)) (Connection env now dial unavailable peer k1)
      })"

text \<open>One ping of \<open>recordPeerLatencies\<close>, with its result.\<close>

definition recordPeerLatency ::
  "network_status \<Rightarrow> (duration \<Rightarrow> duration \<Rightarrow> duration) \<Rightarrow> address \<Rightarrow> duration option \<Rightarrow> 'u kstate \<Rightarrow> 'u kstate option" where
  "recordPeerLatency st ewma a ping k =
     (case ping of
        None \<Rightarrow> Some (k\<lparr>k_blocker := Flag st a (k_blocker k)\<rparr>)
      | Some l \<Rightarrow> do {
          c \<leftarrow> Record a [PeerLatency ewma l] (k_collector k);
          Some (k\<lparr>k_blocker := Unflag a (k_blocker k), k_collector := c\<rparr>) })"

subsection \<open>Producers of dial requests\<close>

text \<open>
  A request is sent when a worker is waiting for it (\<open>ready\<close>), otherwise the manage loop is
  notified. The loop over the pseudo addresses of a bin ends after the first request.
\<close>

fun balance_bin ::
  "(address \<Rightarrow> bool) \<Rightarrow> bool \<Rightarrow> (address \<Rightarrow> bool) \<Rightarrow> kad \<Rightarrow> byte \<Rightarrow> address list \<Rightarrow> address list \<Rightarrow> address list
   \<Rightarrow> (bool \<times> (byte \<times> address) list \<times> kad_event list) option" where
  "balance_bin ready quitting waiting k minPO binPeers binConnected [] = Some (False, [], [])"
| "balance_bin ready quitting waiting k minPO binPeers binConnected (pseudo # rest) =
     (if snd (nClosePeerInSlice binConnected pseudo (\<lambda>_. False) minPO)
      then balance_bin ready quitting waiting k minPO binPeers binConnected rest
      else
        (case nClosePeerInSlice binPeers pseudo waiting minPO of
           (closest, exists) \<Rightarrow>
             if \<not> exists then balance_bin ready quitting waiting k minPO binPeers binConnected rest
             else do {
               connected \<leftarrow> PSlice_Exists (connectedPeers k) closest;
               if connected then balance_bin ready quitting waiting k minPO binPeers binConnected rest
               else if quitting then Some (True, [], [])
               else if ready closest
               then Some (False, [(Proximity (Bytes (base k)) (Bytes closest), closest)], [])
               else Some (False, [], [NotifyManage])
             }))"

fun balance_bins ::
  "(address \<Rightarrow> bool) \<Rightarrow> bool \<Rightarrow> (address \<Rightarrow> bool) \<Rightarrow> kad \<Rightarrow> nat list
   \<Rightarrow> ((byte \<times> address) list \<times> kad_event list) option" where
  "balance_bins ready quitting waiting k [] = Some ([], [])"
| "balance_bins ready quitting waiting k (i # is) = do {
     binPeersLength \<leftarrow> PSlice_BinSize (knownPeers k) (word_of_nat i);
     if i \<ge> unat (NeighborhoodDepth k) \<and> binPeersLength < length (commonBinPrefixes k ! i)
     then balance_bins ready quitting waiting k is
     else do {
       binPeers \<leftarrow> PSlice_BinPeers (knownPeers k) (word_of_nat i);
       binConnected \<leftarrow> PSlice_BinPeers (connectedPeers k) (word_of_nat i);
       (stop, reqs, evs) \<leftarrow> balance_bin ready quitting waiting k (word_of_int (int i + bitSuffixLength k + 1))
                              binPeers binConnected (commonBinPrefixes k ! i);
       if stop then Some (reqs, evs)
       else do {
         (reqs', evs') \<leftarrow> balance_bins ready quitting waiting k is;
         Some (reqs @ reqs', evs @ evs')
       } } }"

definition connectBalanced ::
  "(address \<Rightarrow> bool) \<Rightarrow> bool \<Rightarrow> gotime \<Rightarrow> 'u kstate \<Rightarrow> ((byte \<times> address) list \<times> kad_event list) option" where
  "connectBalanced ready quitting now k =
     balance_bins ready quitting (\<lambda>p. Waiting now p (waitNext k)) (kd k) [0..<length (commonBinPrefixes (kd k))]"

text \<open>The state of the callback: \<open>sent\<close>, \<open>currentPo\<close>, the requests and the events; \<open>None\<close> a panic.\<close>

definition neighbours_cb ::
  "(address \<Rightarrow> bool) \<Rightarrow> bool \<Rightarrow> gotime \<Rightarrow> 'u kstate
   \<Rightarrow> ((nat \<times> byte \<times> (byte \<times> address) list \<times> kad_event list) option, unit) peer_func" where
  "neighbours_cb ready quitting now k a po st =
     (case st of
        None \<Rightarrow> ((True, False, None), None)
      | Some (sent, currentPo, reqs, evs) \<Rightarrow>
          if po < NeighborhoodDepth (kd k) then ((False, True, None), st)
          else
            (let sent1 = (if po \<noteq> currentPo then 0 else sent) in
             case PSlice_Exists (connectedPeers (kd k)) a of
               None \<Rightarrow> ((True, False, None), None)
             | Some True \<Rightarrow> ((False, False, None), Some (sent1, po, reqs, evs))
             | Some False \<Rightarrow>
                 if Waiting now a (waitNext k) then ((False, False, None), Some (sent1, po, reqs, evs))
                 else if quitting then ((True, False, None), Some (sent1, po, reqs, evs))
                 else ((False, sent1 + 1 = saturationPeers, None),
                       Some (sent1 + 1, po, if ready a then reqs @ [(po, a)] else reqs,
                             if ready a then evs else evs @ [NotifyManage]))))"

definition connectNeighbours ::
  "(address \<Rightarrow> bool) \<Rightarrow> bool \<Rightarrow> gotime \<Rightarrow> 'u kstate \<Rightarrow> ((byte \<times> address) list \<times> kad_event list) option" where
  "connectNeighbours ready quitting now k = do {
     (_, st) \<leftarrow> PSlice_EachBinRev (\<lambda>_. knownPeers (kd k)) (neighbours_cb ready quitting now k) (Some (0, 0, [], []));
     (sent, currentPo, reqs, evs) \<leftarrow> st;
     Some (reqs, evs) }"

section \<open>Pruning\<close>

definition balancedSlotPeers :: "kad \<Rightarrow> address \<Rightarrow> address list \<Rightarrow> nat \<Rightarrow> address list" where
  "balancedSlotPeers k pseudoAddr ps po =
     filter (\<lambda>peer. uint (ExtendedProximity (Bytes peer) (Bytes pseudoAddr)) \<ge> int po + bitSuffixLength k + 1) ps"

text \<open>
  \<open>streams\<close> is the number of streams of a peer, \<open>None\<close> when the p2p service does not know it,
  read once for the list of free peers and once before the disconnection; \<open>disc_ok\<close> tells
  whether the disconnection succeeds. The result is the disconnected peer, if there is one.
\<close>

fun disconnect_one :: "(address \<Rightarrow> int option) \<Rightarrow> (address \<Rightarrow> bool) \<Rightarrow> address list \<Rightarrow> address option" where
  "disconnect_one streams disc_ok [] = None"
| "disconnect_one streams disc_ok (p # ps) =
     (if (case streams p of None \<Rightarrow> False | Some n \<Rightarrow> n \<le> 0) \<and> disc_ok p then Some p
      else disconnect_one streams disc_ok ps)"

fun prune_slots ::
  "(address \<Rightarrow> int option) \<Rightarrow> (address \<Rightarrow> bool) \<Rightarrow> kad \<Rightarrow> nat \<Rightarrow> address list \<Rightarrow> nat \<Rightarrow> address list \<Rightarrow> address list" where
  "prune_slots streams disc_ok k i freeList peersToRemove [] = []"
| "prune_slots streams disc_ok k i freeList peersToRemove (pseudoAddr # rest) =
     (if peersToRemove = 0 then []
      else
        (let ps = balancedSlotPeers k pseudoAddr freeList i in
         if length ps \<le> 1 then prune_slots streams disc_ok k i freeList peersToRemove rest
         else
           case disconnect_one streams disc_ok ps of
             None \<Rightarrow> prune_slots streams disc_ok k i freeList peersToRemove rest
           | Some p \<Rightarrow> p # prune_slots streams disc_ok k i freeList (peersToRemove - 1) rest))"

definition free_peers :: "(address \<Rightarrow> int option) \<Rightarrow> kad \<Rightarrow> address list \<Rightarrow> address list" where
  "free_peers streams k binPeers =
     filter (\<lambda>p. \<not> IsProtectPeer k p \<and> (case streams p of None \<Rightarrow> False | Some n \<Rightarrow> n \<le> 0)) binPeers"

fun prune_bins ::
  "(address \<Rightarrow> int option) \<Rightarrow> (address \<Rightarrow> int option) \<Rightarrow> (address \<Rightarrow> bool) \<Rightarrow> kad \<Rightarrow> byte \<Rightarrow> nat list
   \<Rightarrow> address list option" where
  "prune_bins streams streams' disc_ok k dep [] = Some []"
| "prune_bins streams streams' disc_ok k dep (i # is) =
     (if i \<ge> unat dep then Some []
      else do {
        let over = overSaturationPeers + quickSaturationPeers;
        binPeersCount \<leftarrow> PSlice_BinSize (connectedPeers k) (word_of_nat i);
        if binPeersCount \<le> over then prune_bins streams streams' disc_ok k dep is
        else do {
          binPeers \<leftarrow> PSlice_BinPeers (connectedPeers k) (word_of_nat i);
          let gone = prune_slots streams' disc_ok k i (free_peers streams k binPeers) (binPeersCount - over)
                       (commonBinPrefixes k ! i);
          rest \<leftarrow> prune_bins streams streams' disc_ok k dep is;
          Some (gone @ rest)
        } })"

definition pruneOversaturatedBins ::
  "(address \<Rightarrow> int option) \<Rightarrow> (address \<Rightarrow> int option) \<Rightarrow> (address \<Rightarrow> bool) \<Rightarrow> kad \<Rightarrow> byte \<Rightarrow> address list option" where
  "pruneOversaturatedBins streams streams' disc_ok k dep =
     prune_bins streams streams' disc_ok k dep [0..<length (commonBinPrefixes k)]"

section \<open>Views\<close>

definition previouslyConnected :: "gotime \<Rightarrow> collector \<Rightarrow> address list" where
  "previouslyConnected now c =
     map (\<lambda>(a, _). NewAddress a) (filter (\<lambda>(_, p). ConnectionTotalDuration p > 0) (Snapshot now [] c))"

text \<open>\<open>sort.Slice\<close> by latency and then by position, which is a stable sort by latency.\<close>

definition GetPeersWithLatencyEWMA :: "gotime \<Rightarrow> collector \<Rightarrow> address list \<Rightarrow> address list" where
  "GetPeersWithLatencyEWMA now c list =
     sort_key (\<lambda>v. case Inspect now v c of Some ss \<Rightarrow> LatencyEWMA ss | None \<Rightarrow> 10000000000) list"

section \<open>Lemmas\<close>

subsection \<open>Peer lists of the node\<close>

definition peers_ok :: "address \<Rightarrow> pslice \<Rightarrow> bool" where
  "peers_ok b s \<longleftrightarrow> pslice_wf s \<and> maxBins s = 32 \<and> baseBytes s = Bytes b"

lemma add_all_frame: "maxBins (add_all xs s) = maxBins s \<and> baseBytes (add_all xs s) = baseBytes s"
  by (induction xs s rule: add_all.induct) (simp_all add: append_peer_def)

lemma peers_ok_placed: "peers_ok b s \<Longrightarrow> pslice_placed s \<and> maxBins s \<le> 256"
  by (simp add: peers_ok_def pslice_wf_def)

lemma peers_ok_Add:
  assumes "peers_ok b s" "distinct as"
  obtains s' where "PSlice_Add s as = Some s'" "peers_ok b s'" "pslice_members s' = pslice_members s \<union> set as"
proof -
  obtain s' where s': "PSlice_Add s as = Some s'" "pslice_wf s'" "pslice_members s' = pslice_members s \<union> set as"
    using PSlice_Add_wf [of s as] assms by (auto simp: peers_ok_def)
  moreover have "maxBins s' = maxBins s \<and> baseBytes s' = baseBytes s"
    using PSlice_Add_eq [of s as] s'(1) add_all_frame peers_ok_placed [OF assms(1)] by fastforce
  ultimately show thesis using that assms(1) by (simp add: peers_ok_def)
qed

lemma peers_ok_Remove:
  assumes "peers_ok b s"
  obtains s' where "PSlice_Remove s a = Some s'" "peers_ok b s'" "pslice_members s' = pslice_members s - {a}"
proof -
  obtain s' where s': "PSlice_Remove s a = Some s'" "pslice_wf s'" "pslice_members s' = pslice_members s - {a}"
    using PSlice_Remove_wf [of s a] assms by (auto simp: peers_ok_def)
  moreover have "maxBins s' = maxBins s \<and> baseBytes s' = baseBytes s"
    using s'(1) by (auto simp: PSlice_Remove_def Let_def split: option.splits prod.splits if_splits)
  ultimately show thesis using that assms by (simp add: peers_ok_def)
qed

lemma peers_ok_New: "\<exists>s. PSlice_New (uint MaxBins) b = Some s \<and> peers_ok b s \<and> pslice_members s = {}"
  using PSlice_New_wf [of 32 b] by (auto simp: MaxBins_def MaxPO_def PSlice_New_def peers_ok_def)

lemma peers_ok_BinSize: "peers_ok b s \<Longrightarrow> PSlice_BinSize s po \<noteq> None"
  using unat_less_nat_iff [of po 32]
  by (auto simp: PSlice_BinSize_def PSlice_bin_def peers_ok_def pslice_wf_def pslice_placed_def)

lemma peers_ok_BinPeers: "peers_ok b s \<Longrightarrow> PSlice_BinPeers s po \<noteq> None"
  using unat_less_nat_iff [of po 32]
  by (auto simp: PSlice_BinPeers_def PSlice_bin_def peers_ok_def pslice_wf_def pslice_placed_def)

subsection \<open>The invariant of the node\<close>

definition kad_inv :: "'u kstate \<Rightarrow> bool" where
  "kad_inv k \<longleftrightarrow> peers_ok (base (kd k)) (knownPeers (kd k)) \<and> peers_ok (base (kd k)) (connectedPeers (kd k)) \<and>
     depth (kd k) \<le> radius (kd k) \<and> keyed peerAddress (k_collector k) \<and> bv_b (nodeMode k) \<noteq> []"

abbreviation known_set :: "'u kstate \<Rightarrow> address set" where
  "known_set k \<equiv> pslice_members (knownPeers (kd k))"

abbreviation connected_set :: "'u kstate \<Rightarrow> address set" where
  "connected_set k \<equiv> pslice_members (connectedPeers (kd k))"

lemma mode_total: "bv_b m \<noteq> [] \<Longrightarrow> \<exists>b. IsBootNode m = Some b" "bv_b m \<noteq> [] \<Longrightarrow> \<exists>b. IsFull m = Some b"
  by (simp_all add: IsBootNode_def IsFull_def BitVector_Get_def BootNode_def FullNode_def tdiv_def)

lemma update_depth_ok:
  assumes "peers_ok b (connectedPeers (kd k))"
  obtains d where "update_depth now k = Some (k\<lparr>kd := (kd k)\<lparr>depth := d\<rparr>\<rparr>)" "d \<le> radius (kd k)"
    "recalcDepth (connectedPeers (kd k)) (radius (kd k)) (peerUnreachable now (k_collector k)) = Some d"
proof -
  obtain d where "recalcDepth (connectedPeers (kd k)) (radius (kd k)) (peerUnreachable now (k_collector k)) = Some d"
    "d \<le> radius (kd k)"
    using recalcDepth_total peers_ok_placed [OF assms] by blast
  with that show thesis by (simp add: update_depth_def)
qed

lemma Record_keyed:
  assumes "keyed peerAddress c" "event_op ewma ev (counters_at c a) \<noteq> None"
  obtains c' where "Record a [event_op ewma ev] c = Some c'" "keyed peerAddress c'"
  using assms Record_event [OF assms(1)] by blast

lemma log_ops_total:
  "0 \<le> UnixNano now \<Longrightarrow> PeerLogIn now d cs \<noteq> None" "0 \<le> UnixNano now \<Longrightarrow> PeerLogOut now cs \<noteq> None"
  by (simp_all add: PeerLogIn_def PeerLogOut_def Let_def)

lemma Record_log_in:
  assumes "keyed peerAddress c" "0 \<le> UnixNano now"
  obtains c' where "Record a [PeerLogIn now d] c = Some c'" "keyed peerAddress c'"
  using Record_keyed [OF assms(1), of undefined "LoggedIn now d" a] log_ops_total(1) [OF assms(2)] by auto

lemma Record_log_out:
  assumes "keyed peerAddress c" "0 \<le> UnixNano now"
  obtains c' where "Record a [PeerLogOut now] c = Some c'" "keyed peerAddress c'"
  using Record_keyed [OF assms(1), of undefined "LoggedOut now" a] log_ops_total(2) [OF assms(2)] by auto

lemma Record_retry:
  assumes "keyed peerAddress c"
  obtains c' where "Record a [IncSessionConnectionRetry] c = Some c'" "keyed peerAddress c'"
  using Record_keyed [OF assms(1), of undefined Retried a] by (auto simp: IncSessionConnectionRetry_def)

lemma Record_reachability:
  assumes "keyed peerAddress c"
  obtains c' where "Record a [PeerReachability s] c = Some c'" "keyed peerAddress c'"
  using Record_keyed [OF assms(1), of undefined "Reached s" a] by (auto simp: PeerReachability_def)

lemma Record_latency:
  assumes "keyed peerAddress c"
  obtains c' where "Record a [PeerLatency ewma l] c = Some c'" "keyed peerAddress c'"
  using Record_keyed [OF assms(1), of ewma "Measured l" a] by (auto simp: PeerLatency_def)

lemmas kad_puts = put_connected_def put_known_def kad_inv_def

subsection \<open>Handlers\<close>

lemma Outbound_ok:
  assumes "kad_inv k" "0 \<le> UnixNano now" "IsBootNode (pMode p) = Some boot"
  shows "\<exists>k' evs. Outbound now p k = Some (k', evs) \<and> kad_inv k' \<and>
    waitNext k' = WaitNext_Remove (pAddress p) (waitNext k) \<and>
    known_set k' = (if boot then known_set k - {pAddress p} else insert (pAddress p) (known_set k)) \<and>
    connected_set k' = (if boot then connected_set k else insert (pAddress p) (connected_set k))"
proof -
  have inv: "peers_ok (base (kd k)) (knownPeers (kd k))" "peers_ok (base (kd k)) (connectedPeers (kd k))"
    "keyed peerAddress (k_collector k)" using assms(1) by (simp_all add: kad_inv_def)
  obtain c where c: "Record (pAddress p) [PeerLogIn now DirectionOutbound] (k_collector k) = Some c" "keyed peerAddress c"
    using Record_log_in [OF inv(3) assms(2)] by blast
  show ?thesis
  proof (cases boot)
    case True
    obtain s where "PSlice_Remove (knownPeers (kd k)) (pAddress p) = Some s" "peers_ok (base (kd k)) s"
      "pslice_members s = known_set k - {pAddress p}" using peers_ok_Remove [OF inv(1)] by blast
    with True c assms show ?thesis by (simp add: Outbound_def kad_puts)
  next
    case False
    obtain s where s: "PSlice_Add (knownPeers (kd k)) [pAddress p] = Some s" "peers_ok (base (kd k)) s"
      "pslice_members s = known_set k \<union> set [pAddress p]" using peers_ok_Add [OF inv(1)] by (metis distinct_singleton)
    obtain t where t: "PSlice_Add (connectedPeers (kd k)) [pAddress p] = Some t" "peers_ok (base (kd k)) t"
      "pslice_members t = connected_set k \<union> set [pAddress p]" using peers_ok_Add [OF inv(2)] by (metis distinct_singleton)
    let ?k = "put_connected t (put_known s (k\<lparr>k_collector := c, waitNext := WaitNext_Remove (pAddress p) (waitNext k)\<rparr>))"
    obtain d where "update_depth now ?k = Some (?k\<lparr>kd := (kd ?k)\<lparr>depth := d\<rparr>\<rparr>)" "d \<le> radius (kd ?k)"
      using update_depth_ok [of "base (kd k)" ?k now] t(2) by (auto simp: kad_puts)
    with False c s t assms show ?thesis by (simp add: Outbound_def kad_puts)
  qed
qed

lemma randomSubset_total: "\<exists>r. randomSubset rs ps broadcastBinSize = Some r"
  by (simp add: randomSubset_def broadcastBinSize_def split: option.splits)

lemma announce_bins_total:
  "pslice_placed (connectedPeers k) \<Longrightarrow> announce_bins env filt peer full k bins \<noteq> None"
proof (induction bins)
  case (Cons bin bins)
  obtain ps where ps: "binReachablePeers filt k bin = Some ps" using binReachablePeers_total [OF Cons.prems] by blast
  obtain r where r: "randomSubset (a_rs env bin) ps broadcastBinSize = Some r" using randomSubset_total by blast
  obtain x where "announce_bins env filt peer full k bins = Some x" using Cons by blast
  with ps r show ?case by (cases r) (auto split: prod.splits)
qed simp

lemma Announce_total:
  assumes "kad_inv k"
  obtains err evs where "Announce env now peer full k = Some (err, evs)"
proof -
  have "pslice_placed (connectedPeers (kd k))" using assms peers_ok_placed by (auto simp: kad_inv_def)
  then obtain err addrs evs where
    "announce_bins env (peerUnreachable now (k_collector k)) peer full (kd k) all_bins = Some (err, addrs, evs)"
    using announce_bins_total by (metis not_Some_eq prod_cases3)
  then have "Announce env now peer full k \<noteq> None" by (auto simp: Announce_def)
  then show thesis using that by (metis not_None_eq surj_pair)
qed

text \<open>The state after a peer has been accepted.\<close>

definition accepted :: "gotime \<Rightarrow> address \<Rightarrow> 'u kstate \<Rightarrow> 'u kstate \<Rightarrow> bool" where
  "accepted now a k k' \<longleftrightarrow> kad_inv k' \<and> known_set k' = insert a (known_set k) \<and>
     connected_set k' = insert a (connected_set k) \<and> \<not> Waiting now a (waitNext k') \<and>
     Some (depth (kd k')) = recalcDepth (connectedPeers (kd k')) (radius (kd k')) (peerUnreachable now (k_collector k'))"

lemma not_waiting_removed [simp]: "\<not> Waiting now a (WaitNext_Remove a r)"
  by (simp add: Waiting_def WaitNext_Remove_def)

lemma onConnected_ok:
  assumes "kad_inv k" "0 \<le> UnixNano now"
  obtains evs where "onConnected env now p k = Some (Some ErrAnnounce, k, evs)"
    | k' evs where "onConnected env now p k = Some (None, k', evs)" "accepted now (pAddress p) k k'"
proof -
  have inv: "peers_ok (base (kd k)) (knownPeers (kd k))" "peers_ok (base (kd k)) (connectedPeers (kd k))"
    "keyed peerAddress (k_collector k)" using assms(1) by (simp_all add: kad_inv_def)
  obtain err evs where an: "Announce env now (pAddress p) True k = Some (err, evs)"
    using Announce_total [OF assms(1)] by blast
  show thesis
  proof (cases err)
    case True
    then show thesis using an that(1) by (simp add: onConnected_def)
  next
    case False
    obtain c where c: "Record (pAddress p) [PeerLogIn now DirectionInbound] (k_collector k) = Some c" "keyed peerAddress c"
      using Record_log_in [OF inv(3) assms(2)] by blast
    obtain s where s: "PSlice_Add (knownPeers (kd k)) [pAddress p] = Some s" "peers_ok (base (kd k)) s"
      "pslice_members s = known_set k \<union> set [pAddress p]" using peers_ok_Add [OF inv(1)] by (metis distinct_singleton)
    obtain t where t: "PSlice_Add (connectedPeers (kd k)) [pAddress p] = Some t" "peers_ok (base (kd k)) t"
      "pslice_members t = connected_set k \<union> set [pAddress p]" using peers_ok_Add [OF inv(2)] by (metis distinct_singleton)
    let ?k = "(put_connected t (put_known s k))\<lparr>k_collector := c, waitNext := WaitNext_Remove (pAddress p) (waitNext k)\<rparr>"
    obtain d where "update_depth now ?k = Some (?k\<lparr>kd := (kd ?k)\<lparr>depth := d\<rparr>\<rparr>)" "d \<le> radius (kd ?k)"
      "recalcDepth (connectedPeers (kd ?k)) (radius (kd ?k)) (peerUnreachable now (k_collector ?k)) = Some d"
      using update_depth_ok [of "base (kd k)" ?k now] t(2) by (auto simp: kad_puts)
    with False an c s t assms(1) show thesis
      by (intro that(2) [of "?k\<lparr>kd := (kd ?k)\<lparr>depth := d\<rparr>\<rparr>"]) (simp_all add: onConnected_def accepted_def kad_puts)
  qed
qed

lemma Kad_Disconnected_ok:
  assumes "kad_inv k" "0 \<le> UnixNano now"
  shows "\<exists>k' evs. Kad_Disconnected now p k = Some (k', evs) \<and> kad_inv k' \<and> known_set k' = known_set k \<and>
    connected_set k' = connected_set k - {pAddress p} \<and>
    (\<forall>t<now + timeToRetry. Waiting t (pAddress p) (waitNext k'))"
proof -
  have inv: "peers_ok (base (kd k)) (connectedPeers (kd k))" "keyed peerAddress (k_collector k)"
    using assms(1) by (simp_all add: kad_inv_def)
  obtain c where c: "Record (pAddress p) [PeerLogOut now] (k_collector k) = Some c" "keyed peerAddress c"
    using Record_log_out [OF inv(2) assms(2)] by blast
  obtain t where t: "PSlice_Remove (connectedPeers (kd k)) (pAddress p) = Some t" "peers_ok (base (kd k)) t"
    "pslice_members t = connected_set k - {pAddress p}" using peers_ok_Remove [OF inv(1)] by blast
  let ?k = "(put_connected t k)
     \<lparr>waitNext := WaitNext_SetTryAfter (pAddress p) (now + timeToRetry) (waitNext k), k_collector := c\<rparr>"
  obtain d where "update_depth now ?k = Some (?k\<lparr>kd := (kd ?k)\<lparr>depth := d\<rparr>\<rparr>)" "d \<le> radius (kd ?k)"
    using update_depth_ok [of "base (kd k)" ?k now] t(2) by (auto simp: kad_puts)
  moreover have "Waiting u (pAddress p) (WaitNext_SetTryAfter (pAddress p) (now + timeToRetry) (waitNext k))"
    if "u < now + timeToRetry" for u
    using that by (simp add: Waiting_def WaitNext_SetTryAfter_def split: option.splits)
  ultimately show ?thesis using c t assms(1) by (simp add: Kad_Disconnected_def kad_puts)
qed

lemma DisconnectForce_ok:
  assumes "kad_inv k" "0 \<le> UnixNano now"
  shows "\<exists>e k'. DisconnectForce disc_ok book_ok now a k = Some (e, k') \<and> kad_inv k' \<and>
    (if e = None then known_set k' = known_set k - {a} \<and> connected_set k' = connected_set k - {a} else k' = k)"
proof (cases "disc_ok \<and> book_ok")
  case True
  have inv: "peers_ok (base (kd k)) (knownPeers (kd k))" "peers_ok (base (kd k)) (connectedPeers (kd k))"
    "keyed peerAddress (k_collector k)" using assms(1) by (simp_all add: kad_inv_def)
  obtain c where c: "Record a [PeerLogOut now] (k_collector k) = Some c" "keyed peerAddress c"
    using Record_log_out [OF inv(3) assms(2)] by blast
  obtain s where s: "PSlice_Remove (knownPeers (kd k)) a = Some s" "peers_ok (base (kd k)) s"
    "pslice_members s = known_set k - {a}" using peers_ok_Remove [OF inv(1)] by blast
  obtain t where t: "PSlice_Remove (connectedPeers (kd k)) a = Some t" "peers_ok (base (kd k)) t"
    "pslice_members t = connected_set k - {a}" using peers_ok_Remove [OF inv(2)] by blast
  let ?k = "(put_connected t (put_known s k))\<lparr>addressBook := (addressBook k)(a := None), k_collector := c\<rparr>"
  obtain d where "update_depth now ?k = Some (?k\<lparr>kd := (kd ?k)\<lparr>depth := d\<rparr>\<rparr>)" "d \<le> radius (kd ?k)"
    using update_depth_ok [of "base (kd k)" ?k now] t(2) by (auto simp: kad_puts)
  with True c s t assms(1) show ?thesis by (simp add: DisconnectForce_def kad_puts)
qed (use assms in \<open>auto simp: DisconnectForce_def\<close>)


lemma saturation_total: "kad_inv k \<Longrightarrow> \<exists>r. saturation now po k = Some r"
  unfolding saturation_def kad_inv_def by (intro binSaturated_total) (auto dest: peers_ok_placed)

lemma randomPeer_total:
  assumes "kad_inv k" "\<And>n i. rnd n = Some i \<Longrightarrow> i < n"
  shows "\<exists>r. randomPeer rnd static (kd k) po = Some r"
proof -
  obtain ps where "PSlice_BinPeers (connectedPeers (kd k)) po = Some ps"
    using assms(1) peers_ok_BinPeers unfolding kad_inv_def by blast
  with assms(2) show ?thesis by (auto simp: randomPeer_def Let_def split: option.splits)
qed

lemma Kad_Connected_ok:
  assumes "kad_inv k" "0 \<le> UnixNano now" "\<And>n i. rnd n = Some i \<Longrightarrow> i < n"
  shows "\<exists>e k' evs. Kad_Connected env rnd now p force k = Some (e, k', evs) \<and>
    (if e = None then accepted now (pAddress p) k k' else k' = k)"
proof -
  let ?a = "pAddress p" and ?po = "Proximity (Bytes (base (kd k))) (Bytes (pAddress p))"
  obtain sat over where sat: "saturation now ?po k = Some (sat, over)" using saturation_total [OF assms(1)] by fastforce
  obtain boot where boot: "IsBootNode (nodeMode k) = Some boot" using mode_total(1) assms(1) by (auto simp: kad_inv_def)
  obtain r where r: "randomPeer rnd (isStaticPeer (staticNodes k)) (kd k) ?po = Some r"
    using randomPeer_total [OF assms(1,3)] by blast
  have "\<exists>e k' evs. onConnected env now p k = Some (e, k', evs) \<and> (if e = None then accepted now ?a k k' else k' = k)"
    using onConnected_ok [OF assms(1,2), of env p thesis] by (metis (mono_tags) assms(1,2) onConnected_ok option.distinct(1))
  then obtain e k' evs where on: "onConnected env now p k = Some (e, k', evs)"
    "if e = None then accepted now ?a k k' else k' = k" by blast
  show ?thesis
    using sat boot r on by (cases r) (auto simp: Kad_Connected_def Let_def)
qed

lemma forget_peer_ok:
  assumes "kad_inv k"
  obtains k' where "forget_peer a k = Some k'" "kad_inv k'" "known_set k' = known_set k - {a}"
    "kd k' = (kd k)\<lparr>knownPeers := knownPeers (kd k')\<rparr>" "addressBook k' a = None" "waitNext k' = WaitNext_Remove a (waitNext k)"
proof -
  obtain s where "PSlice_Remove (knownPeers (kd k)) a = Some s" "peers_ok (base (kd k)) s"
    "pslice_members s = known_set k - {a}" using peers_ok_Remove assms by (metis kad_inv_def)
  with assms show thesis by (intro that [of "(put_known s k)
       \<lparr>waitNext := WaitNext_Remove a (waitNext k), addressBook := (addressBook k)(a := None)\<rparr>"])
      (simp_all add: forget_peer_def kad_puts)
qed

lemma dial_failed_ok:
  assumes "kad_inv k"
  shows "\<exists>k'. dial_failed now peer backoff ne k = Some k' \<and> kad_inv k'"
proof -
  obtain c where c: "Record peer [IncSessionConnectionRetry] (k_collector k) = Some c" "keyed peerAddress c"
    using Record_retry assms by (metis kad_inv_def)
  then have "kad_inv (k\<lparr>k_collector := c\<rparr>)" using assms by (simp add: kad_inv_def)
  then obtain k' where "forget_peer peer (k\<lparr>k_collector := c\<rparr>) = Some k'" "kad_inv k'" using forget_peer_ok by blast
  with c assms show ?thesis by (simp add: dial_failed_def Let_def kad_inv_def)
qed

fun dial_modes_ok :: "dial_result \<Rightarrow> bool" where
  "dial_modes_ok (DialOk i) = (bv_b (pMode i) \<noteq> [])"
| "dial_modes_ok (DialAlreadyConnected i) = (bv_b (pMode i) \<noteq> [])"
| "dial_modes_ok _ = True"

lemma kad_connect_ok:
  assumes "kad_inv k" "dial_modes_ok dial"
  shows "\<exists>i e k' evs. kad_connect env now dial unavailable peer k = Some (i, e, k', evs) \<and> kad_inv k' \<and>
    (e = None \<longrightarrow> (\<exists>p. i = Some p \<and> pAddress p = peer \<and> bv_b (pMode p) \<noteq> []))"
proof (cases dial)
  case (DialOk i)
  obtain full where "IsFull (pMode i) = Some full" using mode_total(2) assms(2) DialOk by auto
  moreover obtain err evs where "Announce env now (pAddress i) full k = Some (err, evs)"
    using Announce_total [OF assms(1)] by blast
  ultimately show ?thesis using assms DialOk by (auto simp: kad_connect_def)
next
  case (DialBackoff t ne)
  with dial_failed_ok [OF assms(1), of now peer "Some t" ne] assms(1) show ?thesis by (auto simp: kad_connect_def)
next
  case (DialError ne)
  with dial_failed_ok [OF assms(1), of now peer None ne] assms(1) show ?thesis by (auto simp: kad_connect_def)
qed (use assms in \<open>auto simp: kad_connect_def\<close>)

lemma Connection_ok:
  assumes "kad_inv k" "0 \<le> UnixNano now" "dial_modes_ok dial"
  shows "\<exists>e k' evs. Connection env now dial unavailable peer k = Some (e, k', evs) \<and> kad_inv k'"
proof -
  obtain i e k1 evs where c: "kad_connect env now dial unavailable peer k = Some (i, e, k1, evs)" "kad_inv k1"
    "e = None \<Longrightarrow> \<exists>p. i = Some p \<and> pAddress p = peer \<and> bv_b (pMode p) \<noteq> []"
    using kad_connect_ok [OF assms(1,3)] by metis
  show ?thesis
  proof (cases e)
    case None
    then obtain p boot where "i = Some p" "IsBootNode (pMode p) = Some boot" using c(3) mode_total(1) by blast
    with Outbound_ok [OF c(2) assms(2), of p boot] c(1) None show ?thesis by (auto simp: Connection_def)
  next
    case (Some err)
    obtain k2 where "forget_peer peer k1 = Some k2" "kad_inv k2" using forget_peer_ok [OF c(2)] by blast
    with c(1,2) Some show ?thesis by (simp add: Connection_def)
  qed
qed

lemma GetAuroraAddress_ok:
  assumes "kad_inv k"
  shows "\<exists>r k'. GetAuroraAddress book_error a k = Some (r, k') \<and> kad_inv k'"
proof -
  obtain s where "PSlice_Remove (knownPeers (kd k)) a = Some s" "peers_ok (base (kd k)) s"
    using peers_ok_Remove assms by (metis kad_inv_def)
  with assms show ?thesis by (auto simp: GetAuroraAddress_def kad_puts split: option.splits)
qed

lemma connAttempt_ok:
  assumes "kad_inv k" "0 \<le> UnixNano now" "dial_modes_ok dial"
  shows "\<exists>k' evs. connAttempt env now dial unavailable book_error peer k = Some (k', evs) \<and> kad_inv k'"
proof -
  obtain r k1 where g: "GetAuroraAddress book_error peer k = Some (r, k1)" "kad_inv k1"
    using GetAuroraAddress_ok [OF assms(1)] by blast
  obtain e k2 evs where "Connection env now dial unavailable peer k1 = Some (e, k2, evs)" "kad_inv k2"
    using Connection_ok [OF g(2) assms(2,3)] by blast
  with g assms(1) show ?thesis by (cases r) (simp_all add: connAttempt_def)
qed

subsection \<open>Runs\<close>

datatype 'u kad_op =
    OpOutbound gotime p2p_peer
  | OpConnected announce_env "nat \<Rightarrow> nat option" gotime p2p_peer bool
  | OpDisconnected gotime p2p_peer
  | OpDisconnectForce bool bool gotime address
  | OpReachable gotime address reachability_status
  | OpUpdateReachability reachability_status
  | OpConnAttempt announce_env gotime dial_result bool bool address
  | OpLatency network_status "duration \<Rightarrow> duration \<Rightarrow> duration" address "duration option"
  | OpAddPeers "address list"
  | OpSetRadius gotime byte
  | OpProtect "address list"
  | OpAddressBook address 'u

fun kad_app :: "'u kad_op \<Rightarrow> 'u kstate \<Rightarrow> 'u kstate option" where
  "kad_app (OpOutbound now p) k = map_option fst (Outbound now p k)"
| "kad_app (OpConnected env rnd now p force) k = map_option (fst \<circ> snd) (Kad_Connected env rnd now p force k)"
| "kad_app (OpDisconnected now p) k = map_option fst (Kad_Disconnected now p k)"
| "kad_app (OpDisconnectForce dok bok now a) k = map_option snd (DisconnectForce dok bok now a k)"
| "kad_app (OpReachable now a s) k = map_option fst (Kad_Reachable_status now a s k)"
| "kad_app (OpUpdateReachability s) k = Some (UpdateReachability s k)"
| "kad_app (OpConnAttempt env now dial una be a) k = map_option fst (connAttempt env now dial una be a k)"
| "kad_app (OpLatency st ewma a ping) k = recordPeerLatency st ewma a ping k"
| "kad_app (OpAddPeers as) k = map_option (\<lambda>(d, _). k\<lparr>kd := d\<rparr>) (AddPeers as (kd k))"
| "kad_app (OpSetRadius now r) k =
     map_option (\<lambda>(d, _). k\<lparr>kd := d\<rparr>) (SetRadius (peerUnreachable now (k_collector k)) r (kd k))"
| "kad_app (OpProtect as) k = Some (k\<lparr>kd := RefreshProtectPeer as (kd k)\<rparr>)"
| "kad_app (OpAddressBook a u) k = Some (k\<lparr>addressBook := (addressBook k)(a \<mapsto> u)\<rparr>)"

fun kad_run :: "'u kad_op list \<Rightarrow> 'u kstate \<Rightarrow> 'u kstate option" where
  "kad_run [] k = Some k"
| "kad_run (x # xs) k = Option.bind (kad_app x k) (kad_run xs)"

text \<open>
  The inputs of an operation: times from the Unix epoch on, peer modes of at least one byte,
  random numbers below their bound, and no address twice in one call of \<open>AddPeers\<close>.
\<close>

fun kad_op_ok :: "'u kad_op \<Rightarrow> bool" where
  "kad_op_ok (OpOutbound now p) = (0 \<le> UnixNano now \<and> bv_b (pMode p) \<noteq> [])"
| "kad_op_ok (OpConnected env rnd now p force) = (0 \<le> UnixNano now \<and> (\<forall>n i. rnd n = Some i \<longrightarrow> i < n))"
| "kad_op_ok (OpDisconnected now p) = (0 \<le> UnixNano now)"
| "kad_op_ok (OpDisconnectForce dok bok now a) = (0 \<le> UnixNano now)"
| "kad_op_ok (OpConnAttempt env now dial una be a) = (0 \<le> UnixNano now \<and> dial_modes_ok dial)"
| "kad_op_ok (OpAddPeers as) = distinct as"
| "kad_op_ok _ = True"

lemma Kad_Reachable_status_ok:
  assumes "kad_inv k"
  shows "\<exists>k' evs. Kad_Reachable_status now a s k = Some (k', evs) \<and> kad_inv k'"
proof -
  obtain c where c: "Record a [PeerReachability s] (k_collector k) = Some c" "keyed peerAddress c"
    using Record_reachability assms by (metis kad_inv_def)
  let ?k = "k\<lparr>k_collector := c\<rparr>"
  have inv: "kad_inv ?k" using c assms by (simp add: kad_inv_def)
  then obtain d where "update_depth now ?k = Some (?k\<lparr>kd := (kd ?k)\<lparr>depth := d\<rparr>\<rparr>)" "d \<le> radius (kd ?k)"
    using update_depth_ok [of "base (kd k)" ?k now] by (auto simp: kad_inv_def)
  with c inv show ?thesis by (simp add: Kad_Reachable_status_def kad_inv_def Let_def)
qed

lemma SetRadius_ok:
  assumes "kad_inv k"
  shows "\<exists>d n. SetRadius filt r (kd k) = Some (d, n) \<and> kad_inv (k\<lparr>kd := d\<rparr>)"
proof -
  have "pslice_placed (connectedPeers (kd k))" "maxBins (connectedPeers (kd k)) \<le> 256"
    using assms peers_ok_placed by (auto simp: kad_inv_def)
  then obtain d where "recalcDepth (connectedPeers (kd k)) r filt = Some d" "d \<le> r" using recalcDepth_total by blast
  with assms show ?thesis by (auto simp: SetRadius_def kad_inv_def)
qed

lemma AddPeers_ok:
  assumes "kad_inv k" "distinct as"
  shows "\<exists>d n. AddPeers as (kd k) = Some (d, n) \<and> kad_inv (k\<lparr>kd := d\<rparr>)"
proof -
  obtain s where "PSlice_Add (knownPeers (kd k)) as = Some s" "peers_ok (base (kd k)) s"
    using peers_ok_Add [of "base (kd k)" "knownPeers (kd k)" as] assms by (auto simp: kad_inv_def)
  with assms(1) show ?thesis by (auto simp: AddPeers_def kad_inv_def)
qed

lemma recordPeerLatency_ok:
  assumes "kad_inv k"
  shows "\<exists>k'. recordPeerLatency st ewma a ping k = Some k' \<and> kad_inv k'"
proof -
  obtain c where "Record a [PeerLatency ewma (the ping)] (k_collector k) = Some c" "keyed peerAddress c"
    using Record_latency assms by (metis kad_inv_def)
  with assms show ?thesis by (auto simp: recordPeerLatency_def kad_inv_def split: option.splits)
qed

lemma accepted_inv: "accepted now a k k' \<Longrightarrow> kad_inv k'"
  by (simp add: accepted_def)

lemma kad_app_inv:
  assumes "kad_inv k" "kad_op_ok x"
  shows "\<exists>k'. kad_app x k = Some k' \<and> kad_inv k'"
proof (cases x)
  case (OpOutbound now p)
  then obtain boot where "IsBootNode (pMode p) = Some boot" using assms(2) mode_total(1) by auto
  with OpOutbound Outbound_ok [OF assms(1), of now p boot] assms(2) show ?thesis by auto
next
  case (OpConnected env rnd now p force)
  then obtain e k' evs where "Kad_Connected env rnd now p force k = Some (e, k', evs)"
    "if e = None then accepted now (pAddress p) k k' else k' = k"
    using Kad_Connected_ok [OF assms(1), of now rnd env p force] assms(2) by auto
  with OpConnected assms(1) accepted_inv show ?thesis by (auto split: if_splits)
next
  case (OpDisconnected now p)
  with Kad_Disconnected_ok [OF assms(1), of now p] assms(2) show ?thesis by auto
next
  case (OpDisconnectForce dok bok now a)
  with DisconnectForce_ok [OF assms(1), of now dok bok a] assms(2) show ?thesis by auto
next
  case (OpReachable now a s)
  with Kad_Reachable_status_ok [OF assms(1), of now a s] show ?thesis by auto
next
  case (OpConnAttempt env now dial una be a)
  with connAttempt_ok [OF assms(1), of now dial env una be a] assms(2) show ?thesis by auto
next
  case (OpLatency st ewma a ping)
  with recordPeerLatency_ok [OF assms(1)] show ?thesis by auto
next
  case (OpAddPeers as)
  with AddPeers_ok [OF assms(1), of as] assms(2) show ?thesis by auto
next
  case (OpSetRadius now r)
  with SetRadius_ok [OF assms(1), of "peerUnreachable now (k_collector k)" r] show ?thesis by auto
qed (use assms in \<open>auto simp: UpdateReachability_def RefreshProtectPeer_def kad_inv_def\<close>)

lemma kad_run_inv: "kad_inv k \<Longrightarrow> \<forall>x\<in>set xs. kad_op_ok x \<Longrightarrow> \<exists>k'. kad_run xs k = Some k' \<and> kad_inv k'"
proof (induction xs arbitrary: k)
  case (Cons x xs)
  then obtain k1 where "kad_app x k = Some k1" "kad_inv k1" using kad_app_inv by (metis list.set_intros(1))
  with Cons.IH [of k1] Cons.prems show ?case by simp
qed simp

lemma Kad_New_inv:
  assumes "5 \<le> length (Bytes b)" "bv_b mode \<noteq> []" "keyed peerAddress c"
  shows "\<exists>k. Kad_New b mode static book c = Some k \<and> kad_inv k \<and> known_set k = {} \<and> connected_set k = {}"
proof -
  obtain s where "PSlice_New (uint MaxBins) b = Some s" "peers_ok b s" "pslice_members s = {}"
    using peers_ok_New by blast
  moreover obtain bl where "Blocker_New kad_flagTimeout kad_blockDuration blockWorkerWakeup = Some bl"
    by (simp add: Blocker_New_def kad_flagTimeout_def blockWorkerWakeup_def sequencerResolution_def go_durations)
  moreover obtain ps where "generateCommonBinPrefixes b 3 = Some ps" using generate_nth [of 3 b] assms(1) by auto
  ultimately show ?thesis using assms by (simp add: Kad_New_def kad_inv_def)
qed

section \<open>Pruning\<close>

definition idle :: "(address \<Rightarrow> int option) \<Rightarrow> address \<Rightarrow> bool" where
  "idle streams p \<longleftrightarrow> (case streams p of None \<Rightarrow> False | Some n \<Rightarrow> n \<le> 0)"

lemma disconnect_one_Some:
  "disconnect_one streams ok ps = Some p \<Longrightarrow> p \<in> set ps \<and> idle streams p \<and> ok p"
  by (induction ps) (auto simp: idle_def split: if_splits)

lemma two_elements: "distinct xs \<Longrightarrow> 1 < length xs \<Longrightarrow> p \<in> set xs \<Longrightarrow> \<exists>q\<in>set xs. q \<noteq> p"
  by (cases xs; cases "tl xs") auto

definition slot :: "kad \<Rightarrow> address list \<Rightarrow> nat \<Rightarrow> address \<Rightarrow> address set" where
  "slot k free i pseudo = set (balancedSlotPeers k pseudo free i)"

lemma prune_slots_spec:
  assumes "distinct free" "sorted_wrt (\<lambda>x y. slot k free i x \<inter> slot k free i y = {}) L"
  shows "distinct (prune_slots st ok k i free n L) \<and> length (prune_slots st ok k i free n L) \<le> n \<and>
    (\<forall>p\<in>set (prune_slots st ok k i free n L). idle st p \<and> ok p \<and> (\<exists>x\<in>set L. p \<in> slot k free i x \<and>
       (\<exists>q\<in>slot k free i x. q \<noteq> p \<and> q \<notin> set (prune_slots st ok k i free n L))))"
  using assms(2)
proof (induction L arbitrary: n)
  case (Cons x L)
  let ?S = "balancedSlotPeers k x free i"
  note IH = Cons.IH [OF Cons.prems [simplified, THEN conjunct2]]
  have dis: "slot k free i x \<inter> slot k free i y = {}" if "y \<in> set L" for y using Cons.prems that by simp
  show ?case
  proof (cases "n = 0 \<or> length ?S \<le> 1 \<or> disconnect_one st ok ?S = None")
    case True
    then show ?thesis using IH [of n] by (auto simp: Let_def)
  next
    case False
    then obtain p where p: "disconnect_one st ok ?S = Some p" "0 < n" "1 < length ?S" by auto
    let ?g = "prune_slots st ok k i free (n - 1) L"
    have g: "prune_slots st ok k i free n (x # L) = p # ?g" using p by simp
    have pS: "p \<in> set ?S" "idle st p" "ok p" using disconnect_one_Some [OF p(1)] by auto
    have later: "\<exists>y\<in>set L. q \<in> slot k free i y" if "q \<in> set ?g" for q using IH [of "n - 1"] that by blast
    have notin: "q \<notin> set ?g" if "q \<in> set ?S" for q using later [of q] dis that by (auto simp: slot_def)
    have "distinct ?S" using assms(1) by (simp add: balancedSlotPeers_def)
    then obtain q where q: "q \<in> set ?S" "q \<noteq> p" using two_elements [of ?S p] p(3) pS(1) by blast
    have rest: "\<exists>y\<in>set (x # L). r \<in> slot k free i y \<and> (\<exists>q\<in>slot k free i y. q \<noteq> r \<and> q \<notin> set (p # ?g))"
      if r: "r \<in> set ?g" for r
    proof -
      obtain y q where "y \<in> set L" "r \<in> slot k free i y" "q \<in> slot k free i y" "q \<noteq> r" "q \<notin> set ?g"
        using IH [of "n - 1"] r by blast
      moreover have "q \<noteq> p" using dis [of y] calculation pS(1) by (auto simp: slot_def)
      ultimately show ?thesis by auto
    qed
    have "\<exists>y\<in>set (x # L). p \<in> slot k free i y \<and> (\<exists>q\<in>slot k free i y. q \<noteq> p \<and> q \<notin> set (p # ?g))"
      using q notin [OF q(1)] pS(1) by (auto simp: slot_def)
    with rest notin [OF pS(1)] pS(2,3) IH [of "n - 1"] p(2) show ?thesis
      unfolding g by (auto simp del: prune_slots.simps)
  qed
qed simp

text \<open>What is disconnected in bin \<open>i\<close>.\<close>

definition prune_bin ::
  "(address \<Rightarrow> int option) \<Rightarrow> (address \<Rightarrow> int option) \<Rightarrow> (address \<Rightarrow> bool) \<Rightarrow> kad \<Rightarrow> nat \<Rightarrow> address list" where
  "prune_bin st st' ok k i =
     (let ps = peers (connectedPeers k) ! i; over = overSaturationPeers + quickSaturationPeers in
      if length ps \<le> over then []
      else prune_slots st' ok k i (free_peers st k ps) (length ps - over) (commonBinPrefixes k ! i))"

lemma bin_lookup:
  assumes "peers_ok b s" "i < 32"
  shows "PSlice_BinSize s (word_of_nat i) = Some (length (peers s ! i))" "PSlice_BinPeers s (word_of_nat i) = Some (peers s ! i)"
proof -
  have u: "unat (word_of_nat i :: byte) = i" using assms(2) by (simp add: unat_of_nat)
  moreover have "uint (word_of_nat i :: byte) < 32" using unat_less_nat_iff [of "word_of_nat i" 32] assms(2) u by simp
  moreover have "length (peers s) = 32" using assms(1) by (simp add: peers_ok_def pslice_wf_def pslice_placed_def)
  ultimately show "PSlice_BinSize s (word_of_nat i) = Some (length (peers s ! i))"
    "PSlice_BinPeers s (word_of_nat i) = Some (peers s ! i)"
    using assms by (simp_all add: PSlice_BinSize_def PSlice_BinPeers_def PSlice_bin_def peers_ok_def)
qed

lemma prune_bins_eq:
  assumes "peers_ok b (connectedPeers k)" "\<forall>i\<in>set is. i < 32"
  shows "prune_bins st st' ok k dep is = Some (concat (map (prune_bin st st' ok k) (takeWhile (\<lambda>i. i < unat dep) is)))"
  using assms(2)
proof (induction "is")
  case (Cons i "is")
  then show ?case using bin_lookup [OF assms(1), of i] by (simp add: prune_bin_def Let_def not_le)
qed simp

definition addr_ok :: "address \<Rightarrow> bool" where
  "addr_ok a \<longleftrightarrow> 5 \<le> length (Bytes a) \<and> length (Bytes a) < 256"

definition balanced_kad :: "kad \<Rightarrow> bool" where
  "balanced_kad k \<longleftrightarrow> addr_ok (base k) \<and> bitSuffixLength k = 3 \<and>
     generateCommonBinPrefixes (base k) 3 = Some (commonBinPrefixes k) \<and>
     peers_ok (base k) (connectedPeers k) \<and> (\<forall>a\<in>pslice_members (connectedPeers k). addr_ok a)"

lemma slot_iff:
  assumes "balanced_kad k" "i < 32" "j < 8" "set free \<subseteq> pslice_members (connectedPeers k)"
  shows "p \<in> slot k free i (commonBinPrefixes k ! i ! j) \<longleftrightarrow>
    p \<in> set free \<and> common_prefix (Bytes p) (Bytes (base k)) i \<and>
    addr_bit (Bytes p) i \<noteq> addr_bit (Bytes (base k)) i \<and> j = slot_of (Bytes p) 3 i"
proof (cases "p \<in> set free")
  case True
  then have "addr_ok p" "addr_ok (base k)" using assms(1,4) by (auto simp: balanced_kad_def)
  then have "i + 4 \<le> unat (ExtendedProximity (Bytes p) (Bytes (commonBinPrefixes k ! i ! j))) \<longleftrightarrow>
      common_prefix (Bytes p) (Bytes (base k)) i \<and>
      addr_bit (Bytes p) i \<noteq> addr_bit (Bytes (base k)) i \<and> j = slot_of (Bytes p) 3 i"
    using assms(1-3) by (intro bin_prefix_slot) (auto simp: addr_ok_def balanced_kad_def)
  moreover have "int i + 3 + 1 \<le> uint w \<longleftrightarrow> i + 4 \<le> unat w" for w :: byte
    by (metis (no_types, opaque_lifting) add.assoc int_ops(2) nat_int_comparison(3) numeral_plus_one of_nat_add of_nat_numeral semiring_norm(2) semiring_norm(8) uint_nat)
  ultimately show ?thesis
    using True assms(1) by (simp add: slot_def balancedSlotPeers_def balanced_kad_def)
qed (simp add: slot_def balancedSlotPeers_def)


lemma same_slot_prefix:
  assumes "common_prefix x b i" "addr_bit x i \<noteq> addr_bit b i" "common_prefix y b i" "addr_bit y i \<noteq> addr_bit b i"
    and "slot_of x 3 i = slot_of y 3 i"
  shows "common_prefix x y (i + 4)"
  unfolding common_prefix_def
proof (intro allI impI)
  fix n assume n: "n < i + 4"
  consider "n < i" | "n = i" | "i < n" by linarith
  then show "addr_bit x n = addr_bit y n"
  proof cases
    case 3
    with n have "i + 3 - n < 3" "i + 3 - (i + 3 - n) = n" by auto
    then show ?thesis using bit_slot_of [of "i + 3 - n" 3 x i] bit_slot_of [of "i + 3 - n" 3 y i] assms(5) by simp
  qed (use assms in \<open>auto simp: common_prefix_def\<close>)
qed

lemma commonBinPrefixes_length: "balanced_kad k \<Longrightarrow> length (commonBinPrefixes k) = 32 \<and> (\<forall>i<32. length (commonBinPrefixes k ! i) = 8)"
  using generate_nth [of 3 "base k"] by (auto simp: balanced_kad_def addr_ok_def)

lemma peers_po:
  assumes "balanced_kad k" "i < 32" "p \<in> set (peers (connectedPeers k) ! i)"
  shows "p \<in> pslice_members (connectedPeers k)" "unat (Proximity (Bytes (base k)) (Bytes p)) = i"
proof -
  let ?s = "connectedPeers k"
  have s: "pslice_placed ?s" "maxBins ?s = 32" "baseBytes ?s = Bytes (base k)" "length (peers ?s) = 32"
    using assms(1) by (auto simp: balanced_kad_def peers_ok_def pslice_wf_def pslice_placed_def)
  then show m: "p \<in> pslice_members ?s" using assms(2,3) by (auto simp: pslice_members_iff)
  have "unat (PSlice_po ?s (Bytes p)) = i" using s assms(2,3) by (simp add: pslice_placed_def)
  moreover have "unat (Proximity (Bytes (base k)) (Bytes p)) \<le> 31"
    using assms(1) m by (intro Proximity_le_31) (auto simp: balanced_kad_def addr_ok_def)
  then have "\<not> uint (Proximity (Bytes (base k)) (Bytes p)) \<ge> 32"
    using unat_less_nat_iff [of "Proximity (Bytes (base k)) (Bytes p)" 32] by simp
  ultimately show "unat (Proximity (Bytes (base k)) (Bytes p)) = i"
    using s by (simp add: PSlice_po_def Let_def)
qed

lemma free_peers_set: "set (free_peers st k ps) = {p \<in> set ps. \<not> IsProtectPeer k p \<and> idle st p}"
  by (auto simp: free_peers_def idle_def)

lemma prune_bin_spec:
  assumes "balanced_kad k" "i < 32"
  shows "distinct (prune_bin st st' ok k i) \<and>
    length (prune_bin st st' ok k i) \<le> length (peers (connectedPeers k) ! i) - (overSaturationPeers + quickSaturationPeers) \<and>
    (\<forall>p\<in>set (prune_bin st st' ok k i). p \<in> set (peers (connectedPeers k) ! i) \<and> \<not> IsProtectPeer k p \<and>
       idle st p \<and> idle st' p \<and> ok p \<and> (\<exists>q\<in>set (peers (connectedPeers k) ! i). q \<notin> set (prune_bin st st' ok k i) \<and>
         q \<noteq> p \<and> common_prefix (Bytes p) (Bytes q) (i + 4)))"
proof (cases "length (peers (connectedPeers k) ! i) \<le> overSaturationPeers + quickSaturationPeers")
  case True
  then show ?thesis by (simp add: prune_bin_def Let_def)
next
  case False
  let ?ps = "peers (connectedPeers k) ! i" and ?L = "commonBinPrefixes k ! i"
  let ?free = "free_peers st k ?ps" and ?n = "length ?ps - (overSaturationPeers + quickSaturationPeers)"
  have len: "length ?L = 8" using commonBinPrefixes_length [OF assms(1)] assms(2) by blast
  have free: "set ?free \<subseteq> pslice_members (connectedPeers k)"
    using peers_po(1) [OF assms] by (auto simp: free_peers_set)
  have "pslice_wf (connectedPeers k)" "i < length (peers (connectedPeers k))"
    using assms by (auto simp: balanced_kad_def peers_ok_def pslice_wf_def pslice_placed_def)
  then have d: "distinct ?free" by (simp add: free_peers_def pslice_wf_def)
  note sl = slot_iff [OF assms _ free]
  have "slot k ?free i (?L ! m) \<inter> slot k ?free i (?L ! n) = {}" if "m < n" "n < 8" for m n
    using sl [of m] sl [of n] that by (simp add: disjoint_iff)
  then have "sorted_wrt (\<lambda>x y. slot k ?free i x \<inter> slot k ?free i y = {}) ?L"
    unfolding sorted_wrt_iff_nth_less len by blast
  note g = prune_slots_spec [OF d this, of st' ok ?n]
  have eq: "prune_bin st st' ok k i = prune_slots st' ok k i ?free ?n ?L"
    using False by (simp add: prune_bin_def Let_def)
  have "p \<in> set ?ps \<and> \<not> IsProtectPeer k p \<and> idle st p \<and> idle st' p \<and> ok p \<and>
      (\<exists>q\<in>set ?ps. q \<notin> set (prune_slots st' ok k i ?free ?n ?L) \<and> q \<noteq> p \<and> common_prefix (Bytes p) (Bytes q) (i + 4))"
    if "p \<in> set (prune_slots st' ok k i ?free ?n ?L)" for p
  proof -
    from bspec [OF g [THEN conjunct2, THEN conjunct2] that] obtain x q where
      x: "x \<in> set ?L" "p \<in> slot k ?free i x" "q \<in> slot k ?free i x" "q \<noteq> p"
      "q \<notin> set (prune_slots st' ok k i ?free ?n ?L)" "idle st' p" "ok p" by blast
    then obtain j where j: "j < 8" "x = ?L ! j" using len by (auto simp: in_set_conv_nth)
    have pq: "p \<in> set ?free" "q \<in> set ?free" "common_prefix (Bytes p) (Bytes q) (i + 4)"
      using x(2,3) sl [OF j(1), of p] sl [OF j(1), of q]
        same_slot_prefix [of "Bytes p" "Bytes (base k)" i "Bytes q"] by (simp_all add: j(2))
    then have "p \<in> set ?ps" "\<not> IsProtectPeer k p" "idle st p" "q \<in> set ?ps" by (simp_all add: free_peers_set)
    with x(4-7) pq(3) show ?thesis by blast
  qed
  with g show ?thesis unfolding eq by blast
qed

section \<open>Properties\<close>





text \<open>
  C28. \<open>pruneOversaturatedBins\<close> is safe: for a node with peers of 5 to 255 bytes it does not
  panic; every peer it disconnects is connected, not protected, has no open stream and lies in
  a bin shallower than the depth; no peer is disconnected twice; a bin loses at most its
  excess over \<open>overSaturationPeers + quickSaturationPeers\<close>; and next to every disconnected peer
  another connected one of the same slot of the bin, which shares its first \<open>i + 4\<close> bits, is
  left.
\<close>

theorem prune_keeps_balance:
  assumes "balanced_kad k"
  shows "\<exists>gone. pruneOversaturatedBins st st' ok k dep = Some gone \<and> distinct gone \<and>
    (\<forall>p\<in>set gone. p \<in> pslice_members (connectedPeers k) \<and> \<not> IsProtectPeer k p \<and> idle st p \<and> idle st' p \<and>
       Proximity (Bytes (base k)) (Bytes p) < dep \<and>
       (\<exists>q\<in>pslice_members (connectedPeers k). q \<notin> set gone \<and>
          common_prefix (Bytes p) (Bytes q) (unat (Proximity (Bytes (base k)) (Bytes p)) + 4))) \<and>
    (\<forall>i<32. length (filter (\<lambda>p. unat (Proximity (Bytes (base k)) (Bytes p)) = i) gone) \<le>
       length (peers (connectedPeers k) ! i) - (overSaturationPeers + quickSaturationPeers))"
proof -
  let ?G = "prune_bin st st' ok k" and ?is = "takeWhile (\<lambda>i. i < unat dep) [0..<32]"
  let ?gone = "concat (map ?G ?is)" and ?po = "\<lambda>p. unat (Proximity (Bytes (base k)) (Bytes p))"
  have run: "pruneOversaturatedBins st st' ok k dep = Some ?gone"
    using prune_bins_eq [of "base k" k] commonBinPrefixes_length [OF assms] assms
    by (simp add: pruneOversaturatedBins_def balanced_kad_def)
  have is_set: "i < 32 \<and> i < unat dep" if "i \<in> set ?is" for i
    using that set_takeWhileD by fastforce
  note G = prune_bin_spec [OF assms]
  have po: "?po p = i" if "p \<in> set (?G i)" "i < 32" for p i
    using G [OF that(2), of st st' ok] that peers_po(2) [OF assms that(2)] by blast
  have fil: "filter (\<lambda>p. ?po p = j) (?G i) = (if i = j then ?G i else [])" if "i < 32" for i j
    using po [OF _ that] by (auto simp: filter_empty_conv filter_id_conv)
  have len: "length (filter (\<lambda>p. ?po p = j) (concat (map ?G js))) \<le> length (peers (connectedPeers k) ! j) -
      (overSaturationPeers + quickSaturationPeers)" if "distinct js" "\<forall>i\<in>set js. i < 32" "j < 32" for j js
    using that
  proof (induction js)
    case (Cons i js)
    have "filter (\<lambda>p. ?po p = j) (concat (map ?G js)) = []" if "i = j"
      using Cons.prems that po by (fastforce simp: filter_empty_conv)
    then show ?case using Cons fil [of i j] G [of j st st' ok] by (cases "i = j") auto
  qed simp
  have dist: "distinct (concat (map ?G js))" if "distinct js" "\<forall>i\<in>set js. i < 32" for js
    using that
  proof (induction js)
    case (Cons i js)
    have "set (?G i) \<inter> set (concat (map ?G js)) = {}"
    proof (rule equals0I)
      fix x assume "x \<in> set (?G i) \<inter> set (concat (map ?G js))"
      then obtain i' where "x \<in> set (?G i)" "i' \<in> set js" "x \<in> set (?G i')" by auto
      moreover from this have "?po x = i" "?po x = i'" using Cons.prems(2) po by (metis list.set_intros)+
      ultimately show False using Cons.prems(1) by auto
    qed
    then show ?case using Cons G [of i st st' ok] by simp
  qed simp
  have is32: "distinct ?is" "\<forall>i\<in>set ?is. i < 32" using is_set by (auto intro: distinct_takeWhile)
  have each: "p \<in> pslice_members (connectedPeers k) \<and> \<not> IsProtectPeer k p \<and> idle st p \<and> idle st' p \<and>
       Proximity (Bytes (base k)) (Bytes p) < dep \<and>
       (\<exists>q\<in>pslice_members (connectedPeers k). q \<notin> set ?gone \<and> common_prefix (Bytes p) (Bytes q) (?po p + 4))"
    if p: "p \<in> set ?gone" for p
  proof -
    obtain i where i: "i \<in> set ?is" "p \<in> set (?G i)" using p by auto
    have i32: "i < 32" "i < unat dep" using is_set [OF i(1)] by auto
    from bspec [OF G [OF i32(1), THEN conjunct2, THEN conjunct2] i(2)] obtain q where
      q: "p \<in> set (peers (connectedPeers k) ! i)" "\<not> IsProtectPeer k p" "idle st p" "idle st' p"
      "q \<in> set (peers (connectedPeers k) ! i)" "q \<notin> set (?G i)" "common_prefix (Bytes p) (Bytes q) (i + 4)" by blast
    have "?po p = i" "?po q = i" using peers_po(2) [OF assms i32(1)] q by blast+
    moreover have "q \<notin> set ?gone"
    proof
      assume "q \<in> set ?gone"
      then obtain i' where "i' \<in> set ?is" "q \<in> set (?G i')" by auto
      moreover from this have "i' = i" using po [of q i'] is_set \<open>?po q = i\<close> by blast
      ultimately show False using q(6) by blast
    qed
    ultimately show ?thesis
      using q i32 peers_po(1) [OF assms i32(1)] by (auto simp: word_less_nat_alt)
  qed
  show ?thesis
    using run dist [OF is32] each len [OF is32] by blast
qed

definition example_bin :: "address list" where
  "example_bin = map (\<lambda>j. Address [word_of_nat (128 + j), 0, 0, 0, 0]) [0..<25]"

lemma example_bin_wf: "pslice_wf \<lparr>peers = example_bin # replicate 31 [], baseBytes = [0, 0, 0, 0, 0], maxBins = 32\<rparr>"
  by code_simp

theorem prune_keeps_balance_witness:
  "\<exists>ps gone. generateCommonBinPrefixes (Address [0, 0, 0, 0, 0]) 3 = Some ps \<and>
     pruneOversaturatedBins (\<lambda>_. Some 0) (\<lambda>_. Some 0) (\<lambda>_. True)
       \<lparr>base = Address [0, 0, 0, 0, 0], bitSuffixLength = 3, commonBinPrefixes = ps,
        connectedPeers = \<lparr>peers = example_bin # replicate 31 [], baseBytes = [0, 0, 0, 0, 0], maxBins = 32\<rparr>,
        knownPeers = \<lparr>peers = [], baseBytes = [], maxBins = 0\<rparr>, depth = 1, radius = 31, public = False,
        protectPeers = []\<rparr> 1 = Some gone \<and> distinct gone"
proof -
  obtain ps where ps: "generateCommonBinPrefixes (Address [0, 0, 0, 0, 0]) 3 = Some ps"
    using generate_nth [of 3 "Address [0, 0, 0, 0, 0]"] by auto
  let ?k = "\<lparr>base = Address [0, 0, 0, 0, 0], bitSuffixLength = 3, commonBinPrefixes = ps,
     connectedPeers = \<lparr>peers = example_bin # replicate 31 [], baseBytes = [0, 0, 0, 0, 0], maxBins = 32\<rparr>,
     knownPeers = \<lparr>peers = [], baseBytes = [], maxBins = 0\<rparr>, depth = 1, radius = 31, public = False, protectPeers = []\<rparr>"
  have "balanced_kad ?k"
    using ps example_bin_wf
    by (auto simp: balanced_kad_def addr_ok_def peers_ok_def pslice_members_def example_bin_def)
  from prune_keeps_balance [OF this, of "\<lambda>_. Some 0" "\<lambda>_. Some 0" "\<lambda>_. True" 1] ps show ?thesis by blast
qed

end
