(* ===== verification/Container.thy ===== *)
theory Container
  imports Kademlia "HOL-Library.Monad_Syntax"
begin

text \<open>
  The containers of light nodes and of boot nodes (\<^verbatim>\<open>src/pkg/topology/lightnode/container.go\<close>
  and \<^verbatim>\<open>src/pkg/topology/bootnode/container.go\<close>, the same code): the peers that are connected
  and those that have been. Both lists have one bin. The lemmas on the moves between the two
  lists use only the contract \<open>peer_set\<close> of a peer list. \<open>None\<close> is a panic.
\<close>

section \<open>Model\<close>

record container =
  c_base :: address
  c_connected :: pslice
  c_disconnected :: pslice

definition NewContainer :: "address \<Rightarrow> container option" where
  "NewContainer b = do {
     connected \<leftarrow> PSlice_New 1 b;
     disconnected \<leftarrow> PSlice_New 1 b;
     Some \<lparr>c_base = b, c_connected = connected, c_disconnected = disconnected\<rparr> }"

definition Container_Connected :: "address \<Rightarrow> container \<Rightarrow> container option" where
  "Container_Connected a c = do {
     connected \<leftarrow> PSlice_Add (c_connected c) [a];
     disconnected \<leftarrow> PSlice_Remove (c_disconnected c) a;
     Some (c\<lparr>c_connected := connected, c_disconnected := disconnected\<rparr>) }"

definition Container_Disconnected :: "address \<Rightarrow> container \<Rightarrow> container option" where
  "Container_Disconnected a c = do {
     found \<leftarrow> PSlice_Exists (c_connected c) a;
     if found then do {
       connected \<leftarrow> PSlice_Remove (c_connected c) a;
       disconnected \<leftarrow> PSlice_Add (c_disconnected c) [a];
       Some (c\<lparr>c_connected := connected, c_disconnected := disconnected\<rparr>)
     } else Some c }"

definition Count :: "container \<Rightarrow> nat" where
  "Count c = PSlice_Length (c_connected c)"

text \<open>The callback that stops at the peer number \<open>i\<close>; its state is the counter and the peer.\<close>

definition pick_cb :: "nat \<Rightarrow> (nat \<times> address, unit) peer_func" where
  "pick_cb i peer po st =
     (case st of (count, picked) \<Rightarrow>
        if count = i then ((True, False, None), (count, peer))
        else ((False, False, None), (count + 1, picked)))"

text \<open>
  \<open>RandomPeer\<close> draws random numbers (\<open>None\<close>: the random source fails) until it has drawn a
  peer other than \<open>not\<close>; \<open>Drawing\<close> is the loop that has not ended with the given numbers.
  \<open>rand.Int\<close> panics when its bound is 0.
\<close>

datatype pick_result = PickPanic | PickError | Drawing | Picked address

fun pick_peer :: "container \<Rightarrow> address \<Rightarrow> nat option list \<Rightarrow> address \<Rightarrow> pick_result" where
  "pick_peer c notp [] a = Drawing"
| "pick_peer c notp (None # rs) a = PickError"
| "pick_peer c notp (Some i # rs) a =
     (case PSlice_EachBinRev (\<lambda>_. c_connected c) (pick_cb i) (0, a) of
        None \<Rightarrow> PickPanic
      | Some (_, _, a') \<Rightarrow> if Equal a' notp then pick_peer c notp rs a' else Picked a')"

definition RandomPeer :: "container \<Rightarrow> address \<Rightarrow> nat option list \<Rightarrow> pick_result" where
  "RandomPeer c notp rs = (if Count c = 0 then PickPanic else pick_peer c notp rs ZeroAddress)"

definition Container_EachPeer :: "container \<Rightarrow> ('st, 'e) peer_func \<Rightarrow> 'st \<Rightarrow> ('e option \<times> 'st) option" where
  "Container_EachPeer c pf st = PSlice_EachBin (\<lambda>_. c_connected c) pf st"

definition peersInfo :: "pslice \<Rightarrow> address list option" where
  "peersInfo s =
     (if PSlice_Length s = 0 then Some []
      else map_option snd (PSlice_EachBin (\<lambda>_. s) (\<lambda>a po ps. ((False, False, None :: unit option), ps @ [a])) []))"

record bin_info =
  BinPopulation :: nat
  BinConnected :: nat
  DisconnectedPeers :: "address list"
  ConnectedPeers :: "address list"

definition PeerInfo :: "container \<Rightarrow> bin_info option" where
  "PeerInfo c = do {
     d \<leftarrow> peersInfo (c_disconnected c);
     n \<leftarrow> peersInfo (c_connected c);
     Some \<lparr>BinPopulation = PSlice_Length (c_connected c), BinConnected = PSlice_Length (c_connected c),
           DisconnectedPeers = d, ConnectedPeers = n\<rparr> }"

section \<open>Moving a peer between two lists\<close>

datatype 'a conn_op = Connect 'a | Disconnect 'a

fun conn_spec :: "'a conn_op \<Rightarrow> 'a set \<times> 'a set \<Rightarrow> 'a set \<times> 'a set" where
  "conn_spec (Connect a) (C, D) = (insert a C, D - {a})"
| "conn_spec (Disconnect a) (C, D) = (if a \<in> C then (C - {a}, insert a D) else (C, D))"

context peer_set
begin

lemma connect_pair:
  assumes "inv s" "inv t"
  shows "\<exists>s' t'. add s a = Some s' \<and> remove t a = Some t' \<and> inv s' \<and> inv t' \<and>
    (members s', members t') = conn_spec (Connect a) (members s, members t)"
  using add [OF assms(1), of a] remove [OF assms(2), of a] by auto

lemma disconnect_pair:
  assumes "inv s" "inv t" "a \<in> members s"
  shows "\<exists>s' t'. remove s a = Some s' \<and> add t a = Some t' \<and> inv s' \<and> inv t' \<and>
    (members s', members t') = conn_spec (Disconnect a) (members s, members t)"
  using remove [OF assms(1), of a] add [OF assms(2), of a] assms(3) by auto

end

section \<open>Lemmas\<close>

definition container_inv :: "container \<Rightarrow> bool" where
  "container_inv c \<longleftrightarrow> pslice_wf (c_connected c) \<and> pslice_wf (c_disconnected c)"

abbreviation container_sets :: "container \<Rightarrow> address set \<times> address set" where
  "container_sets c \<equiv> (pslice_members (c_connected c), pslice_members (c_disconnected c))"

fun container_op :: "address conn_op \<Rightarrow> container \<Rightarrow> container option" where
  "container_op (Connect a) c = Container_Connected a c"
| "container_op (Disconnect a) c = Container_Disconnected a c"

fun container_run :: "address conn_op list \<Rightarrow> container \<Rightarrow> container option" where
  "container_run [] c = Some c"
| "container_run (x # xs) c = Option.bind (container_op x c) (container_run xs)"

lemma container_op_sim:
  assumes "container_inv c"
  shows "\<exists>c'. container_op x c = Some c' \<and> container_inv c' \<and> container_sets c' = conn_spec x (container_sets c)"
proof (cases x)
  case (Connect a)
  obtain s t where "PSlice_Add (c_connected c) [a] = Some s" "PSlice_Remove (c_disconnected c) a = Some t"
    "pslice_wf s" "pslice_wf t" "(pslice_members s, pslice_members t) = conn_spec (Connect a) (container_sets c)"
    using bins.connect_pair [of "c_connected c" "c_disconnected c" a] assms by (auto simp: container_inv_def)
  with Connect show ?thesis by (simp add: Container_Connected_def container_inv_def)
next
  case (Disconnect a)
  have ex: "PSlice_Exists (c_connected c) a = Some (a \<in> pslice_members (c_connected c))"
    using bins.exists assms by (simp add: container_inv_def)
  show ?thesis
  proof (cases "a \<in> pslice_members (c_connected c)")
    case True
    then obtain s t where "PSlice_Remove (c_connected c) a = Some s" "PSlice_Add (c_disconnected c) [a] = Some t"
      "pslice_wf s" "pslice_wf t" "(pslice_members s, pslice_members t) = conn_spec (Disconnect a) (container_sets c)"
      using bins.disconnect_pair [of "c_connected c" "c_disconnected c" a] assms by (auto simp: container_inv_def)
    with Disconnect True ex show ?thesis by (simp add: Container_Disconnected_def container_inv_def)
  qed (use Disconnect ex assms in \<open>simp add: Container_Disconnected_def\<close>)
qed

lemma container_run_sim:
  "container_inv c \<Longrightarrow> \<exists>c'. container_run xs c = Some c' \<and> container_inv c' \<and>
     container_sets c' = fold conn_spec xs (container_sets c)"
proof (induction xs arbitrary: c)
  case (Cons x xs)
  obtain c1 where "container_op x c = Some c1" "container_inv c1" "container_sets c1 = conn_spec x (container_sets c)"
    using container_op_sim [OF Cons.prems] by blast
  with Cons.IH [of c1] show ?case by simp
qed simp

lemma conn_spec_disjoint: "C \<inter> D = {} \<Longrightarrow> fold conn_spec xs (C, D) = (C', D') \<Longrightarrow> C' \<inter> D' = {}"
proof (induction xs arbitrary: C D)
  case (Cons x xs)
  obtain C1 D1 where "conn_spec x (C, D) = (C1, D1)" by fastforce
  moreover from this have "C1 \<inter> D1 = {}" using Cons.prems(1) by (cases x) (auto split: if_splits)
  ultimately show ?case using Cons by simp
qed simp

lemma NewContainer_inv: "\<exists>c. NewContainer b = Some c \<and> container_inv c \<and> container_sets c = ({}, {})"
  using PSlice_New_wf [of 1 b] by (auto simp: NewContainer_def container_inv_def)

subsection \<open>Drawing a peer\<close>

definition peer_list :: "container \<Rightarrow> address list" where
  "peer_list c = concat (peers (c_connected c))"

lemma visit_pick:
  "visit_list (pick_cb i) xs (n, a) =
     (if n \<le> i \<and> i < n + length xs then (i, fst (xs ! (i - n))) else (n + length xs, a))"
  if "n \<le> i"
  using that
proof (induction xs arbitrary: n)
  case (Cons x xs)
  obtain p po where x: "x = (p, po)" by fastforce
  show ?case
  proof (cases "n = i")
    case False
    then have "Suc (i - Suc n) = i - n" using Cons.prems by simp
    with Cons.IH [of "Suc n"] Cons.prems False x show ?thesis
      by (auto simp: pick_cb_def nth_Cons' split: if_splits)
  qed (simp add: x pick_cb_def)
qed simp

lemma pick_eachbin:
  assumes "container_inv c" "i < length (peer_list c)"
  shows "\<exists>e n. PSlice_EachBinRev (\<lambda>_. c_connected c) (pick_cb i) (0, a) = Some (e, n, peer_list c ! i)"
proof -
  let ?s = "c_connected c"
  have "pslice_placed ?s" using assms(1) by (simp add: container_inv_def pslice_wf_def)
  moreover have "plain_callback (pick_cb i)" by (auto simp: plain_callback_def pick_cb_def split: prod.splits)
  ultimately have "PSlice_EachBinRev (\<lambda>_. ?s) (pick_cb i) (0, a) = Some (None, visit_list (pick_cb i) (up_pairs ?s) (0, a))"
    by (rule EachBinRev_visit)
  moreover have m: "map fst (up_pairs ?s) = peer_list c" by (simp add: map_fst_up_pairs peer_list_def)
  have "length (up_pairs ?s) = length (peer_list c)" using arg_cong [OF m, of length] by simp
  moreover have "fst (up_pairs ?s ! i) = peer_list c ! i"
    using m assms(2) calculation(2) by (metis nth_map)
  ultimately show ?thesis using visit_pick [of 0 i "up_pairs ?s" a] assms(2) by simp
qed

lemma pick_peer_find:
  assumes "container_inv c" "\<forall>r\<in>set rs. \<exists>i. r = Some i \<and> i < length (peer_list c)"
  shows "pick_peer c notp rs a =
    (case find (\<lambda>r. peer_list c ! the r \<noteq> notp) rs of None \<Rightarrow> Drawing | Some r \<Rightarrow> Picked (peer_list c ! the r))"
  using assms(2)
proof (induction rs arbitrary: a)
  case (Cons r rs)
  then obtain i where r: "r = Some i" "i < length (peer_list c)" by auto
  obtain e n where "PSlice_EachBinRev (\<lambda>_. c_connected c) (pick_cb i) (0, a) = Some (e, n, peer_list c ! i)"
    using pick_eachbin [OF assms(1) r(2)] by blast
  with Cons r show ?case by simp
qed simp

section \<open>Properties\<close>

text \<open>
  A container follows its connections: after every sequence of connections and
  disconnections no operation has panicked, the connected and the disconnected peers are the
  ones that the sequence gives, no peer is in both lists, and \<open>Count\<close> is the number of
  connected peers.
\<close>

theorem container_follows_connections:
  "\<exists>c0 c. NewContainer b = Some c0 \<and> container_run xs c0 = Some c \<and>
     container_sets c = fold conn_spec xs ({}, {}) \<and>
     pslice_members (c_connected c) \<inter> pslice_members (c_disconnected c) = {} \<and>
     Count c = card (pslice_members (c_connected c))"
proof -
  obtain c0 where c0: "NewContainer b = Some c0" "container_inv c0" "container_sets c0 = ({}, {})"
    using NewContainer_inv by blast
  obtain c where c: "container_run xs c0 = Some c" "container_inv c" "container_sets c = fold conn_spec xs ({}, {})"
    using container_run_sim [OF c0(2), of xs] c0(3) by auto
  have "pslice_members (c_connected c) \<inter> pslice_members (c_disconnected c) = {}"
    using conn_spec_disjoint [of "{}" "{}" xs] c(3) by simp
  with c0(1) c show ?thesis using bins.count by (auto simp: Count_def container_inv_def)
qed

text \<open>
  C32. When \<open>RandomPeer\<close> ends: with random numbers below the number of connected peers it
  returns a connected peer other than \<open>not\<close> as soon as a number that stands for one is drawn,
  and continues to draw until then; so when \<open>not\<close> is the only connected peer it never returns,
  whatever is drawn, and without connected peers it panics.
\<close>

theorem RandomPeer_termination:
  assumes "container_inv c" "\<forall>r\<in>set rs. \<exists>i. r = Some i \<and> i < Count c"
  shows "(\<forall>p. RandomPeer c notp rs = Picked p \<longrightarrow> p \<in> pslice_members (c_connected c) \<and> p \<noteq> notp) \<and>
    (0 < Count c \<longrightarrow> (RandomPeer c notp rs = Drawing \<longleftrightarrow> (\<forall>r\<in>set rs. peer_list c ! the r = notp))) \<and>
    (0 < Count c \<longrightarrow> RandomPeer c notp rs = Drawing \<or> (\<exists>p. RandomPeer c notp rs = Picked p)) \<and>
    (pslice_members (c_connected c) = {notp} \<longrightarrow> RandomPeer c notp rs = Drawing) \<and>
    (pslice_members (c_connected c) = {} \<longrightarrow> RandomPeer c notp rs = PickPanic)"
proof -
  have len: "Count c = length (peer_list c)" by (simp add: Count_def PSlice_Length_eq peer_list_def)
  have mem: "set (peer_list c) = pslice_members (c_connected c)" by (simp add: peer_list_def pslice_members_def)
  have rs: "\<forall>r\<in>set rs. \<exists>i. r = Some i \<and> i < length (peer_list c)" using assms(2) len by simp
  note run = pick_peer_find [OF assms(1) rs, of notp ZeroAddress]
  have idx: "peer_list c ! the r \<in> set (peer_list c)" if "r \<in> set rs" for r using rs that by fastforce
  let ?f = "find (\<lambda>r. peer_list c ! the r \<noteq> notp) rs"
  have none: "?f = None \<longleftrightarrow> (\<forall>r\<in>set rs. peer_list c ! the r = notp)" by (auto simp: find_None_iff)
  have some: "peer_list c ! the r \<in> set (peer_list c) \<and> peer_list c ! the r \<noteq> notp" if "?f = Some r" for r
    using that idx by (auto simp: find_Some_iff)
  show ?thesis
  proof (cases "Count c = 0")
    case True
    then have "pslice_members (c_connected c) = {}" using len mem by simp
    with True show ?thesis by (simp add: RandomPeer_def)
  next
    case False
    then have e: "RandomPeer c notp rs = (case ?f of None \<Rightarrow> Drawing | Some r \<Rightarrow> Picked (peer_list c ! the r))"
      using run by (simp add: RandomPeer_def)
    have "pslice_members (c_connected c) \<noteq> {}" using False len mem by auto
    moreover have "?f = None" if "pslice_members (c_connected c) = {notp}"
      using none idx that mem by auto
    ultimately show ?thesis using some none mem by (auto simp: e split: option.splits)
  qed
qed

theorem RandomPeer_termination_witness:
  "\<exists>c0 c. NewContainer (Address [0, 0, 0, 0]) = Some c0 \<and> container_run [Connect (Address [1, 0, 0, 0])] c0 = Some c \<and>
     RandomPeer c (Address [1, 0, 0, 0]) [Some 0, Some 0, Some 0] = Drawing"
proof -
  obtain c0 where c0: "NewContainer (Address [0, 0, 0, 0]) = Some c0" "container_inv c0" "container_sets c0 = ({}, {})"
    using NewContainer_inv by blast
  obtain c where c: "container_run [Connect (Address [1, 0, 0, 0])] c0 = Some c" "container_inv c"
    "container_sets c = ({Address [1, 0, 0, 0]}, {})"
    using container_run_sim [OF c0(2), of "[Connect (Address [1, 0, 0, 0])]"] c0(3) by auto
  then have "Count c = 1" using bins.count by (simp add: Count_def container_inv_def)
  with RandomPeer_termination [OF c(2), of "[Some 0, Some 0, Some 0]" "Address [1, 0, 0, 0]"] c0(1) c(1,3)
  show ?thesis by auto
qed

end
