(* ===== verification/ChunkStore.thy ===== *)
theory ChunkStore
  imports Boson BitVector Statestore
begin

text \<open>
  The chunk store of the local store (\<^verbatim>\<open>src/pkg/localstore/chunkstore\<close>): for every file, which
  chunks of it every node has, as bit vectors. There are three tables of the same shape: what
  this node has been given (\<open>source\<close>), what it serves (\<open>service\<close>) and what it has discovered
  (\<open>discover\<close>, with a time). Every change is written through to the state store, and \<open>Init\<close>
  reads the tables back from it. \<open>None\<close> is a panic. Go's maps from overlays to vectors are
  association lists; a loop over one runs in the order of the list.
\<close>

section \<open>Model\<close>

datatype ChunkType = DISCOVER | SERVICE | SOURCE | OtherType

datatype cs_error = TypeError | LengthError | HexError | StateError store_error | NoFile

record provider =
  Overlay :: address
  Bit :: int
  Len :: int
  B :: bytes

record consumer =
  cOverlay :: address
  cLen :: int
  cB :: bytes
  cTime :: int

type_synonym 'v table = "string \<rightharpoonup> (string \<times> 'v) list"

record discoverBitVector =
  dbit :: bitvector
  dtime :: int

record 's chunkStore =
  stateStore :: 's
  source :: "bitvector table"
  service :: "bitvector table"
  discover :: "discoverBitVector table"
  finder :: "string set"

definition chunkStore_New :: "'s \<Rightarrow> 's chunkStore" where
  "chunkStore_New st = \<lparr>stateStore = st, source = Map.empty, service = Map.empty, discover = Map.empty, finder = {}\<rparr>"

definition serviceKeyPrefix :: string where
  "serviceKeyPrefix = ''chunk''"

definition sourceKeyPrefix :: string where
  "sourceKeyPrefix = ''source''"

definition discoverKeyPrefix :: string where
  "discoverKeyPrefix = ''discover''"

definition cs_generateKey :: "string \<Rightarrow> address \<Rightarrow> address \<Rightarrow> string" where
  "cs_generateKey pre rootCid overlay = pre @ ''-'' @ String rootCid @ ''-'' @ String overlay"

text \<open>\<open>strings.Split\<close> at one character.\<close>

fun split_at_char :: "char \<Rightarrow> string \<Rightarrow> string list" where
  "split_at_char c [] = [[]]"
| "split_at_char c (x # xs) =
     (if x = c then [] # split_at_char c xs
      else case split_at_char c xs of [] \<Rightarrow> [[x]] | y # ys \<Rightarrow> (x # y) # ys)"

definition unmarshalKey :: "string \<Rightarrow> (cs_error + address \<times> address) option" where
  "unmarshalKey key =
     (let keys = split_at_char (CHR ''-'') key in
      if length keys \<le> 1 then None
      else case ParseHexAddress (keys ! 1) of
        Inl _ \<Rightarrow> Some (Inl HexError)
      | Inr rootCid \<Rightarrow>
          if length keys \<le> 2 then None
          else case ParseHexAddress (keys ! 2) of Inl _ \<Rightarrow> Some (Inl HexError) | Inr overlay \<Rightarrow> Some (Inr (rootCid, overlay)))"

text \<open>The inner map of a file, empty when there is none.\<close>

definition inner :: "'v table \<Rightarrow> string \<Rightarrow> (string \<times> 'v) list" where
  "inner tbl r = (case tbl r of None \<Rightarrow> [] | Some v \<Rightarrow> v)"

subsection \<open>Putting\<close>

text \<open>
  The vector that a put of one bit ends with, before the bit is set: a longer copy, the vector
  itself, or a new one; \<open>Inr None\<close> when there is nothing to do.
\<close>

definition vector_for :: "bitvector option \<Rightarrow> int \<Rightarrow> int \<Rightarrow> (cs_error + bitvector option) option" where
  "vector_for cur bt l =
     (case cur of
        Some bv \<Rightarrow>
          if BitVector_Len bv < l
          then (case BitVector_New l of
                  None \<Rightarrow> None
                | Some (Inl _) \<Rightarrow> Some (Inl LengthError)
                | Some (Inr newbv) \<Rightarrow>
                    (case SetBytes newbv (bv_b bv) of
                       None \<Rightarrow> None
                     | Some (Inl _) \<Rightarrow> Some (Inl LengthError)
                     | Some (Inr newbv) \<Rightarrow> Some (Inr (Some newbv))))
          else (case BitVector_Get bv bt of
                  None \<Rightarrow> None
                | Some True \<Rightarrow> Some (Inr None)
                | Some False \<Rightarrow> Some (Inr (Some bv)))
      | None \<Rightarrow>
          (case BitVector_New l of
             None \<Rightarrow> None
           | Some (Inl _) \<Rightarrow> Some (Inl LengthError)
           | Some (Inr newbv) \<Rightarrow> Some (Inr (Some newbv))))"

definition put_bit ::
  "('s, bitvector) storer \<Rightarrow> string \<Rightarrow> address \<Rightarrow> address \<Rightarrow> int \<Rightarrow> int \<Rightarrow> bitvector table \<Rightarrow> 's \<Rightarrow>
   (cs_error option \<times> bitvector table \<times> 's) option" where
  "put_bit ops pre rootCid overlay bt l tbl st =
     (let r = String rootCid; o' = String overlay; v = inner tbl r in
      case vector_for (map_of v o') bt l of
        None \<Rightarrow> None
      | Some (Inl e) \<Rightarrow> Some (Some e, tbl, st)
      | Some (Inr None) \<Rightarrow> Some (None, tbl, st)
      | Some (Inr (Some bv)) \<Rightarrow>
          (case BitVector_Set bv bt of
             None \<Rightarrow> None
           | Some bv' \<Rightarrow>
               (case st_Put ops st (cs_generateKey pre rootCid overlay) bv' of
                  (e, st') \<Rightarrow> Some (map_option StateError e, tbl(r \<mapsto> AList.update o' bv' v), st'))))"

definition putChunkService ::
  "('s, bitvector) storer \<Rightarrow> address \<Rightarrow> address \<Rightarrow> int \<Rightarrow> int \<Rightarrow> 's chunkStore \<Rightarrow> (cs_error option \<times> 's chunkStore) option" where
  "putChunkService ops rootCid overlay bt l cs =
     map_option (\<lambda>(e, t, st). (e, cs\<lparr>service := t, stateStore := st\<rparr>))
       (put_bit ops serviceKeyPrefix rootCid overlay bt l (service cs) (stateStore cs))"

definition putChunkSource ::
  "('s, bitvector) storer \<Rightarrow> address \<Rightarrow> address \<Rightarrow> int \<Rightarrow> int \<Rightarrow> 's chunkStore \<Rightarrow> (cs_error option \<times> 's chunkStore) option" where
  "putChunkSource ops rootCid src bt l cs =
     map_option (\<lambda>(e, t, st). (e, cs\<lparr>source := t, stateStore := st\<rparr>))
       (put_bit ops sourceKeyPrefix rootCid src bt l (source cs) (stateStore cs))"

text \<open>The merged vector of \<open>putDiscover\<close>: the old bits and the new ones.\<close>

definition merge_discover :: "int \<Rightarrow> discoverBitVector option \<Rightarrow> bytes \<Rightarrow> int \<Rightarrow> (cs_error + discoverBitVector) option" where
  "merge_discover now cur b l =
     (case cur of
        Some data \<Rightarrow>
          if BitVector_Len (dbit data) < l
          then (case NewFromBytes b l of
                  Inl _ \<Rightarrow> Some (Inl LengthError)
                | Inr bv \<Rightarrow>
                    (case SetBytes bv (bv_b (dbit data)) of
                       None \<Rightarrow> None
                     | Some (Inl _) \<Rightarrow> Some (Inl LengthError)
                     | Some (Inr bv) \<Rightarrow> Some (Inr (data\<lparr>dbit := bv\<rparr>))))
          else (case SetBytes (dbit data) b of
                  None \<Rightarrow> None
                | Some (Inl _) \<Rightarrow> Some (Inl LengthError)
                | Some (Inr bv) \<Rightarrow> Some (Inr (data\<lparr>dbit := bv\<rparr>)))
      | None \<Rightarrow>
          (case NewFromBytes b l of
             Inl _ \<Rightarrow> Some (Inl LengthError)
           | Inr bv \<Rightarrow> Some (Inr \<lparr>dbit = bv, dtime = now\<rparr>)))"

definition putDiscover ::
  "('s, bitvector) storer \<Rightarrow> int \<Rightarrow> address \<Rightarrow> address \<Rightarrow> bytes \<Rightarrow> int \<Rightarrow> 's chunkStore \<Rightarrow> (cs_error option \<times> 's chunkStore) option" where
  "putDiscover ops now rootCid overlay b l cs =
     (let r = String rootCid; o' = String overlay; v = inner (discover cs) r in
      case merge_discover now (map_of v o') b l of
        None \<Rightarrow> None
      | Some (Inl e) \<Rightarrow> Some (Some e, cs)
      | Some (Inr data) \<Rightarrow>
          (case st_Put ops (stateStore cs) (cs_generateKey discoverKeyPrefix rootCid overlay) (dbit data) of
             (e, st') \<Rightarrow>
               Some (map_option StateError e,
                     cs\<lparr>discover := (discover cs)(r \<mapsto> AList.update o' data v), stateStore := st'\<rparr>)))"

text \<open>The loop of \<open>Put\<close> over the providers: the error is that of the last one.\<close>

fun put_providers ::
  "(provider \<Rightarrow> 's chunkStore \<Rightarrow> (cs_error option \<times> 's chunkStore) option) \<Rightarrow> provider list \<Rightarrow>
   cs_error option \<Rightarrow> 's chunkStore \<Rightarrow> (cs_error option \<times> 's chunkStore) option" where
  "put_providers f [] err cs = Some (err, cs)"
| "put_providers f (p # ps) err cs =
     Option.bind (f p cs) (\<lambda>(e, cs1). put_providers f ps e cs1)"

definition chunkStore_Put ::
  "('s, bitvector) storer \<Rightarrow> int \<Rightarrow> ChunkType \<Rightarrow> address \<Rightarrow> provider list \<Rightarrow> 's chunkStore \<Rightarrow> (cs_error option \<times> 's chunkStore) option" where
  "chunkStore_Put ops now ct reference providers cs =
     (case ct of
        DISCOVER \<Rightarrow> put_providers (\<lambda>p. putDiscover ops now reference (Overlay p) (B p) (Len p)) providers None cs
      | SOURCE \<Rightarrow> put_providers (\<lambda>p. putChunkSource ops reference (Overlay p) (Bit p) (Len p)) providers None cs
      | SERVICE \<Rightarrow> put_providers (\<lambda>p. putChunkService ops reference (Overlay p) (Bit p) (Len p)) providers None cs
      | OtherType \<Rightarrow> Some (Some TypeError, cs))"

subsection \<open>Removing\<close>

text \<open>The loop over the overlays of a file; an error leaves the table as it is.\<close>

fun remove_keys ::
  "('s, bitvector) storer \<Rightarrow> string \<Rightarrow> address \<Rightarrow> string list \<Rightarrow> 's \<Rightarrow> (cs_error option \<times> 's) option" where
  "remove_keys ops pre rootCid [] st = Some (None, st)"
| "remove_keys ops pre rootCid (k # ks) st =
     (case MustParseHexAddress k of
        None \<Rightarrow> None
      | Some a \<Rightarrow>
          (case st_Delete ops st (cs_generateKey pre rootCid a) of
             (Some e, st') \<Rightarrow> Some (Some (StateError e), st')
           | (None, st') \<Rightarrow> remove_keys ops pre rootCid ks st'))"

definition remove_file ::
  "('s, bitvector) storer \<Rightarrow> string \<Rightarrow> address \<Rightarrow> 'v table \<Rightarrow> 's \<Rightarrow> (cs_error option \<times> 'v table \<times> 's) option" where
  "remove_file ops pre rootCid tbl st =
     (case tbl (String rootCid) of
        None \<Rightarrow> Some (None, tbl, st)
      | Some v \<Rightarrow>
          map_option (\<lambda>(e, st'). (e, if e = None then tbl(String rootCid := None) else tbl, st'))
            (remove_keys ops pre rootCid (map fst v) st))"

definition remove_overlay ::
  "('s, bitvector) storer \<Rightarrow> string \<Rightarrow> address \<Rightarrow> address \<Rightarrow> 'v table \<Rightarrow> 's \<Rightarrow> cs_error option \<times> 'v table \<times> 's" where
  "remove_overlay ops pre rootCid overlay tbl st =
     (let r = String rootCid; o' = String overlay in
      case map_of (inner tbl r) o' of
        None \<Rightarrow> (None, tbl, st)
      | Some _ \<Rightarrow>
          (case st_Delete ops st (cs_generateKey pre rootCid overlay) of
             (Some e, st') \<Rightarrow> (Some (StateError e), tbl, st')
           | (None, st') \<Rightarrow> (None, tbl(r \<mapsto> AList.delete o' (inner tbl r)), st')))"

definition removeService where
  "removeService ops rootCid cs =
     map_option (\<lambda>(e, t, st). (e, cs\<lparr>service := t, stateStore := st\<rparr>))
       (remove_file ops serviceKeyPrefix rootCid (service cs) (stateStore cs))"

definition removeSource where
  "removeSource ops rootCid cs =
     map_option (\<lambda>(e, t, st). (e, cs\<lparr>source := t, stateStore := st\<rparr>))
       (remove_file ops sourceKeyPrefix rootCid (source cs) (stateStore cs))"

definition removeDiscover where
  "removeDiscover ops rootCid cs =
     map_option (\<lambda>(e, t, st). (e, cs\<lparr>discover := t, stateStore := st\<rparr>))
       (remove_file ops discoverKeyPrefix rootCid (discover cs) (stateStore cs))"

definition removeServiceByOverlay where
  "removeServiceByOverlay ops rootCid overlay cs =
     (case remove_overlay ops serviceKeyPrefix rootCid overlay (service cs) (stateStore cs) of
        (e, t, st) \<Rightarrow> (e, cs\<lparr>service := t, stateStore := st\<rparr>))"

definition removeSourceByOverlay where
  "removeSourceByOverlay ops rootCid overlay cs =
     (case remove_overlay ops sourceKeyPrefix rootCid overlay (source cs) (stateStore cs) of
        (e, t, st) \<Rightarrow> (e, cs\<lparr>source := t, stateStore := st\<rparr>))"

definition removeDiscoverByOverlay where
  "removeDiscoverByOverlay ops rootCid overlay cs =
     (case remove_overlay ops discoverKeyPrefix rootCid overlay (discover cs) (stateStore cs) of
        (e, t, st) \<Rightarrow> (e, cs\<lparr>discover := t, stateStore := st\<rparr>))"

definition chunkStore_Remove ::
  "('s, bitvector) storer \<Rightarrow> ChunkType \<Rightarrow> address \<Rightarrow> address \<Rightarrow> 's chunkStore \<Rightarrow> cs_error option \<times> 's chunkStore" where
  "chunkStore_Remove ops ct reference overlay cs =
     (case ct of
        DISCOVER \<Rightarrow> removeDiscoverByOverlay ops reference overlay cs
      | SOURCE \<Rightarrow> removeSourceByOverlay ops reference overlay cs
      | SERVICE \<Rightarrow> removeServiceByOverlay ops reference overlay cs
      | OtherType \<Rightarrow> (Some TypeError, cs))"

definition chunkStore_RemoveAll ::
  "('s, bitvector) storer \<Rightarrow> ChunkType \<Rightarrow> address \<Rightarrow> 's chunkStore \<Rightarrow> (cs_error option \<times> 's chunkStore) option" where
  "chunkStore_RemoveAll ops ct reference cs =
     (case ct of
        DISCOVER \<Rightarrow> removeDiscover ops reference cs
      | SOURCE \<Rightarrow> removeSource ops reference cs
      | SERVICE \<Rightarrow> removeService ops reference cs
      | OtherType \<Rightarrow> Some (Some TypeError, cs))"


subsection \<open>Reading\<close>

definition has_overlay :: "'v table \<Rightarrow> address \<Rightarrow> address \<Rightarrow> bool" where
  "has_overlay tbl rootCid overlay \<longleftrightarrow> map_of (inner tbl (String rootCid)) (String overlay) \<noteq> None"

definition chunkStore_Has :: "ChunkType \<Rightarrow> address \<Rightarrow> address \<Rightarrow> 's chunkStore \<Rightarrow> cs_error + bool" where
  "chunkStore_Has ct reference overlay cs =
     (case ct of
        DISCOVER \<Rightarrow> Inr (has_overlay (discover cs) reference overlay)
      | SOURCE \<Rightarrow> Inr (has_overlay (source cs) reference overlay)
      | SERVICE \<Rightarrow> Inr (has_overlay (service cs) reference overlay)
      | OtherType \<Rightarrow> Inl TypeError)"

fun has_bit :: "bitvector list \<Rightarrow> int \<Rightarrow> bool option" where
  "has_bit [] bt = Some False"
| "has_bit (v # vs) bt =
     (if BitVector_Len v > bt
      then (case BitVector_Get v bt of None \<Rightarrow> None | Some True \<Rightarrow> Some True | Some False \<Rightarrow> has_bit vs bt)
      else has_bit vs bt)"

definition chunkStore_HasChunk :: "ChunkType \<Rightarrow> address \<Rightarrow> int \<Rightarrow> 's chunkStore \<Rightarrow> (cs_error + bool) option" where
  "chunkStore_HasChunk ct reference bt cs =
     (let r = String reference in
      case ct of
        DISCOVER \<Rightarrow> map_option Inr (has_bit (map (dbit \<circ> snd) (inner (discover cs) r)) bt)
      | SOURCE \<Rightarrow> map_option Inr (has_bit (map snd (inner (source cs) r)) bt)
      | SERVICE \<Rightarrow> map_option Inr (has_bit (map snd (inner (service cs) r)) bt)
      | OtherType \<Rightarrow> Some (Inl TypeError))"

text \<open>The consumers of one file; a key that is not an address panics.\<close>

fun consumers :: "('v \<Rightarrow> bitvector) \<Rightarrow> ('v \<Rightarrow> int) \<Rightarrow> (string \<times> 'v) list \<Rightarrow> consumer list option" where
  "consumers bits tm [] = Some []"
| "consumers bits tm ((k, v) # d) =
     Option.bind (MustParseHexAddress k) (\<lambda>a.
     map_option (\<lambda>cs. \<lparr>cOverlay = a, cLen = BitVector_Len (bits v), cB = bv_b (bits v), cTime = tm v\<rparr> # cs) (consumers bits tm d))"

definition chunkStore_Get :: "ChunkType \<Rightarrow> address \<Rightarrow> 's chunkStore \<Rightarrow> (cs_error + consumer list) option" where
  "chunkStore_Get ct reference cs =
     (let r = String reference in
      case ct of
        DISCOVER \<Rightarrow>
          (case discover cs r of None \<Rightarrow> Some (Inl NoFile) | Some d \<Rightarrow> map_option Inr (consumers dbit dtime d))
      | SOURCE \<Rightarrow> (case source cs r of None \<Rightarrow> Some (Inl NoFile) | Some d \<Rightarrow> map_option Inr (consumers id (\<lambda>_. 0) d))
      | SERVICE \<Rightarrow> (case service cs r of None \<Rightarrow> Some (Inl NoFile) | Some d \<Rightarrow> map_option Inr (consumers id (\<lambda>_. 0) d))
      | OtherType \<Rightarrow> Some (Inl TypeError))"

definition zero_consumer :: consumer where
  "zero_consumer = \<lparr>cOverlay = ZeroAddress, cLen = 0, cB = [], cTime = 0\<rparr>"

definition chunkStore_GetByOverlay :: "ChunkType \<Rightarrow> address \<Rightarrow> address \<Rightarrow> 's chunkStore \<Rightarrow> cs_error + consumer" where
  "chunkStore_GetByOverlay ct reference overlay cs =
     (let r = String reference; o' = String overlay in
      case ct of
        DISCOVER \<Rightarrow>
          (case map_of (inner (discover cs) r) o' of
             None \<Rightarrow> Inr zero_consumer
           | Some v \<Rightarrow> Inr \<lparr>cOverlay = overlay, cLen = BitVector_Len (dbit v), cB = bv_b (dbit v), cTime = dtime v\<rparr>)
      | SOURCE \<Rightarrow>
          (case map_of (inner (source cs) r) o' of
             None \<Rightarrow> Inr zero_consumer
           | Some v \<Rightarrow> Inr \<lparr>cOverlay = overlay, cLen = BitVector_Len v, cB = bv_b v, cTime = 0\<rparr>)
      | SERVICE \<Rightarrow>
          (case map_of (inner (service cs) r) o' of
             None \<Rightarrow> Inr zero_consumer
           | Some v \<Rightarrow> Inr \<lparr>cOverlay = overlay, cLen = BitVector_Len v, cB = bv_b v, cTime = 0\<rparr>)
      | OtherType \<Rightarrow> Inl TypeError)"

definition StartFinder :: "address \<Rightarrow> 's chunkStore \<Rightarrow> 's chunkStore" where
  "StartFinder rootCid cs = cs\<lparr>finder := insert (String rootCid) (finder cs)\<rparr>"

definition CancelFinder :: "address \<Rightarrow> 's chunkStore \<Rightarrow> 's chunkStore" where
  "CancelFinder rootCid cs = cs\<lparr>finder := finder cs - {String rootCid}\<rparr>"

definition IsFinder :: "address \<Rightarrow> 's chunkStore \<Rightarrow> bool" where
  "IsFinder rootCid cs \<longleftrightarrow> String rootCid \<in> finder cs"

subsection \<open>Reading the tables back\<close>

definition put_init :: "(bitvector \<Rightarrow> 'v) \<Rightarrow> address \<Rightarrow> address \<Rightarrow> bytes \<Rightarrow> int \<Rightarrow> 'v table \<Rightarrow> 'v table" where
  "put_init mk rootCid overlay b l tbl =
     (if has_overlay tbl rootCid overlay then tbl
      else case NewFromBytes b l of
        Inl _ \<Rightarrow> tbl
      | Inr bv \<Rightarrow>
          (let r = String rootCid in tbl(r \<mapsto> AList.update (String overlay) (mk bv) (inner tbl r))))"

definition putInitService :: "address \<Rightarrow> address \<Rightarrow> bytes \<Rightarrow> int \<Rightarrow> 's chunkStore \<Rightarrow> 's chunkStore" where
  "putInitService rootCid overlay b l cs = cs\<lparr>service := put_init id rootCid overlay b l (service cs)\<rparr>"

definition putInitSource :: "address \<Rightarrow> address \<Rightarrow> bytes \<Rightarrow> int \<Rightarrow> 's chunkStore \<Rightarrow> 's chunkStore" where
  "putInitSource rootCid overlay b l cs = cs\<lparr>source := put_init id rootCid overlay b l (source cs)\<rparr>"

definition putInitDiscover :: "int \<Rightarrow> address \<Rightarrow> address \<Rightarrow> bytes \<Rightarrow> int \<Rightarrow> 's chunkStore \<Rightarrow> 's chunkStore" where
  "putInitDiscover now rootCid overlay b l cs =
     cs\<lparr>discover := put_init (\<lambda>bv. \<lparr>dbit = bv, dtime = now\<rparr>) rootCid overlay b l (discover cs)\<rparr>"

text \<open>The callback of the three \<open>Iterate\<close>s; a panic ends with the state \<open>None\<close>.\<close>

definition init_callback ::
  "('s, bitvector) storer \<Rightarrow> string \<Rightarrow> (address \<Rightarrow> address \<Rightarrow> bytes \<Rightarrow> int \<Rightarrow> 's chunkStore \<Rightarrow> 's chunkStore) \<Rightarrow>
   string \<Rightarrow> bitvector \<Rightarrow> 's chunkStore option \<Rightarrow> (bool \<times> cs_error option) \<times> 's chunkStore option" where
  "init_callback ops pre put k v acc =
     (case acc of
        None \<Rightarrow> ((True, None), None)
      | Some cs \<Rightarrow>
          if \<not> prefix pre k then ((True, None), Some cs)
          else case unmarshalKey k of
            None \<Rightarrow> ((True, None), None)
          | Some (Inl e) \<Rightarrow> ((False, Some e), Some cs)
          | Some (Inr (rootCid, overlay)) \<Rightarrow>
              (case st_Get ops (stateStore cs) k of
                 Inl e \<Rightarrow> ((False, Some (StateError e)), Some cs)
               | Inr vb \<Rightarrow> ((False, None), Some (put rootCid overlay (bv_b vb) (bv_len vb) cs))))"

definition init_table where
  "init_table ops pre put cs =
     (case iterate (init_callback ops pre put) (st_entries ops (stateStore cs) pre) (Some cs) of
        (e, None) \<Rightarrow> None
      | (e, Some cs') \<Rightarrow> Some (e, cs'))"

definition initService :: "('s, bitvector) storer \<Rightarrow> 's chunkStore \<Rightarrow> (cs_error option \<times> 's chunkStore) option" where
  "initService ops cs = init_table ops serviceKeyPrefix putInitService cs"

definition initSource :: "('s, bitvector) storer \<Rightarrow> 's chunkStore \<Rightarrow> (cs_error option \<times> 's chunkStore) option" where
  "initSource ops cs = init_table ops sourceKeyPrefix putInitSource cs"

definition initDiscover :: "('s, bitvector) storer \<Rightarrow> int \<Rightarrow> 's chunkStore \<Rightarrow> (cs_error option \<times> 's chunkStore) option" where
  "initDiscover ops now cs = init_table ops discoverKeyPrefix (putInitDiscover now) cs"

definition chunkStore_Init :: "('s, bitvector) storer \<Rightarrow> int \<Rightarrow> 's chunkStore \<Rightarrow> (cs_error option \<times> 's chunkStore) option" where
  "chunkStore_Init ops now cs =
     Option.bind (initService ops cs) (\<lambda>(e1, cs1).
       if e1 \<noteq> None then Some (e1, cs1)
       else Option.bind (initDiscover ops now cs1) (\<lambda>(e2, cs2).
         if e2 \<noteq> None then Some (e2, cs2) else initSource ops cs2))"

section \<open>The tables and the state store\<close>

text \<open>The vector that a table holds for a file and an overlay.\<close>

definition view :: "('v \<Rightarrow> bitvector) \<Rightarrow> 'v table \<Rightarrow> address \<Rightarrow> address \<Rightarrow> bitvector option" where
  "view bits tbl rootCid overlay = map_option bits (map_of (inner tbl (String rootCid)) (String overlay))"

definition vec_ok :: "bitvector \<Rightarrow> bool" where
  "vec_ok bv \<longleftrightarrow> 0 < bv_len bv \<and> bv_len bv \<le> int (length (bv_b bv)) * 8"

text \<open>A table and the entries of the state store under its prefix agree.\<close>

definition synced :: "('v \<Rightarrow> bitvector) \<Rightarrow> string \<Rightarrow> 'v table \<Rightarrow> (string \<rightharpoonup> bitvector) \<Rightarrow> bool" where
  "synced bits pre tbl m \<longleftrightarrow>
     (\<forall>k v. prefix pre k \<longrightarrow> (m k = Some v \<longleftrightarrow> (\<exists>rootCid overlay. k = cs_generateKey pre rootCid overlay \<and> view bits tbl rootCid overlay = Some v))) \<and>
     (\<forall>rootCid overlay v. view bits tbl rootCid overlay = Some v \<longrightarrow> vec_ok v) \<and>
     (\<forall>r v. tbl r = Some v \<longrightarrow> distinct (map fst v) \<and> set (map fst v) \<subseteq> range String)"


lemma dash_not_hex: "CHR ''-'' \<notin> set (hex_encode bs)"
proof (induction bs)
  case (Cons b bs)
  have "unat b < 2 ^ LENGTH(8)" by (rule unsigned_less)
  then have "unat b div 16 < 16" "unat b mod 16 < 16" by auto
  moreover have "CHR ''-'' \<noteq> hex_digit n" if "n < 16" for n
  proof
    assume "CHR ''-'' = hex_digit n"
    then have "from_hex_char (CHR ''-'') = Some n" using from_hex_digit [OF that] by simp
    then show False by (simp add: from_hex_char_def)
  qed
  ultimately have "CHR ''-'' \<noteq> hex_digit (unat b div 16)" "CHR ''-'' \<noteq> hex_digit (unat b mod 16)" by blast+
  then show ?case using Cons by simp
qed simp

lemma split_dash: "c \<notin> set xs \<Longrightarrow> split_at_char c (xs @ c # ys) = xs # split_at_char c ys"
  "c \<notin> set xs \<Longrightarrow> split_at_char c xs = [xs]"
  by (induction xs) auto

lemma split_key:
  assumes "CHR ''-'' \<notin> set pre"
  shows "split_at_char (CHR ''-'') (cs_generateKey pre rootCid overlay) = [pre, String rootCid, String overlay]"
proof -
  have d: "CHR ''-'' \<notin> set (String a)" for a by (simp add: String_def dash_not_hex)
  have "cs_generateKey pre rootCid overlay = pre @ CHR ''-'' # (String rootCid @ CHR ''-'' # String overlay)"
    by (simp add: cs_generateKey_def)
  then show ?thesis by (simp only: split_dash(1) [OF assms] split_dash [OF d])
qed

lemma key_inject:
  assumes "CHR ''-'' \<notin> set pre"
  shows "cs_generateKey pre r a = cs_generateKey pre r' a' \<longleftrightarrow> r = r' \<and> a = a'"
proof
  assume "cs_generateKey pre r a = cs_generateKey pre r' a'"
  from arg_cong [OF this, of "split_at_char (CHR ''-'')"] show "r = r' \<and> a = a'"
    unfolding split_key [OF assms] by simp
qed simp

lemma unmarshal_key: "CHR ''-'' \<notin> set pre \<Longrightarrow> unmarshalKey (cs_generateKey pre r a) = Some (Inr (r, a))"
  by (simp add: unmarshalKey_def split_key Let_def)

lemma view_update:
  "view bits (tbl(String r \<mapsto> AList.update (String a) x (inner tbl (String r)))) r' a' =
     (if r' = r \<and> a' = a then Some (bits x) else view bits tbl r' a')"
  by (simp add: view_def inner_def gomap)

lemma view_delete:
  "distinct (map fst (inner tbl (String r))) \<Longrightarrow>
   view bits (tbl(String r \<mapsto> AList.delete (String a) (inner tbl (String r)))) r' a' =
     (if r' = r \<and> a' = a then None else view bits tbl r' a')"
  by (simp add: view_def inner_def gomap)

lemma view_remove:
  "view bits (tbl(String r := None)) r' a' = (if r' = r then None else view bits tbl r' a')"
  by (simp add: view_def inner_def)

text \<open>What one write to the state store does to the table of its prefix and to the other tables.\<close>

definition keyed :: "'v table \<Rightarrow> bool" where
  "keyed tbl \<longleftrightarrow> (\<forall>r v. tbl r = Some v \<longrightarrow> distinct (map fst v) \<and> set (map fst v) \<subseteq> range String)"

definition entry_of :: "('v \<Rightarrow> bitvector) \<Rightarrow> string \<Rightarrow> 'v table \<Rightarrow> string \<Rightarrow> bitvector \<Rightarrow> bool" where
  "entry_of bits pre tbl k v \<longleftrightarrow> (\<exists>rootCid overlay. k = cs_generateKey pre rootCid overlay \<and> view bits tbl rootCid overlay = Some v)"

lemma synced_iff:
  "synced bits pre tbl m \<longleftrightarrow>
     (\<forall>k v. prefix pre k \<longrightarrow> (m k = Some v \<longleftrightarrow> entry_of bits pre tbl k v)) \<and>
     (\<forall>r a v. view bits tbl r a = Some v \<longrightarrow> vec_ok v) \<and> keyed tbl"
  by (simp add: synced_def keyed_def entry_of_def)

lemma entry_key:
  "CHR ''-'' \<notin> set pre \<Longrightarrow> entry_of bits pre tbl (cs_generateKey pre r a) v \<longleftrightarrow> view bits tbl r a = Some v"
  by (auto simp: entry_of_def key_inject)

lemma entry_cong:
  "CHR ''-'' \<notin> set pre \<Longrightarrow> (\<And>r' a'. \<not> (r' = r \<and> a' = a) \<Longrightarrow> view bits tbl' r' a' = view bits tbl r' a') \<Longrightarrow>
     k \<noteq> cs_generateKey pre r a \<Longrightarrow> entry_of bits pre tbl' k v \<longleftrightarrow> entry_of bits pre tbl k v"
  unfolding entry_of_def by metis

lemma keyed_inner: "keyed tbl \<Longrightarrow> distinct (map fst (inner tbl r)) \<and> set (map fst (inner tbl r)) \<subseteq> range String"
  by (auto simp: keyed_def inner_def split: option.splits)

lemma synced_change:
  assumes s: "synced bits pre tbl m" and pre: "CHR ''-'' \<notin> set pre" and k: "keyed tbl'"
    and other: "\<And>r' a'. \<not> (r' = r \<and> a' = a) \<Longrightarrow> view bits tbl' r' a' = view bits tbl r' a'"
    and ok: "\<And>v. view bits tbl' r a = Some v \<Longrightarrow> vec_ok v"
  shows "synced bits pre tbl' (m(cs_generateKey pre r a := view bits tbl' r a))"
  unfolding synced_iff
proof (intro conjI allI impI)
  fix k v
  assume p: "prefix pre k"
  show "(m(cs_generateKey pre r a := view bits tbl' r a)) k = Some v \<longleftrightarrow> entry_of bits pre tbl' k v"
  proof (cases "k = cs_generateKey pre r a")
    case True
    then show ?thesis by (simp add: entry_key [OF pre])
  next
    case False
    then show ?thesis using s p entry_cong [OF pre other False, of v] by (simp add: synced_iff)
  qed
next
  fix r' a' v
  assume "view bits tbl' r' a' = Some v"
  then show "vec_ok v" using ok [of v] other [of r' a'] s [unfolded synced_iff] by (cases "r' = r \<and> a' = a") auto
qed (rule k)

lemma synced_put:
  assumes "synced bits pre tbl m" "CHR ''-'' \<notin> set pre" "vec_ok (bits x)"
  shows "synced bits pre (tbl(String r \<mapsto> AList.update (String a) x (inner tbl (String r)))) (m(cs_generateKey pre r a \<mapsto> bits x))"
proof -
  have "keyed (tbl(String r \<mapsto> AList.update (String a) x (inner tbl (String r))))"
    using assms(1) keyed_inner [of tbl "String r"] by (auto simp: synced_iff keyed_def gomap dom_update)
  then have "synced bits pre (tbl(String r \<mapsto> AList.update (String a) x (inner tbl (String r)))) (m(cs_generateKey pre r a :=
      view bits (tbl(String r \<mapsto> AList.update (String a) x (inner tbl (String r)))) r a))"
    by (rule synced_change [OF assms(1,2)]) (use assms(3) in \<open>auto simp: view_update\<close>)
  then show ?thesis by (simp add: view_update)
qed

lemma synced_del:
  assumes "synced bits pre tbl m" "CHR ''-'' \<notin> set pre"
  shows "synced bits pre (tbl(String r \<mapsto> AList.delete (String a) (inner tbl (String r)))) (m(cs_generateKey pre r a := None))"
proof -
  have d: "distinct (map fst (inner tbl (String r)))" using assms(1) keyed_inner [of tbl "String r"] by (simp add: synced_iff)
  have "keyed (tbl(String r \<mapsto> AList.delete (String a) (inner tbl (String r))))"
    using assms(1) keyed_inner [of tbl "String r"] distinct_delete [OF d]
      dom_delete_subset [of "String a" "inner tbl (String r)"]
    by (fastforce simp: synced_iff keyed_def)
  then have "synced bits pre (tbl(String r \<mapsto> AList.delete (String a) (inner tbl (String r)))) (m(cs_generateKey pre r a :=
      view bits (tbl(String r \<mapsto> AList.delete (String a) (inner tbl (String r)))) r a))"
    by (rule synced_change [OF assms]) (auto simp: view_delete [OF d])
  then show ?thesis by (simp add: view_delete [OF d])
qed

lemma synced_other:
  assumes "synced bits pre tbl m" "\<not> prefix pre k"
  shows "synced bits pre tbl (m(k := v))"
  using assms by (auto simp: synced_def)


lemma synced_view:
  assumes "synced bits pre tbl m" "keyed tbl'" "\<And>r a. view bits tbl' r a = view bits tbl r a"
  shows "synced bits pre tbl' m"
  using assms by (simp add: synced_iff entry_of_def)

lemma synced_cur: "synced bits pre tbl m \<Longrightarrow> map_of (inner tbl (String r)) (String a) = Some d \<Longrightarrow> vec_ok (bits d)"
  unfolding synced_iff view_def by (metis option.simps(9))

lemma Set_vec_ok: "vec_ok bv \<Longrightarrow> BitVector_Set bv bt = Some bv' \<Longrightarrow> vec_ok bv'"
  by (auto simp: vec_ok_def BitVector_Set_def BitVector_set_def Let_def split: option.splits if_splits)

lemma SetBytes_vec_ok: "vec_ok bv \<Longrightarrow> SetBytes bv bs = Some (Inr bv') \<Longrightarrow> vec_ok bv'"
proof -
  assume a: "vec_ok bv" "SetBytes bv bs = Some (Inr bv')"
  then have l: "length bs \<le> length (bv_b bv)" by (auto simp: SetBytes_def split: if_splits)
  then have "\<forall>i\<in>set [0..<length bs * 8]. i < length (bv_b bv) * 8" by auto
  from set_bits_inside [OF this, of bs True] a l show ?thesis by (auto simp: SetBytes_def vec_ok_def)
qed

lemma NewFromBytes_vec_ok: "NewFromBytes b l = Inr bv \<Longrightarrow> vec_ok bv"
  by (auto simp: NewFromBytes_def vec_ok_def split: if_splits)

lemma New_vec_ok: "BitVector_New l = Some (Inr bv) \<Longrightarrow> vec_ok bv"
  by (auto simp: BitVector_New_def Let_def NewFromBytes_vec_ok split: if_splits)

lemmas vec_ok_intros = Set_vec_ok SetBytes_vec_ok NewFromBytes_vec_ok New_vec_ok

lemma vector_for_vec_ok:
  assumes "vector_for cur bt l = Some (Inr (Some bv))" "\<And>v. cur = Some v \<Longrightarrow> vec_ok v"
  shows "vec_ok bv"
  using assms by (auto simp: vector_for_def split: option.splits sum.splits if_splits bool.splits intro: vec_ok_intros)

lemma merge_discover_vec_ok:
  assumes "merge_discover now cur b l = Some (Inr d)" "\<And>v. cur = Some v \<Longrightarrow> vec_ok (dbit v)"
  shows "vec_ok (dbit d)"
  using assms by (auto simp: merge_discover_def split: option.splits sum.splits if_splits intro: vec_ok_intros)

text \<open>The three prefixes keep the tables apart.\<close>

definition is_prefix :: "string \<Rightarrow> bool" where
  "is_prefix pre \<longleftrightarrow> pre \<in> {serviceKeyPrefix, sourceKeyPrefix, discoverKeyPrefix}"

lemma prefixes:
  "is_prefix serviceKeyPrefix" "is_prefix sourceKeyPrefix" "is_prefix discoverKeyPrefix"
  "serviceKeyPrefix \<noteq> sourceKeyPrefix" "serviceKeyPrefix \<noteq> discoverKeyPrefix" "sourceKeyPrefix \<noteq> discoverKeyPrefix"
  "sourceKeyPrefix \<noteq> serviceKeyPrefix" "discoverKeyPrefix \<noteq> serviceKeyPrefix" "discoverKeyPrefix \<noteq> sourceKeyPrefix"
  by (simp_all add: is_prefix_def serviceKeyPrefix_def sourceKeyPrefix_def discoverKeyPrefix_def)

lemma is_prefix_dash: "is_prefix pre \<Longrightarrow> CHR ''-'' \<notin> set pre"
  by (auto simp: is_prefix_def serviceKeyPrefix_def sourceKeyPrefix_def discoverKeyPrefix_def)

lemma other_prefix: "is_prefix pre \<Longrightarrow> is_prefix pre' \<Longrightarrow> pre' \<noteq> pre \<Longrightarrow> \<not> prefix pre' (cs_generateKey pre r a)"
  by (auto simp: is_prefix_def serviceKeyPrefix_def sourceKeyPrefix_def discoverKeyPrefix_def cs_generateKey_def)

text \<open>All three tables agree with the state store.\<close>

definition tables_synced :: "'s chunkStore \<Rightarrow> (string \<rightharpoonup> bitvector) \<Rightarrow> bool" where
  "tables_synced cs m \<longleftrightarrow>
     synced id serviceKeyPrefix (service cs) m \<and> synced id sourceKeyPrefix (source cs) m \<and>
     synced dbit discoverKeyPrefix (discover cs) m"

lemma put_bit_cases:
  assumes "put_bit ops pre r a bt l tbl st = Some (e, tbl', st')"
  shows "tbl' = tbl \<and> st' = st \<or>
    (\<exists>bv bv' x. vector_for (map_of (inner tbl (String r)) (String a)) bt l = Some (Inr (Some bv)) \<and> BitVector_Set bv bt = Some bv' \<and>
      st_Put ops st (cs_generateKey pre r a) bv' = (x, st') \<and> e = map_option StateError x \<and>
      tbl' = tbl(String r \<mapsto> AList.update (String a) bv' (inner tbl (String r))))"
  using assms by (simp add: put_bit_def Let_def split: option.splits sum.splits prod.splits)

lemma putDiscover_cases:
  assumes "putDiscover ops now r a b l cs = Some (e, cs')"
  shows "cs' = cs \<or>
    (\<exists>d x st'. merge_discover now (map_of (inner (discover cs) (String r)) (String a)) b l = Some (Inr d) \<and>
      st_Put ops (stateStore cs) (cs_generateKey discoverKeyPrefix r a) (dbit d) = (x, st') \<and> e = map_option StateError x \<and>
      cs' = cs\<lparr>discover := (discover cs)(String r \<mapsto> AList.update (String a) d (inner (discover cs) (String r))), stateStore := st'\<rparr>)"
  using assms by (auto simp: putDiscover_def Let_def split: option.splits sum.splits prod.splits)

text \<open>A write under one prefix leaves the entries of the other prefixes.\<close>

definition touches :: "string \<Rightarrow> (string \<rightharpoonup> bitvector) \<Rightarrow> (string \<rightharpoonup> bitvector) \<Rightarrow> bool" where
  "touches pre m m' \<longleftrightarrow> (\<forall>pre' k. is_prefix pre' \<longrightarrow> pre' \<noteq> pre \<longrightarrow> prefix pre' k \<longrightarrow> m' k = m k)"

lemma touches_refl [simp]: "touches pre m m"
  by (simp add: touches_def)

lemma touches_trans: "touches pre m m' \<Longrightarrow> touches pre m' m'' \<Longrightarrow> touches pre m m''"
  by (simp add: touches_def)

lemma touches_key: "is_prefix pre \<Longrightarrow> touches pre m (m(cs_generateKey pre r a := v))"
  using other_prefix by (auto simp: touches_def)

lemma synced_touches: "touches pre m m' \<Longrightarrow> is_prefix pre' \<Longrightarrow> pre' \<noteq> pre \<Longrightarrow> synced bits pre' t m \<Longrightarrow> synced bits pre' t m'"
  by (simp add: touches_def synced_iff)

locale chunk_state = state_storer ops inv abs
  for ops :: "('s, bitvector) storer" and inv :: "'s \<Rightarrow> bool" and abs :: "'s \<Rightarrow> string \<rightharpoonup> bitvector" +
  assumes Put_total: "inv s \<Longrightarrow> fst (st_Put ops s k v) = None"
    and Delete_total: "inv s \<Longrightarrow> fst (st_Delete ops s k) = None"
    and Get_total: "inv s \<Longrightarrow> st_Get ops s k \<noteq> Inl ErrStore"
begin

definition cs_inv :: "'s chunkStore \<Rightarrow> bool" where
  "cs_inv cs \<longleftrightarrow> inv (stateStore cs) \<and> tables_synced cs (abs (stateStore cs))"

lemma put_bit_synced:
  assumes "put_bit ops pre r a bt l tbl st = Some (e, tbl', st')" "inv st" "synced id pre tbl (abs st)"
    and "is_prefix pre"
  shows "inv st' \<and> synced id pre tbl' (abs st') \<and> touches pre (abs st) (abs st')"
proof -
  have cur: "map_of (inner tbl (String r)) (String a) = Some v \<Longrightarrow> vec_ok v" for v
    using synced_cur [OF assms(3), of r a v] by simp
  consider "tbl' = tbl" "st' = st" | bv where "vec_ok bv" "tbl' = tbl(String r \<mapsto> AList.update (String a) bv (inner tbl (String r)))"
      "st_Put ops st (cs_generateKey pre r a) bv = (None, st')"
    using put_bit_cases [OF assms(1)] Put_total [OF assms(2)]
      vector_for_vec_ok [of "map_of (inner tbl (String r)) (String a)" bt l, OF _ cur] Set_vec_ok
    by (metis fst_conv)
  then show ?thesis
  proof cases
    case 1
    then show ?thesis using assms(2,3) by simp
  next
    case (2 bv)
    then show ?thesis
      using Put [OF assms(2) 2(3)] synced_put [OF assms(3) is_prefix_dash [OF assms(4)], of bv r a] touches_key [OF assms(4)]
      by simp
  qed
qed

text \<open>What the operations on one table do, for each of the three tables.\<close>

lemma cs_inv_service:
  assumes "cs_inv cs" "inv st'" "synced id serviceKeyPrefix t (abs st')" "touches serviceKeyPrefix (abs (stateStore cs)) (abs st')"
  shows "cs_inv (cs\<lparr>service := t, stateStore := st'\<rparr>)"
  using assms synced_touches [OF assms(4), of sourceKeyPrefix id "source cs"] synced_touches [OF assms(4), of discoverKeyPrefix dbit "discover cs"]
  by (simp add: cs_inv_def tables_synced_def prefixes)

lemma cs_inv_source:
  assumes "cs_inv cs" "inv st'" "synced id sourceKeyPrefix t (abs st')" "touches sourceKeyPrefix (abs (stateStore cs)) (abs st')"
  shows "cs_inv (cs\<lparr>source := t, stateStore := st'\<rparr>)"
  using assms synced_touches [OF assms(4), of serviceKeyPrefix id "service cs"] synced_touches [OF assms(4), of discoverKeyPrefix dbit "discover cs"]
  by (simp add: cs_inv_def tables_synced_def prefixes)

lemma cs_inv_discover:
  assumes "cs_inv cs" "inv st'" "synced dbit discoverKeyPrefix t (abs st')" "touches discoverKeyPrefix (abs (stateStore cs)) (abs st')"
  shows "cs_inv (cs\<lparr>discover := t, stateStore := st'\<rparr>)"
  using assms synced_touches [OF assms(4), of serviceKeyPrefix id "service cs"] synced_touches [OF assms(4), of sourceKeyPrefix id "source cs"]
  by (simp add: cs_inv_def tables_synced_def prefixes)

lemma putDiscover_synced:
  assumes "putDiscover ops now r a b l cs = Some (e, cs')" "cs_inv cs"
  shows "cs_inv cs'"
proof -
  let ?v = "inner (discover cs) (String r)"
  have "is_prefix discoverKeyPrefix" by (simp add: is_prefix_def)
  note pre = this is_prefix_dash [OF this]
  have s: "synced dbit discoverKeyPrefix (discover cs) (abs (stateStore cs))" "inv (stateStore cs)"
    using assms(2) by (simp_all add: cs_inv_def tables_synced_def)
  have cur: "map_of ?v (String a) = Some d \<Longrightarrow> vec_ok (dbit d)" for d
    by (rule synced_cur [OF s(1)])
  consider "cs' = cs" | d st' where "vec_ok (dbit d)" "st_Put ops (stateStore cs) (cs_generateKey discoverKeyPrefix r a) (dbit d) = (None, st')"
      "cs' = cs\<lparr>discover := (discover cs)(String r \<mapsto> AList.update (String a) d ?v), stateStore := st'\<rparr>"
    using putDiscover_cases [OF assms(1)] Put_total [OF s(2)] merge_discover_vec_ok [of now "map_of ?v (String a)" b l, OF _ cur]
    by (metis fst_conv)
  then show ?thesis
  proof cases
    case (2 d st')
    show ?thesis unfolding 2(3)
      by (rule cs_inv_discover [OF assms(2)])
        (use Put [OF s(2) 2(2)] synced_put [OF s(1) pre(2) 2(1), of r a] touches_key [OF pre(1)] in simp_all)
  qed (use assms(2) in simp)
qed

lemma remove_overlay_synced:
  assumes "remove_overlay ops pre r a tbl st = (e, tbl', st')" "inv st" "synced bits pre tbl (abs st)" "is_prefix pre"
  shows "inv st' \<and> synced bits pre tbl' (abs st') \<and> touches pre (abs st) (abs st')"
proof -
  consider "tbl' = tbl" "st' = st" | "tbl' = tbl(String r \<mapsto> AList.delete (String a) (inner tbl (String r)))"
      "st_Delete ops st (cs_generateKey pre r a) = (None, st')"
    using assms(1) Delete_total [OF assms(2), of "cs_generateKey pre r a"]
    by (auto simp: remove_overlay_def Let_def split: option.splits prod.splits)
  then show ?thesis
  proof cases
    case 2
    then show ?thesis
      using Delete [OF assms(2) 2(2)] synced_del [OF assms(3) is_prefix_dash [OF assms(4)], of r a] touches_key [OF assms(4)] by simp
  qed (use assms(2,3) in simp)
qed

lemma remove_keys_synced:
  assumes "is_prefix pre"
  shows "remove_keys ops pre r ks st = Some (None, st') \<Longrightarrow> inv st \<Longrightarrow> synced bits pre tbl (abs st) \<Longrightarrow> set ks \<subseteq> range String \<Longrightarrow>
    inv st' \<and> synced bits pre (tbl(String r \<mapsto> fold AList.delete ks (inner tbl (String r)))) (abs st') \<and> touches pre (abs st) (abs st')"
proof (induction ks arbitrary: st tbl)
  case Nil
  have "keyed (tbl(String r \<mapsto> inner tbl (String r)))"
    using Nil(3) keyed_inner [of tbl "String r"] by (auto simp: synced_iff keyed_def)
  then have "synced bits pre (tbl(String r \<mapsto> inner tbl (String r))) (abs st)"
    by (rule synced_view [OF Nil(3)]) (simp add: view_def inner_def)
  then show ?case using Nil by (simp del: fun_upd_apply)
next
  case (Cons k ks)
  obtain a where a: "k = String a" using Cons.prems(4) by auto
  let ?t = "tbl(String r \<mapsto> AList.delete k (inner tbl (String r)))"
  obtain st1 where st1: "st_Delete ops st (cs_generateKey pre r a) = (None, st1)" "remove_keys ops pre r ks st1 = Some (None, st')"
    using Cons.prems(1) a by (auto split: prod.splits option.splits)
  note d = Delete [OF Cons.prems(2) st1(1)]
  have "synced bits pre ?t (abs st1)" using synced_del [OF Cons.prems(3) is_prefix_dash [OF assms], of r a] d a by simp
  note ih = Cons.IH [OF st1(2) _ this]
  have t: "touches pre (abs st) (abs st1)" using d touches_key [OF assms, of "abs st" r a None] by simp
  have "inner ?t (String r) = AList.delete k (inner tbl (String r))" by (simp add: inner_def)
  then have e: "?t(String r \<mapsto> fold AList.delete ks (inner ?t (String r))) = tbl(String r \<mapsto> fold AList.delete (k # ks) (inner tbl (String r)))"
    by (simp only: fun_upd_upd fold_simps)
  have "set ks \<subseteq> range String" using Cons.prems(4) by simp
  from ih [OF conjunct1 [OF d] this] show ?case using touches_trans [OF t] unfolding e by blast
qed

lemma remove_keys_total: "remove_keys ops pre r ks st = Some (e, st') \<Longrightarrow> inv st \<Longrightarrow> e = None"
proof (induction ks arbitrary: st)
  case (Cons k ks)
  obtain a st1 where "MustParseHexAddress k = Some a" "st_Delete ops st (cs_generateKey pre r a) = (None, st1)"
      "remove_keys ops pre r ks st1 = Some (e, st')"
    using Cons.prems Delete_total [OF Cons.prems(2)] by (auto split: option.splits prod.splits) (metis fst_conv option.distinct(1))
  then show ?case using Cons.IH Delete [OF Cons.prems(2)] by blast
qed simp

lemma delete_all: "fold AList.delete (map fst xs) xs = []"
proof -
  have "map fst (fold AList.delete ks xs) = filter (\<lambda>x. x \<notin> set ks) (map fst xs)" for ks and xs :: "('k \<times> 'w) list"
    by (induction ks arbitrary: xs) (auto simp: delete_keys removeAll_filter_not_eq intro!: filter_cong)
  from this [of "map fst xs" xs] show ?thesis by (simp add: filter_empty_conv)
qed

lemma remove_file_synced:
  assumes "remove_file ops pre r tbl st = Some (e, tbl', st')" "inv st" "synced bits pre tbl (abs st)" "is_prefix pre"
  shows "inv st' \<and> synced bits pre tbl' (abs st') \<and> touches pre (abs st) (abs st')"
proof (cases "tbl (String r)")
  case None
  then show ?thesis using assms by (simp add: remove_file_def)
next
  case (Some v)
  then obtain x where x: "remove_keys ops pre r (map fst v) st = Some (x, st')" "e = x" "tbl' = (if x = None then tbl(String r := None) else tbl)"
    using assms(1) by (auto simp: remove_file_def)
  have "x = None" by (rule remove_keys_total [OF x(1) assms(2)])
  then have r: "remove_keys ops pre r (map fst v) st = Some (None, st')" "tbl' = tbl(String r := None)" using x by simp_all
  have v: "inner tbl (String r) = v" "set (map fst v) \<subseteq> range String" using Some assms(3) by (auto simp: inner_def synced_iff keyed_def)
  note k = remove_keys_synced [OF assms(4) r(1) assms(2,3) v(2)]
  have "keyed (tbl(String r := None))" using assms(3) by (auto simp: synced_iff keyed_def)
  moreover have "view bits (tbl(String r := None)) r' a' = view bits (tbl(String r \<mapsto> fold AList.delete (map fst v) (inner tbl (String r)))) r' a'" for r' a'
    by (simp add: view_def inner_def v(1) [unfolded inner_def] delete_all)
  ultimately show ?thesis using k synced_view r(2) by blast
qed

lemma putChunkService_inv:
  assumes "putChunkService ops r a bt l cs = Some (e, cs')" "cs_inv cs"
  shows "cs_inv cs'"
proof -
  obtain t st where p: "put_bit ops serviceKeyPrefix r a bt l (service cs) (stateStore cs) = Some (e, t, st)"
      "cs' = cs\<lparr>service := t, stateStore := st\<rparr>"
    using assms(1) by (auto simp: putChunkService_def)
  show ?thesis unfolding p(2)
    by (rule cs_inv_service [OF assms(2)]) (use put_bit_synced [OF p(1)] assms(2) prefixes in \<open>auto simp: cs_inv_def tables_synced_def\<close>)
qed

lemma putChunkSource_inv:
  assumes "putChunkSource ops r a bt l cs = Some (e, cs')" "cs_inv cs"
  shows "cs_inv cs'"
proof -
  obtain t st where p: "put_bit ops sourceKeyPrefix r a bt l (source cs) (stateStore cs) = Some (e, t, st)"
      "cs' = cs\<lparr>source := t, stateStore := st\<rparr>"
    using assms(1) by (auto simp: putChunkSource_def)
  show ?thesis unfolding p(2)
    by (rule cs_inv_source [OF assms(2)]) (use put_bit_synced [OF p(1)] assms(2) prefixes in \<open>auto simp: cs_inv_def tables_synced_def\<close>)
qed

lemma put_providers_inv:
  assumes "\<And>p cs e cs'. f p cs = Some (e, cs') \<Longrightarrow> cs_inv cs \<Longrightarrow> cs_inv cs'"
  shows "put_providers f ps err cs = Some (e, cs') \<Longrightarrow> cs_inv cs \<Longrightarrow> cs_inv cs'"
  by (induction ps arbitrary: err cs) (auto simp: bind_eq_Some_conv dest: assms)

lemma Put_inv: "chunkStore_Put ops now ct r ps cs = Some (e, cs') \<Longrightarrow> cs_inv cs \<Longrightarrow> cs_inv cs'"
  by (cases ct) (auto simp: chunkStore_Put_def
    elim: put_providers_inv [rotated 1] intro: putDiscover_synced putChunkService_inv putChunkSource_inv)

lemma RemoveAll_inv: "chunkStore_RemoveAll ops ct r cs = Some (e, cs') \<Longrightarrow> cs_inv cs \<Longrightarrow> cs_inv cs'"
  by (cases ct) (auto simp: chunkStore_RemoveAll_def removeDiscover_def removeSource_def removeService_def prefixes
    cs_inv_def [of cs] tables_synced_def dest!: remove_file_synced
    intro!: cs_inv_service cs_inv_source cs_inv_discover)

lemma Remove_inv: "chunkStore_Remove ops ct r a cs = (e, cs') \<Longrightarrow> cs_inv cs \<Longrightarrow> cs_inv cs'"
  by (cases ct) (auto simp: chunkStore_Remove_def removeDiscoverByOverlay_def removeSourceByOverlay_def removeServiceByOverlay_def
    prefixes cs_inv_def [of cs] tables_synced_def split: prod.splits dest!: remove_overlay_synced
    intro!: cs_inv_service cs_inv_source cs_inv_discover)

text \<open>
  One table is read back: \<open>upd\<close> replaces the table of the chunk store, and \<open>mk\<close> makes its entry
  from the vector.
\<close>

lemma iterate_init:
  assumes upd: "\<And>r a b l t. put r a b l (upd t cs) = upd (put_init mk r a b l t) cs" "\<And>t. stateStore (upd t cs) = stateStore cs"
    and mk: "\<And>bv. bits (mk bv) = bv" and pre: "is_prefix pre" and inv: "inv (stateStore cs)"
  shows "distinct (map fst es) \<Longrightarrow>
    (\<And>k v. (k, v) \<in> set es \<Longrightarrow> abs (stateStore cs) k = Some v \<and> prefix pre k \<and> vec_ok v \<and>
       (\<exists>r a. k = cs_generateKey pre r a \<and> view bits t r a = None)) \<Longrightarrow>
    \<exists>t'. iterate (init_callback ops pre put) es (Some (upd t cs)) = (None, Some (upd t' cs)) \<and>
      (\<forall>r a. view bits t' r a = (case map_of es (cs_generateKey pre r a) of None \<Rightarrow> view bits t r a | Some v \<Rightarrow> Some v))"
proof (induction es arbitrary: t)
  case (Cons e es)
  obtain k v where e: "e = (k, v)" by (cases e)
  note dash = is_prefix_dash [OF pre]
  obtain r a where k: "k = cs_generateKey pre r a" "view bits t r a = None" "abs (stateStore cs) k = Some v" "prefix pre k" "vec_ok v"
    using Cons.prems(2) [of k v] e by auto
  have "st_Get ops (stateStore cs) k = Inr v" using Get [OF inv Get_total [OF inv]] k(3) by simp
  moreover have "\<not> has_overlay t r a" using k(2) by (simp add: has_overlay_def view_def)
  moreover have "NewFromBytes (bv_b v) (bv_len v) = Inr v" using k(5) by (auto simp: NewFromBytes_def vec_ok_def)
  ultimately have step: "init_callback ops pre put k v (Some (upd t cs)) =
      ((False, None), Some (upd (t(String r \<mapsto> AList.update (String a) (mk v) (inner t (String r)))) cs))"
    using k(4) by (simp add: init_callback_def k(1) unmarshal_key [OF dash] upd put_init_def Let_def)
  let ?t = "t(String r \<mapsto> AList.update (String a) (mk v) (inner t (String r)))"
  have rest: "abs (stateStore cs) k' = Some v' \<and> prefix pre k' \<and> vec_ok v' \<and>
      (\<exists>r a. k' = cs_generateKey pre r a \<and> view bits ?t r a = None)" if m: "(k', v') \<in> set es" for k' v'
  proof -
    have "k' \<noteq> k" using Cons.prems(1) m e by force
    then show ?thesis using Cons.prems(2) [of k' v'] m k(1) by (auto simp: view_update)
  qed
  have "distinct (map fst es)" using Cons.prems(1) by simp
  then obtain t' where "iterate (init_callback ops pre put) es (Some (upd ?t cs)) = (None, Some (upd t' cs))"
      "\<And>r a. view bits t' r a = (case map_of es (cs_generateKey pre r a) of None \<Rightarrow> view bits ?t r a | Some v \<Rightarrow> Some v)"
    using Cons.IH [OF _ rest] by blast
  moreover have "map_of es k = None" using Cons.prems(1) e by (simp add: map_of_eq_None_iff)
  ultimately show ?case using step k(1) by (auto simp: e mk view_update key_inject [OF dash] split: option.splits)
qed auto

lemma init_table_ok:
  assumes upd: "\<And>r a b l t. put r a b l (upd t cs) = upd (put_init mk r a b l t) cs" "\<And>t. stateStore (upd t cs) = stateStore cs"
    and mk: "\<And>bv. bits (mk bv) = bv" and pre: "is_prefix pre" and inv: "inv (stateStore cs)" and cs: "upd Map.empty cs = cs"
    and s: "synced bits' pre tbl (abs (stateStore cs))"
  shows "\<exists>t'. init_table ops pre put cs = Some (None, upd t' cs) \<and> (\<forall>r a. view bits t' r a = view bits' tbl r a)"
proof -
  let ?es = "st_entries ops (stateStore cs) pre"
  note es = entries [OF inv, of pre]
  have e: "view bits Map.empty r a = None" for r a by (simp add: view_def inner_def)
  have "abs (stateStore cs) k = Some v \<and> prefix pre k \<and> vec_ok v \<and> (\<exists>r a. k = cs_generateKey pre r a \<and> view bits Map.empty r a = None)"
    if kv: "(k, v) \<in> set ?es" for k v
  proof -
    have m: "abs (stateStore cs) k = Some v" "prefix pre k" using es kv by auto
    then obtain r a where "k = cs_generateKey pre r a" "view bits' tbl r a = Some v" using s by (auto simp: synced_iff entry_of_def)
    then show ?thesis using m s e by (auto simp: synced_iff)
  qed
  then obtain t' where t': "iterate (init_callback ops pre put) ?es (Some (upd Map.empty cs)) = (None, Some (upd t' cs))"
      "\<And>r a. view bits t' r a = (case map_of ?es (cs_generateKey pre r a) of None \<Rightarrow> view bits Map.empty r a | Some v \<Rightarrow> Some v)"
    using iterate_init [where put = put and upd = upd and cs = cs and mk = mk and bits = bits, OF upd mk pre inv conjunct1 [OF es]] by blast
  have "map_of ?es (cs_generateKey pre r a) = view bits' tbl r a" for r a
  proof -
    have p: "prefix pre (cs_generateKey pre r a)" by (simp add: cs_generateKey_def)
    have "map_of ?es (cs_generateKey pre r a) = Some v \<longleftrightarrow> view bits' tbl r a = Some v" for v
      using es s p entry_key [OF is_prefix_dash [OF pre], of bits' tbl r a v] by (simp add: synced_iff)
    then show ?thesis by (metis not_None_eq)
  qed
  then have "view bits t' r a = view bits' tbl r a" for r a using t'(2) e by (simp split: option.splits)
  then show ?thesis using t'(1) cs by (auto simp: init_table_def)
qed

lemma Init_ok:
  assumes "cs_inv cs"
  shows "\<exists>cs'. chunkStore_Init ops now (chunkStore_New (stateStore cs)) = Some (None, cs') \<and>
    (\<forall>r a. view id (service cs') r a = view id (service cs) r a \<and> view id (source cs') r a = view id (source cs) r a \<and>
      view dbit (discover cs') r a = view dbit (discover cs) r a)"
proof -
  let ?n = "chunkStore_New (stateStore cs)"
  have s: "synced id serviceKeyPrefix (service cs) (abs (stateStore cs))" "synced id sourceKeyPrefix (source cs) (abs (stateStore cs))"
     "synced dbit discoverKeyPrefix (discover cs) (abs (stateStore cs))" "inv (stateStore cs)"
    using assms by (simp_all add: cs_inv_def tables_synced_def)
  obtain t1 where t1: "initService ops ?n = Some (None, ?n\<lparr>service := t1\<rparr>)" "\<And>r a. view id t1 r a = view id (service cs) r a"
    using init_table_ok [of putInitService "\<lambda>t cs. cs\<lparr>service := t\<rparr>" ?n id id serviceKeyPrefix id "service cs"] s prefixes
    by (auto simp: putInitService_def chunkStore_New_def initService_def)
  let ?n1 = "?n\<lparr>service := t1\<rparr>"
  obtain t2 where t2: "initDiscover ops now ?n1 = Some (None, ?n1\<lparr>discover := t2\<rparr>)" "\<And>r a. view dbit t2 r a = view dbit (discover cs) r a"
    using init_table_ok [of "putInitDiscover now" "\<lambda>t cs. cs\<lparr>discover := t\<rparr>" ?n1 "\<lambda>bv. \<lparr>dbit = bv, dtime = now\<rparr>" dbit discoverKeyPrefix dbit "discover cs"]
      s prefixes
    by (auto simp: putInitDiscover_def chunkStore_New_def initDiscover_def)
  let ?n2 = "?n1\<lparr>discover := t2\<rparr>"
  obtain t3 where t3: "initSource ops ?n2 = Some (None, ?n2\<lparr>source := t3\<rparr>)" "\<And>r a. view id t3 r a = view id (source cs) r a"
    using init_table_ok [of putInitSource "\<lambda>t cs. cs\<lparr>source := t\<rparr>" ?n2 id id sourceKeyPrefix id "source cs"] s prefixes
    by (auto simp: putInitSource_def chunkStore_New_def initSource_def)
  show ?thesis using t1 t2 t3 by (auto simp: chunkStore_Init_def)
qed

end


interpretation mcs: chunk_state mock_store mock_inv map_of
  by unfold_locales (auto simp: mock_store_def mock_Put_def mock_Delete_def mock_Get_def split: option.splits)

section \<open>Properties\<close>

datatype cs_op =
    OpPut int ChunkType address "provider list"
  | OpRemove ChunkType address address
  | OpRemoveAll ChunkType address

fun cs_step :: "('s, bitvector) storer \<Rightarrow> cs_op \<Rightarrow> 's chunkStore \<Rightarrow> 's chunkStore option" where
  "cs_step ops (OpPut now ct r ps) cs = map_option snd (chunkStore_Put ops now ct r ps cs)"
| "cs_step ops (OpRemove ct r a) cs = Some (snd (chunkStore_Remove ops ct r a cs))"
| "cs_step ops (OpRemoveAll ct r) cs = map_option snd (chunkStore_RemoveAll ops ct r cs)"

fun cs_run :: "('s, bitvector) storer \<Rightarrow> cs_op list \<Rightarrow> 's chunkStore \<Rightarrow> 's chunkStore option" where
  "cs_run ops [] cs = Some cs"
| "cs_run ops (x # xs) cs = Option.bind (cs_step ops x cs) (cs_run ops xs)"

lemma cs_run_inv: "cs_run mock_store xs cs = Some cs' \<Longrightarrow> mcs.cs_inv cs \<Longrightarrow> mcs.cs_inv cs'"
proof (induction xs arbitrary: cs)
  case (Cons x xs)
  then obtain cs1 where "cs_step mock_store x cs = Some cs1" "cs_run mock_store xs cs1 = Some cs'"
    by (auto simp: bind_eq_Some_conv)
  then show ?case using Cons mcs.Put_inv mcs.RemoveAll_inv mcs.Remove_inv
    by (cases x) (auto, (metis prod.collapse)+)
qed simp

lemma new_store_empty: "is_prefix pre \<Longrightarrow> prefix pre k \<Longrightarrow> map_of (NewStateStore schema) k = None"
  by (auto simp: NewStateStore_def mock_Put_def mockSchemaNameKey_def is_prefix_def serviceKeyPrefix_def sourceKeyPrefix_def
    discoverKeyPrefix_def)

lemma synced_empty: "is_prefix pre \<Longrightarrow> synced bits pre Map.empty (map_of (NewStateStore schema))"
  using new_store_empty by (auto simp: synced_iff keyed_def entry_of_def view_def inner_def)

lemma New_inv: "mcs.cs_inv (chunkStore_New (NewStateStore schema))"
  by (simp add: mcs.cs_inv_def tables_synced_def chunkStore_New_def prefixes synced_empty NewStateStore_def mock_Put_def mock_inv_def
    synced_empty [unfolded NewStateStore_def mock_Put_def, simplified])

text \<open>What \<open>GetByOverlay\<close> answers, from the views of the tables.\<close>

definition consumer_of :: "address \<Rightarrow> bitvector option \<Rightarrow> consumer" where
  "consumer_of a v = (case v of None \<Rightarrow> zero_consumer | Some bv \<Rightarrow> \<lparr>cOverlay = a, cLen = BitVector_Len bv, cB = bv_b bv, cTime = 0\<rparr>)"

lemma GetByOverlay_view:
  "chunkStore_GetByOverlay SERVICE r a cs = Inr (consumer_of a (view id (service cs) r a))"
  "chunkStore_GetByOverlay SOURCE r a cs = Inr (consumer_of a (view id (source cs) r a))"
  "map_sum id (\<lambda>c. c\<lparr>cTime := 0\<rparr>) (chunkStore_GetByOverlay DISCOVER r a cs) = Inr (consumer_of a (view dbit (discover cs) r a))"
  by (simp_all add: chunkStore_GetByOverlay_def Let_def consumer_of_def view_def zero_consumer_def split: option.splits)

text \<open>
  C8. A restart loses nothing: after any sequence of puts and removals on a new chunk store, a new
  chunk store on the same state store reads back, without an error, the same bit vector for every
  file and overlay in each of the three tables.
\<close>

theorem chunkStore_restart:
  assumes "cs_run mock_store xs (chunkStore_New (NewStateStore schema)) = Some cs"
  shows "\<exists>cs'. chunkStore_Init mock_store now (chunkStore_New (stateStore cs)) = Some (None, cs') \<and>
    (\<forall>r a. chunkStore_GetByOverlay SERVICE r a cs' = chunkStore_GetByOverlay SERVICE r a cs \<and>
      chunkStore_GetByOverlay SOURCE r a cs' = chunkStore_GetByOverlay SOURCE r a cs \<and>
      map_sum id (\<lambda>c. c\<lparr>cTime := 0\<rparr>) (chunkStore_GetByOverlay DISCOVER r a cs') =
        map_sum id (\<lambda>c. c\<lparr>cTime := 0\<rparr>) (chunkStore_GetByOverlay DISCOVER r a cs))"
  using mcs.Init_ok [OF cs_run_inv [OF assms New_inv], of now] unfolding GetByOverlay_view by metis


definition sample_ops :: "cs_op list" where
  "sample_ops =
     [OpPut 5 SERVICE (Address [1]) [\<lparr>Overlay = Address [2], Bit = 3, Len = 10, B = []\<rparr>],
      OpPut 6 DISCOVER (Address [1]) [\<lparr>Overlay = Address [3], Bit = 0, Len = 4, B = [9]\<rparr>],
      OpPut 7 SOURCE (Address [1]) [\<lparr>Overlay = Address [4], Bit = 1, Len = 9, B = []\<rparr>],
      OpRemove SOURCE (Address [1]) (Address [4])]"

lemma chunkStore_restart_witness:
  "\<exists>cs'. chunkStore_Init mock_store 8
       (chunkStore_New (stateStore (the (cs_run mock_store sample_ops (chunkStore_New (NewStateStore \<lparr>bv_len = 0, bv_b = []\<rparr>)))))) = Some (None, cs') \<and>
     chunkStore_GetByOverlay SERVICE (Address [1]) (Address [2]) cs' =
       chunkStore_GetByOverlay SERVICE (Address [1]) (Address [2])
         (the (cs_run mock_store sample_ops (chunkStore_New (NewStateStore \<lparr>bv_len = 0, bv_b = []\<rparr>))))"
proof -
  have "\<not> Option.is_none (cs_run mock_store sample_ops (chunkStore_New (NewStateStore \<lparr>bv_len = 0, bv_b = []\<rparr>)))" by code_simp
  then have "cs_run mock_store sample_ops (chunkStore_New (NewStateStore \<lparr>bv_len = 0, bv_b = []\<rparr>)) =
      Some (the (cs_run mock_store sample_ops (chunkStore_New (NewStateStore \<lparr>bv_len = 0, bv_b = []\<rparr>))))"
    by (simp add: Option.is_none_def)
  from chunkStore_restart [OF this, of 8] show ?thesis by blast
qed

definition service_wf :: "'s chunkStore \<Rightarrow> bool" where
  "service_wf cs \<longleftrightarrow> (\<forall>r. list_all (\<lambda>(k, v). bv_wf v) (inner (service cs) r))"

lemma wf_inside: "bv_wf bv \<Longrightarrow> 0 \<le> bt \<Longrightarrow> bt < bv_len bv \<Longrightarrow> nat bt < length (bv_b bv) * 8"
  by (auto simp: bv_wf_def)

lemma has_bit_wf:
  "list_all bv_wf vs \<Longrightarrow> 0 \<le> bt \<Longrightarrow> has_bit vs bt = Some (\<exists>v\<in>set vs. bt < bv_len v \<and> bv_bit v (nat bt))"
proof (induction vs)
  case (Cons v vs)
  then have "bt < bv_len v \<Longrightarrow> BitVector_Get v bt = Some (bv_bit v (nat bt))"
    using Get_inside [of "nat bt" v] wf_inside [of v bt] by simp
  then show ?case using Cons by (auto simp: BitVector_Len_def split: bool.splits)
qed simp

text \<open>The vector of a put has the bits of the old one and room for the new one.\<close>

lemma vector_for_wf:
  assumes "\<And>v. cur = Some v \<Longrightarrow> bv_wf v" "0 \<le> bt" "bt < l"
  obtains "vector_for cur bt l = Some (Inr None)" "\<exists>v. cur = Some v \<and> bt < bv_len v \<and> bv_bit v (nat bt)"
  | bv where "vector_for cur bt l = Some (Inr (Some bv))" "bv_wf bv" "bt < bv_len bv"
      "\<And>v i. cur = Some v \<Longrightarrow> bv_len v \<le> bv_len bv \<and> (i < length (bv_b v) * 8 \<longrightarrow> bv_bit v i \<longrightarrow> bv_bit bv i)"
proof (cases cur)
  case None
  moreover obtain bv where "BitVector_New l = Some (Inr bv)" "bv_wf bv" "bv_len bv = l"
    using BitVector_New_wf [of l] assms(2,3) by auto
  ultimately show thesis using that(2) [of bv] assms(3) by (simp add: vector_for_def)
next
  case (Some v)
  have v: "bv_wf v" using assms(1) Some by simp
  show thesis
  proof (cases "bv_len v < l")
    case True
    obtain nb where nb: "BitVector_New l = Some (Inr nb)" "bv_wf nb" "bv_len nb = l"
      using BitVector_New_wf [of l] assms(2,3) by auto
    have "(bv_len v + 7) div 8 \<le> (l + 7) div 8" using True by (intro zdiv_mono1) simp_all
    then have len: "length (bv_b v) \<le> length (bv_b nb)" using v nb by (simp add: bv_wf_def)
    then have "\<forall>i\<in>set [0..<length (bv_b v) * 8]. i < length (bv_b nb) * 8" by auto
    from set_bits_inside [OF this, of "bv_b v" True] obtain s where
      "SetBytes nb (bv_b v) = Some (Inr s)" "bv_len s = l" "length (bv_b s) = length (bv_b nb)"
      "\<And>i. bv_bit s i = (if i < length (bv_b v) * 8 \<and> bv_bit v i then True else bv_bit nb i)"
      using len nb(3) by (auto simp: SetBytes_def bv_bit_def [of v])
    then show thesis using that(2) [of s] True nb assms(3) Some
      by (auto simp: vector_for_def BitVector_Len_def bv_wf_def)
  next
    case False
    then have "BitVector_Get v bt = Some (bv_bit v (nat bt))"
      using Get_inside [of "nat bt" v] wf_inside [OF v assms(2)] assms(2,3) by simp
    then show thesis using that(1) that(2) [of v] False v assms(3) Some
      by (cases "bv_bit v (nat bt)") (auto simp: vector_for_def BitVector_Len_def)
  qed
qed

lemma set_update:
  "(k', v) \<in> set al \<Longrightarrow> (k', v) \<in> set (AList.update k x al) \<or> k' = k \<and> map_of al k = Some v"
  "(k, x) \<in> set (AList.update k x al)"
  "(k', v) \<in> set (AList.update k x al) \<Longrightarrow> (k', v) \<in> set al \<or> v = x"
  by (induction al) (auto split: if_splits)

lemma HasChunk_service:
  assumes "service_wf cs" "0 \<le> i"
  shows "chunkStore_HasChunk SERVICE r i cs = Some (Inr True) \<longleftrightarrow>
    (\<exists>k v. (k, v) \<in> set (inner (service cs) (String r)) \<and> i < bv_len v \<and> bv_bit v (nat i))"
proof -
  have "list_all bv_wf (map snd (inner (service cs) (String r)))"
    using assms(1) by (fastforce simp: service_wf_def list_all_iff)
  from has_bit_wf [OF this assms(2)] show ?thesis by (force simp: chunkStore_HasChunk_def Let_def)
qed

text \<open>
  C38. Serving a chunk is recorded and never forgotten: for a bit inside the file's length, \<open>Put\<close> on
  the service table succeeds, afterwards \<open>HasChunk\<close> answers true for the bit, and true for
  every bit of every file that it answered true for before.
\<close>

theorem chunkStore_Put_remembers:
  assumes "service_wf cs" "0 \<le> bt" "bt < l"
  shows "\<exists>cs'. chunkStore_Put mock_store now SERVICE r [\<lparr>Overlay = a, Bit = bt, Len = l, B = b\<rparr>] cs = Some (None, cs') \<and> service_wf cs' \<and>
    chunkStore_HasChunk SERVICE r bt cs' = Some (Inr True) \<and>
    (\<forall>r' i. 0 \<le> i \<longrightarrow> chunkStore_HasChunk SERVICE r' i cs = Some (Inr True) \<longrightarrow> chunkStore_HasChunk SERVICE r' i cs' = Some (Inr True))"
proof -
  let ?al = "inner (service cs) (String r)"
  have put: "chunkStore_Put mock_store now SERVICE r [\<lparr>Overlay = a, Bit = bt, Len = l, B = b\<rparr>] cs = putChunkService mock_store r a bt l cs"
    by (cases "putChunkService mock_store r a bt l cs") (auto simp: chunkStore_Put_def)
  have cur: "map_of ?al (String a) = Some v \<Longrightarrow> bv_wf v" for v
    using assms(1) map_of_SomeD by (fastforce simp: service_wf_def list_all_iff)
  have "\<exists>cs'. putChunkService mock_store r a bt l cs = Some (None, cs') \<and> service_wf cs' \<and>
    chunkStore_HasChunk SERVICE r bt cs' = Some (Inr True) \<and>
    (\<forall>r' i. 0 \<le> i \<longrightarrow> chunkStore_HasChunk SERVICE r' i cs = Some (Inr True) \<longrightarrow> chunkStore_HasChunk SERVICE r' i cs' = Some (Inr True))"
  proof (rule vector_for_wf [OF cur assms(2,3)])
    assume 1: "vector_for (map_of ?al (String a)) bt l = Some (Inr None)" "\<exists>v. map_of ?al (String a) = Some v \<and> bt < bv_len v \<and> bv_bit v (nat bt)"
    then have "putChunkService mock_store r a bt l cs = Some (None, cs)" by (simp add: putChunkService_def put_bit_def Let_def)
    moreover have "chunkStore_HasChunk SERVICE r bt cs = Some (Inr True)" unfolding HasChunk_service [OF assms(1,2)] using 1(2) map_of_SomeD by fast
    ultimately show ?thesis using assms(1) by blast
  next
    fix bv
    assume 2: "vector_for (map_of ?al (String a)) bt l = Some (Inr (Some bv))" "bv_wf bv" "bt < bv_len bv"
      "\<And>v i. map_of ?al (String a) = Some v \<Longrightarrow> bv_len v \<le> bv_len bv \<and> (i < length (bv_b v) * 8 \<longrightarrow> bv_bit v i \<longrightarrow> bv_bit bv i)"
    obtain bw where bw: "BitVector_Set bv bt = Some bw" "bv_len bw = bv_len bv" "length (bv_b bw) = length (bv_b bv)"
        "\<And>j. bv_bit bw j = (if j = nat bt then True else bv_bit bv j)"
      using set_inside [OF wf_inside [OF 2(2) assms(2) 2(3)], of True] assms(2) by (auto simp: BitVector_Set_def)
    let ?cs = "cs\<lparr>service := (service cs)(String r \<mapsto> AList.update (String a) bw ?al),
        stateStore := AList.update (cs_generateKey serviceKeyPrefix r a) bw (stateStore cs)\<rparr>"
    have "putChunkService mock_store r a bt l cs = Some (None, ?cs)"
      using 2(1) bw(1) by (simp add: putChunkService_def put_bit_def Let_def mock_store_def mock_Put_def)
    moreover have wf: "service_wf ?cs"
      using assms(1) 2(2) bw(2,3) set_update(3) [of _ _ "String a" bw ?al]
      by (fastforce simp: service_wf_def inner_def list_all_iff bv_wf_def)
    moreover have "chunkStore_HasChunk SERVICE r bt ?cs = Some (Inr True)"
      unfolding HasChunk_service [OF wf assms(2)] using set_update(2) [of "String a" bw ?al] 2(3) bw(2) bw(4) [of "nat bt"]
      by (simp add: inner_def) metis
    moreover have "chunkStore_HasChunk SERVICE r' i ?cs = Some (Inr True)"
      if i: "0 \<le> i" "chunkStore_HasChunk SERVICE r' i cs = Some (Inr True)" for r' i
    proof -
      obtain k v where kv: "(k, v) \<in> set (inner (service cs) (String r'))" "i < bv_len v" "bv_bit v (nat i)"
        using i HasChunk_service [OF assms(1) i(1)] by blast
      have "bv_wf v" using assms(1) kv(1) by (fastforce simp: service_wf_def list_all_iff)
      then have "nat i < length (bv_b v) * 8" by (rule wf_inside [OF _ i(1) kv(2)])
      then have "\<exists>k v. (k, v) \<in> set (inner (service ?cs) (String r')) \<and> i < bv_len v \<and> bv_bit v (nat i)"
        using kv set_update(1) [of k v ?al "String a" bw] set_update(2) [of "String a" bw ?al] 2(4) [of v "nat i"] bw(2,4)
        by (cases "r' = r") (fastforce simp: inner_def)+
      then show ?thesis unfolding HasChunk_service [OF wf i(1)] .
    qed
    ultimately show ?thesis by blast
  qed
  then show ?thesis unfolding put .
qed

lemma chunkStore_Put_remembers_witness:
  "\<exists>cs'. chunkStore_Put mock_store 1 SERVICE (Address [1]) [\<lparr>Overlay = Address [2], Bit = 3, Len = 10, B = []\<rparr>]
       (chunkStore_New (NewStateStore \<lparr>bv_len = 0, bv_b = []\<rparr>)) = Some (None, cs') \<and> service_wf cs' \<and>
     chunkStore_HasChunk SERVICE (Address [1]) 3 cs' = Some (Inr True)"
proof -
  have "service_wf (chunkStore_New (NewStateStore \<lparr>bv_len = 0, bv_b = []\<rparr>))"
    by (simp add: service_wf_def chunkStore_New_def inner_def)
  from chunkStore_Put_remembers [OF this, where bt = 3 and l = 10 and now = 1 and r = "Address [1]" and a = "Address [2]" and b = "[]"]
  show ?thesis by auto
qed

end
