(* ===== verification/Bmt.thy ===== *)
theory Bmt
  imports Prelude
begin

text \<open>
  The binary Merkle tree hash of a chunk (\<^verbatim>\<open>src/pkg/bmt/bmt.go\<close>, \<^verbatim>\<open>src/pkg/bmt/pool.go\<close>) and
  its reference implementation (\<^verbatim>\<open>src/pkg/bmt/reference/reference.go\<close>). The hasher writes the
  data into a buffer and starts a goroutine for every section of two segments; the goroutines
  meet in the nodes of a reused tree, where the first one to arrive at a node ends and the
  second one hashes both children and goes on to the parent. A node is addressed by its
  height and index, so the parent of \<open>(h, j)\<close> is \<open>(h + 1, j div 2)\<close> and it is a left child when
  \<open>j\<close> is even. A step of the model is one iteration of the loop of a goroutine; a schedule is
  the sequence of the goroutines that take a step. The base hash is a parameter \<open>H\<close>, which
  never fails, as Keccak's \<open>Write\<close> never does.
\<close>

section \<open>Model\<close>

definition SpanSize :: nat where
  "SpanSize = 8"

text \<open>The loop of \<open>sizeToParams\<close> doubles \<open>c\<close>, which is \<open>2 * 2 ^ d\<close>, and counts \<open>d\<close>.\<close>

function size_loop :: "nat \<Rightarrow> nat \<Rightarrow> nat \<times> nat" where
  "size_loop n d = (if 2 * 2 ^ d < n then size_loop n (Suc d) else (2 * 2 ^ d, d + 1))"
  by auto
termination
proof (relation "measure (\<lambda>(n, d). n - 2 * 2 ^ d)")
  fix n d :: nat
  assume "2 * 2 ^ d < n"
  then show "((n, Suc d), (n, d)) \<in> measure (\<lambda>(n, d). n - 2 * 2 ^ d)" by (simp add: diff_less_mono2)
qed simp

declare size_loop.simps [simp del]

definition sizeToParams :: "nat \<Rightarrow> nat \<times> nat" where
  "sizeToParams n = size_loop n 0"

record bmt_conf =
  segmentSize :: nat
  segmentCount :: nat
  bmtDepth :: nat
  maxSize :: nat
  zerohashes :: "bytes list"

fun zero_table :: "(bytes \<Rightarrow> bytes) \<Rightarrow> nat \<Rightarrow> bytes \<Rightarrow> bytes list" where
  "zero_table H 0 zeros = []"
| "zero_table H (Suc n) zeros = (let z = H (zeros @ zeros) in z # zero_table H n z)"

definition NewConf :: "(bytes \<Rightarrow> bytes) \<Rightarrow> nat \<Rightarrow> nat \<Rightarrow> bmt_conf" where
  "NewConf H segSize segCount =
     (case sizeToParams segCount of
        (count, depth) \<Rightarrow>
          \<lparr>segmentSize = segSize, segmentCount = segCount, bmtDepth = depth, maxSize = count * segSize,
           zerohashes = replicate segSize 0 # zero_table H depth (replicate segSize 0)\<rparr>)"

text \<open>
  A node at its address; \<open>toggle\<close> adds 1 to an \<open>int32\<close> and tells whether the sum is 1 modulo 2,
  the remainder of Go having the sign of the dividend.
\<close>

type_synonym naddr = "nat \<times> nat"

record bnode =
  isLeft :: bool
  parent :: "naddr option"
  nstate :: int
  nleft :: bytes
  nright :: bytes

definition wrap32 :: "int \<Rightarrow> int" where
  "wrap32 x = (x + 2 ^ 31) mod 2 ^ 32 - 2 ^ 31"

definition toggle :: "bnode \<Rightarrow> bool \<times> bnode" where
  "toggle n = (let st = wrap32 (nstate n + 1) in (tmod st 2 = 1, n\<lparr>nstate := st\<rparr>))"

type_synonym tree = "naddr \<Rightarrow> bnode"

definition newNode :: "nat \<Rightarrow> naddr option \<Rightarrow> bnode" where
  "newNode index par = \<lparr>isLeft = (index mod 2 = 0), parent = par, nstate = 0, nleft = [], nright = []\<rparr>"

text \<open>One turn of the loop of \<open>newTree\<close>: the \<open>count\<close> nodes of a level below the previous one.\<close>

definition add_level :: "nat \<Rightarrow> tree \<times> nat \<Rightarrow> tree \<times> nat" where
  "add_level level tc =
     (\<lambda>(l, i). if l = level \<and> i < snd tc then newNode i (Some (Suc level, i div 2)) else fst tc (l, i), 2 * snd tc)"

definition newTree :: "nat \<Rightarrow> tree" where
  "newTree depth = fst (fold add_level (rev [0..<depth - 1]) (\<lambda>_. newNode 0 None, 2))"

subsection \<open>The hasher\<close>

record hasher =
  buffer :: bytes
  hsize :: nat
  hpos :: nat
  hoffset :: nat
  span :: bytes

definition LengthToSpan :: "int \<Rightarrow> bytes" where
  "LengthToSpan l = map (\<lambda>k. word_of_int (l div 256 ^ k)) [0..<SpanSize]"

definition copy_at :: "nat \<Rightarrow> bytes \<Rightarrow> bytes \<Rightarrow> bytes" where
  "copy_at i src dst = take (length dst) (take i dst @ src @ drop (i + length src) dst)"

definition SetHeaderInt64 :: "int \<Rightarrow> hasher \<Rightarrow> hasher" where
  "SetHeaderInt64 l h = h\<lparr>span := LengthToSpan l\<rparr>"

definition SetHeader :: "bytes \<Rightarrow> hasher \<Rightarrow> hasher" where
  "SetHeader sp h = h\<lparr>span := copy_at 0 sp (span h)\<rparr>"

definition Hasher_Reset :: "hasher \<Rightarrow> hasher" where
  "Hasher_Reset h = h\<lparr>hpos := 0, hsize := 0, hoffset := 0, span := copy_at 0 (replicate 8 0) (span h)\<rparr>"

text \<open>
  \<open>Write\<close> returns the number of bytes it took and the sections for which it starts a
  goroutine. \<open>to--\<close> on 0 does not occur: a full buffer has at least one section.
\<close>

definition Hasher_Write :: "bmt_conf \<Rightarrow> bytes \<Rightarrow> hasher \<Rightarrow> nat \<times> nat list \<times> hasher" where
  "Hasher_Write conf b h =
     (let mx = maxSize conf - hsize h;
          l = (if length b > mx then mx else length b);
          secsize = 2 * segmentSize conf;
          from = hsize h div secsize;
          size' = hsize h + l;
          to0 = size' div secsize;
          to = (if l = mx then to0 - 1 else to0)
      in (l, [from..<to],
          h\<lparr>buffer := copy_at (hsize h) b (buffer h), hoffset := hsize h mod secsize, hsize := size', hpos := to\<rparr>))"

subsection \<open>The goroutines\<close>

text \<open>
  \<open>Out p s\<close>: the goroutine has left the node \<open>p\<close> on the path of its section with the hash \<open>s\<close>;
  only the final goroutine goes on without a hash. Its \<open>level\<close> is one above the height of \<open>p\<close>.
\<close>

datatype thread = Start | Out naddr "bytes option" | Done

record conc =
  nodes :: tree
  threads :: "nat \<Rightarrow> thread"
  results :: "bytes list"

definition section_of :: "bmt_conf \<Rightarrow> bytes \<Rightarrow> nat \<Rightarrow> bytes" where
  "section_of conf buf i = take (2 * segmentSize conf) (drop (i * (2 * segmentSize conf)) buf)"

definition write_child :: "bool \<Rightarrow> bytes \<Rightarrow> bnode \<Rightarrow> bnode" where
  "write_child left s n = (if left then n\<lparr>nleft := s\<rparr> else n\<lparr>nright := s\<rparr>)"

text \<open>Toggle, and hash the children when the other goroutine has been here.\<close>

definition toggle_hash :: "(bytes \<Rightarrow> bytes) \<Rightarrow> bnode \<Rightarrow> bytes option \<times> bnode" where
  "toggle_hash H n =
     (case toggle n of (first, n') \<Rightarrow> (if first then None else Some (H (nleft n' @ nright n')), n'))"

definition writeNode :: "(bytes \<Rightarrow> bytes) \<Rightarrow> bool \<Rightarrow> bytes \<Rightarrow> bnode \<Rightarrow> bytes option \<times> bnode" where
  "writeNode H left s n = toggle_hash H (write_child left s n)"

definition writeFinalNode :: "(bytes \<Rightarrow> bytes) \<Rightarrow> bytes \<Rightarrow> bool \<Rightarrow> bytes option \<Rightarrow> bnode \<Rightarrow> bytes option \<times> bnode" where
  "writeFinalNode H zerohash left s n =
     (if left then
        (let n1 = n\<lparr>nright := zerohash\<rparr> in
         case s of
           Some v \<Rightarrow> (let n2 = n1\<lparr>nleft := v\<rparr> in (Some (H (nleft n2 @ nright n2)), n2))
         | None \<Rightarrow> toggle_hash H n1)
      else
        (case s of
           Some v \<Rightarrow> toggle_hash H (n\<lparr>nright := v\<rparr>)
         | None \<Rightarrow> (None, n)))"

definition thread_step :: "(bytes \<Rightarrow> bytes) \<Rightarrow> bmt_conf \<Rightarrow> bytes \<Rightarrow> nat \<Rightarrow> nat \<Rightarrow> conc \<Rightarrow> conc" where
  "thread_step H conf buf pos i g =
     (case threads g i of
        Start \<Rightarrow> g\<lparr>threads := (threads g)(i := Out (0, i) (Some (H (section_of conf buf i))))\<rparr>
      | Done \<Rightarrow> g
      | Out p s \<Rightarrow>
          (case parent (nodes g p) of
             None \<Rightarrow> g\<lparr>threads := (threads g)(i := Done),
                      results := results g @ (case s of Some v \<Rightarrow> [v] | None \<Rightarrow> [])\<rparr>
           | Some q \<Rightarrow>
               (if i = pos then
                  (case writeFinalNode H (zerohashes conf ! Suc (fst p)) (isLeft (nodes g p)) s (nodes g q) of
                     (s', n) \<Rightarrow> g\<lparr>nodes := (nodes g)(q := n), threads := (threads g)(i := Out q s')\<rparr>)
                else
                  (case s of
                     None \<Rightarrow> g\<lparr>threads := (threads g)(i := Done)\<rparr>
                   | Some v \<Rightarrow>
                       (case writeNode H (isLeft (nodes g p)) v (nodes g q) of
                          (s', n) \<Rightarrow>
                            g\<lparr>nodes := (nodes g)(q := n),
                              threads := (threads g)(i := (case s' of None \<Rightarrow> Done | Some _ \<Rightarrow> Out q s'))\<rparr>)))))"

definition run_threads :: "(bytes \<Rightarrow> bytes) \<Rightarrow> bmt_conf \<Rightarrow> bytes \<Rightarrow> nat \<Rightarrow> nat list \<Rightarrow> conc \<Rightarrow> conc" where
  "run_threads H conf buf pos sched g = fold (thread_step H conf buf pos) sched g"

definition zerosection :: bytes where
  "zerosection = replicate 64 0"

text \<open>
  \<open>Hash\<close> pads the buffer, starts the final goroutine, and takes what the goroutines send to
  the result channel under the schedule \<open>sched\<close>; \<open>None\<close> when nothing has been sent.
\<close>

definition Hasher_Hash ::
  "(bytes \<Rightarrow> bytes) \<Rightarrow> bmt_conf \<Rightarrow> nat list \<Rightarrow> tree \<Rightarrow> hasher \<Rightarrow> bytes option \<times> tree" where
  "Hasher_Hash H conf sched t h =
     (if hsize h = 0 then (Some (H (span h @ zerohashes conf ! bmtDepth conf)), t)
      else
        (let buf = copy_at (hsize h) zerosection (buffer h);
             g = run_threads H conf buf (hpos h) sched
                   \<lparr>nodes = t, threads = (\<lambda>i. if i \<le> hpos h then Start else Done), results = []\<rparr>
         in (case results g of [] \<Rightarrow> None | r # _ \<Rightarrow> Some (H (span h @ r)), nodes g)))"

section \<open>The reference implementation\<close>

record ref_hasher =
  maxDataLength :: nat
  sectionLength :: nat

definition NewRefHasher :: "nat \<Rightarrow> nat \<Rightarrow> ref_hasher" where
  "NewRefHasher hashsize count =
     \<lparr>maxDataLength = fst (size_loop count 0) * hashsize, sectionLength = 2 * hashsize\<rparr>"

text \<open>The recursion halves the length; when it misses the section length it does not end.\<close>

partial_function (option) ref_hash ::
  "(bytes \<Rightarrow> bytes) \<Rightarrow> nat \<Rightarrow> bytes \<Rightarrow> nat \<Rightarrow> bytes option" where
  "ref_hash H sec data len =
     (if len = sec then Some (H data)
      else
        Option.bind (ref_hash H sec (take (len div 2) data) (len div 2)) (\<lambda>left.
        Option.bind (ref_hash H sec (drop (len div 2) data) (len div 2)) (\<lambda>right.
        Some (H (left @ right)))))"

definition RefHasher_Hash :: "(bytes \<Rightarrow> bytes) \<Rightarrow> ref_hasher \<Rightarrow> bytes \<Rightarrow> bytes option" where
  "RefHasher_Hash H rh data =
     (let l = (if length data > maxDataLength rh then maxDataLength rh else length data);
          d = take l data @ replicate (maxDataLength rh - l) 0
      in ref_hash H (sectionLength rh) d (maxDataLength rh))"


section \<open>The tree of hashes\<close>

text \<open>The hash of the node \<open>(h, j)\<close> over given hashes of the sections.\<close>

fun tree_hash :: "(bytes \<Rightarrow> bytes) \<Rightarrow> (nat \<Rightarrow> bytes) \<Rightarrow> nat \<Rightarrow> nat \<Rightarrow> bytes" where
  "tree_hash H leaf 0 j = H (leaf j)"
| "tree_hash H leaf (Suc h) j = H (tree_hash H leaf h (2 * j) @ tree_hash H leaf h (2 * j + 1))"

lemma size_loop_params: "fst (size_loop n d) = 2 ^ snd (size_loop n d) \<and> 0 < snd (size_loop n d)"
proof (induction n d rule: size_loop.induct)
  case (1 n d)
  then show ?case by (cases "2 * 2 ^ d < n") (simp_all add: size_loop.simps [of n d])
qed

lemma NewConf_simps [simp]:
  "segmentSize (NewConf H seg n) = seg" "bmtDepth (NewConf H seg n) = snd (size_loop n 0)"
  "maxSize (NewConf H seg n) = 2 ^ snd (size_loop n 0) * seg"
  "zerohashes (NewConf H seg n) = replicate seg 0 # zero_table H (snd (size_loop n 0)) (replicate seg 0)"
  by (simp_all add: NewConf_def sizeToParams_def case_prod_beta size_loop_params)

lemma tree_hash_cong:
  "(\<And>i. j * 2 ^ h \<le> i \<Longrightarrow> i < Suc j * 2 ^ h \<Longrightarrow> leaf i = leaf' i) \<Longrightarrow> tree_hash H leaf h j = tree_hash H leaf' h j"
proof (induction h arbitrary: j)
  case 0
  then show ?case by simp
next
  case (Suc h)
  have "tree_hash H leaf h (2 * j) = tree_hash H leaf' h (2 * j)"
    by (rule Suc.IH) (rule Suc.prems, auto simp: algebra_simps)
  moreover have "tree_hash H leaf h (2 * j + 1) = tree_hash H leaf' h (2 * j + 1)"
    by (rule Suc.IH) (rule Suc.prems, auto simp: algebra_simps)
  ultimately show ?case by simp
qed

lemma tree_hash_shift: "tree_hash H (\<lambda>i. leaf (i + k * 2 ^ h)) h j = tree_hash H leaf h (j + k)"
proof (induction h arbitrary: j k)
  case 0
  then show ?case by simp
next
  case (Suc h)
  have e: "k * 2 ^ Suc h = (2 * k) * 2 ^ h" by simp
  have "2 * j + 1 + 2 * k = 2 * (j + k) + 1" "2 * j + 2 * k = 2 * (j + k)" by simp_all
  then show ?case by (simp only: tree_hash.simps e Suc.IH)
qed

lemma tree_hash_const: "tree_hash H (\<lambda>_. x) h j = tree_hash H (\<lambda>_. x) h 0"
  using tree_hash_shift [of H "\<lambda>_. x" j h 0] by simp

lemma tree_hash_bottom: "tree_hash H (\<lambda>_. x) (Suc h) 0 = tree_hash H (\<lambda>_. H x @ H x) h 0"
proof (induction h)
  case 0
  then show ?case by simp
next
  case (Suc h)
  have "tree_hash H (\<lambda>_. x) (Suc (Suc h)) 0 = H (tree_hash H (\<lambda>_. x) (Suc h) 0 @ tree_hash H (\<lambda>_. x) (Suc h) 1)"
    by simp
  also have "tree_hash H (\<lambda>_. x) (Suc h) 1 = tree_hash H (\<lambda>_. x) (Suc h) 0" by (rule tree_hash_const)
  also have "\<dots> = tree_hash H (\<lambda>_. H x @ H x) h 0" by (rule Suc.IH)
  finally show ?case using tree_hash_const [of H "H x @ H x" h 1] by simp
qed

lemma zero_table_nth: "h < n \<Longrightarrow> zero_table H n z ! h = tree_hash H (\<lambda>_. z @ z) h j"
proof (induction n arbitrary: h z)
  case (Suc n)
  show ?case
  proof (cases h)
    case 0
    then show ?thesis by (simp add: Let_def)
  next
    case (Suc k)
    then have "zero_table H (Suc n) z ! h = tree_hash H (\<lambda>_. H (z @ z) @ H (z @ z)) k j"
      using Suc.IH [of k "H (z @ z)"] Suc.prems by (simp add: Let_def)
    also have "\<dots> = tree_hash H (\<lambda>_. z @ z) (Suc k) j"
      by (metis tree_hash_bottom tree_hash_const)
    finally show ?thesis using Suc by simp
  qed
qed simp

text \<open>The loop of \<open>newTree\<close> links every node below the root to its parent.\<close>

definition linked :: "nat \<Rightarrow> tree \<Rightarrow> bool" where
  "linked D t \<longleftrightarrow>
     (\<forall>h<D. \<forall>j<2 ^ (D - 1 - h).
        isLeft (t (h, j)) = even j \<and> parent (t (h, j)) = (if Suc h = D then None else Some (Suc h, j div 2)))"

lemma fold_add_level:
  "fold add_level (rev [0..<m]) (t, c) =
     (\<lambda>(h, j). if h < m \<and> j < c * 2 ^ (m - 1 - h) then newNode j (Some (Suc h, j div 2)) else t (h, j), c * 2 ^ m)"
proof (induction m arbitrary: t c)
  case (Suc m)
  have "fold add_level (rev [0..<Suc m]) (t, c) = fold add_level (rev [0..<m]) (add_level m (t, c))" by simp
  moreover have p: "2 * c * 2 ^ (m - Suc h) = c * 2 ^ (m - h)" if "h < m" for h
    using that power_Suc [of "2 :: nat" "m - Suc h"] by (simp add: Suc_diff_Suc)
  ultimately show ?case
    by (auto simp: p add_level_def [of m] Suc.IH fun_eq_iff less_Suc_eq)
qed simp

lemma newTree_linked: "0 < D \<Longrightarrow> linked D (newTree D)"
proof -
  have "2 * 2 ^ (D - 1 - 1 - h) = (2 :: nat) ^ (D - 1 - h)" if "Suc h < D" for h
    using that power_Suc [of "2 :: nat" "D - 1 - 1 - h"] by (simp add: Suc_diff_Suc)
  then show "0 < D \<Longrightarrow> linked D (newTree D)"
    unfolding linked_def newTree_def fold_add_level fst_conv
    by (auto simp: newNode_def even_iff_mod_2_eq_zero)
qed

lemma ref_hash_tree:
  "0 < sec \<Longrightarrow> length data = sec * 2 ^ k \<Longrightarrow>
   ref_hash H sec data (sec * 2 ^ k) = Some (tree_hash H (\<lambda>i. take sec (drop (i * sec) data)) k 0)"
proof (induction k arbitrary: data)
  case 0
  then show ?case by (subst ref_hash.simps) simp
next
  case (Suc k)
  let ?L = "sec * 2 ^ k"
  have half: "sec * 2 ^ Suc k div 2 = ?L" and ne: "sec * 2 ^ Suc k \<noteq> sec"
    using Suc.prems(1) by simp_all
  have L: "ref_hash H sec (take ?L data) ?L = Some (tree_hash H (\<lambda>i. take sec (drop (i * sec) data)) k 0)"
    (is "_ = Some ?l")
  proof -
    have "tree_hash H (\<lambda>i. take sec (drop (i * sec) (take ?L data))) k 0 = ?l"
    proof (rule tree_hash_cong)
      fix i :: nat
      assume "i < Suc 0 * 2 ^ k"
      then have "Suc i * sec \<le> 2 ^ k * sec" by (intro mult_le_mono1) simp
      then show "take sec (drop (i * sec) (take ?L data)) = take sec (drop (i * sec) data)"
        by (simp add: drop_take min_def mult.commute algebra_simps)
    qed
    then show ?thesis using Suc.IH [of "take ?L data"] Suc.prems by simp
  qed
  have R: "ref_hash H sec (drop ?L data) ?L = Some (tree_hash H (\<lambda>i. take sec (drop (i * sec) data)) k 1)"
    using Suc.IH [of "drop ?L data"] Suc.prems tree_hash_shift [of H "\<lambda>i. take sec (drop (i * sec) data)" 1 k 0]
    by (simp add: algebra_simps)
  show ?case using ne L R by (subst ref_hash.simps) (simp only: half if_False bind_simps tree_hash.simps, simp)
qed

lemma toggle_range:
  assumes "0 \<le> nstate n" and "nstate n < 2 ^ 31 - 1"
  shows "toggle n = (even (nstate n), n\<lparr>nstate := nstate n + 1\<rparr>)"
proof -
  have w: "wrap32 (nstate n + 1) = nstate n + 1" using assms by (simp add: wrap32_def)
  have "(nstate n + 1) mod 2 = 1 \<longleftrightarrow> even (nstate n)" by presburger
  then show ?thesis using assms(1) by (simp add: toggle_def w Let_def tmod_nonneg)
qed

text \<open>After \<open>2 ^ 31\<close> toggles the counter is negative and \<open>toggle\<close> no longer tells a first arrival.\<close>

lemma toggle_wraps:
  assumes "nstate n = - (2 ^ 31)"
  shows "\<not> fst (toggle n)" and "\<not> fst (toggle (snd (toggle n)))"
    and "nstate n' = 2 ^ 31 - 1 \<Longrightarrow> nstate (snd (toggle n')) = nstate n"
  using assms by (simp_all add: toggle_def Let_def wrap32_def tmod_def tdiv_def)

end
