(* ===== verification/BmtSchedule.thy ===== *)
theory BmtSchedule
  imports Bmt
begin

text \<open>
  Every schedule of the goroutines of the BMT hasher computes the reference hash. The invariant
  follows, with an auxiliary map \<open>E\<close> from a node to the goroutine that carried its hash out, the
  arrivals at every node of the tree.
\<close>

section \<open>The invariant of a run\<close>

definition past :: "(nat \<Rightarrow> thread) \<Rightarrow> nat \<Rightarrow> nat \<Rightarrow> bool" where
  "past T h i \<longleftrightarrow> (case T i of Start \<Rightarrow> False | Out p _ \<Rightarrow> h < fst p | Done \<Rightarrow> True)"

definition reached :: "(nat \<Rightarrow> thread) \<Rightarrow> nat \<Rightarrow> nat \<Rightarrow> bool" where
  "reached T h i \<longleftrightarrow> (case T i of Start \<Rightarrow> False | Out p _ \<Rightarrow> h \<le> fst p | Done \<Rightarrow> True)"

type_synonym carriers = "naddr \<Rightarrow> nat option"

definition delivered :: "(nat \<Rightarrow> thread) \<Rightarrow> carriers \<Rightarrow> naddr \<Rightarrow> bool" where
  "delivered T E p \<longleftrightarrow> (case E p of None \<Rightarrow> False | Some i \<Rightarrow> past T (fst p) i)"

lemma delivered_carrier: "delivered T E p \<Longrightarrow> E p \<noteq> None"
  by (simp add: delivered_def split: option.splits)

text \<open>The right child of a node whose left child is on the final path is supplied by the final goroutine.\<close>

definition final_left :: "nat \<Rightarrow> nat \<Rightarrow> nat \<Rightarrow> bool" where
  "final_left pos h j \<longleftrightarrow> pos div 2 ^ h = 2 * j"

definition from_right :: "(nat \<Rightarrow> thread) \<Rightarrow> carriers \<Rightarrow> nat \<Rightarrow> nat \<Rightarrow> nat \<Rightarrow> bool" where
  "from_right T E pos h j = (if final_left pos h j then past T h pos else delivered T E (h, 2 * j + 1))"

definition solo :: "carriers \<Rightarrow> nat \<Rightarrow> nat \<Rightarrow> nat \<Rightarrow> bool" where
  "solo E pos h j \<longleftrightarrow> final_left pos h j \<and> E (h, 2 * j) = Some pos"

definition node_ok :: "(nat \<Rightarrow> nat \<Rightarrow> bytes) \<Rightarrow> nat \<Rightarrow> nat \<Rightarrow> int \<Rightarrow> bool \<Rightarrow> bool \<Rightarrow> bool \<Rightarrow> bool \<Rightarrow> bnode \<Rightarrow> bool" where
  "node_ok V h j st alone l r e n \<longleftrightarrow>
     nstate n = st + (if alone then 0 else of_bool l + of_bool r) \<and>
     (l \<longrightarrow> nleft n = V h (2 * j)) \<and> (r \<longrightarrow> nright n = V h (2 * j + 1)) \<and> (e \<longleftrightarrow> l \<and> r)"

definition thread_ok :: "(nat \<Rightarrow> nat \<Rightarrow> bytes) \<Rightarrow> nat \<Rightarrow> nat \<Rightarrow> carriers \<Rightarrow> nat \<Rightarrow> thread \<Rightarrow> bool" where
  "thread_ok V D pos E i th \<longleftrightarrow>
     (case th of
        Out p s \<Rightarrow>
          fst p < D \<and> snd p = i div 2 ^ fst p \<and>
          (case s of Some v \<Rightarrow> E p = Some i \<and> v = V (fst p) (snd p) | None \<Rightarrow> i = pos \<and> E p \<noteq> Some pos)
      | _ \<Rightarrow> True)"

definition carriers_ok :: "nat \<Rightarrow> (nat \<Rightarrow> thread) \<Rightarrow> carriers \<Rightarrow> bool" where
  "carriers_ok pos T E \<longleftrightarrow>
     (\<forall>h j i. E (h, j) = Some i \<longrightarrow> i \<le> pos \<and> j = i div 2 ^ h \<and> reached T h i)"

definition run_inv :: "(nat \<Rightarrow> nat \<Rightarrow> bytes) \<Rightarrow> nat \<Rightarrow> nat \<Rightarrow> tree \<Rightarrow> carriers \<Rightarrow> conc \<Rightarrow> bool" where
  "run_inv V D pos t E g \<longleftrightarrow>
     linked D (nodes g) \<and>
     (\<forall>i\<le>pos. thread_ok V D pos E i (threads g i)) \<and>
     carriers_ok pos (threads g) E \<and>
     (\<forall>i\<le>pos. E (0, i) \<noteq> None \<longleftrightarrow> threads g i \<noteq> Start) \<and>
     (\<forall>h j. Suc h < D \<longrightarrow>
        node_ok V h j (nstate (t (Suc h, j))) (solo E pos h j) (delivered (threads g) E (h, 2 * j))
          (from_right (threads g) E pos h j) (E (Suc h, j) \<noteq> None) (nodes g (Suc h, j))) \<and>
     results g = (if delivered (threads g) E (D - 1, 0) then [V (D - 1) 0] else [])"

text \<open>What a run assumes of its tree, and what the buffer and the table of zero hashes hold.\<close>

definition fresh_states :: "nat \<Rightarrow> tree \<Rightarrow> bool" where
  "fresh_states D t \<longleftrightarrow>
     (\<forall>h j. Suc h < D \<longrightarrow>
        even (nstate (t (Suc h, j))) \<and> 0 \<le> nstate (t (Suc h, j)) \<and> nstate (t (Suc h, j)) < 2 ^ 31 - 2)"

definition run_env :: "(bytes \<Rightarrow> bytes) \<Rightarrow> bmt_conf \<Rightarrow> bytes \<Rightarrow> nat \<Rightarrow> (nat \<Rightarrow> nat \<Rightarrow> bytes) \<Rightarrow> tree \<Rightarrow> bool" where
  "run_env H conf buf pos V t \<longleftrightarrow>
     0 < bmtDepth conf \<and> pos < 2 ^ (bmtDepth conf - 1) \<and> fresh_states (bmtDepth conf) t \<and>
     (\<forall>i\<le>pos. V 0 i = H (section_of conf buf i)) \<and>
     (\<forall>h j. V (Suc h) j = H (V h (2 * j) @ V h (2 * j + 1))) \<and>
     (\<forall>h. Suc h < bmtDepth conf \<longrightarrow> even (pos div 2 ^ h) \<longrightarrow>
        zerohashes conf ! Suc h = V h (Suc (pos div 2 ^ h)))"

lemma arrive_left:
  assumes "node_ok V h j st False False r e n" and "even st" "0 \<le> st" "st < 2 ^ 31 - 2"
    and "toggle_hash H (n\<lparr>nleft := V h (2 * j)\<rparr>) = (s', n')"
  shows "node_ok V h j st False True r r n'" "s' = (if r then Some (H (V h (2 * j) @ V h (2 * j + 1))) else None)"
    "isLeft n' = isLeft n" "parent n' = parent n" "\<not> e"
  using assms by (auto simp: node_ok_def toggle_hash_def toggle_range split: if_splits)

lemma arrive_right:
  assumes "node_ok V h j st False l False e n" and "even st" "0 \<le> st" "st < 2 ^ 31 - 2"
    and "toggle_hash H (n\<lparr>nright := V h (2 * j + 1)\<rparr>) = (s', n')"
  shows "node_ok V h j st False l True l n'" "s' = (if l then Some (H (V h (2 * j) @ V h (2 * j + 1))) else None)"
    "isLeft n' = isLeft n" "parent n' = parent n" "\<not> e"
  using assms by (auto simp: node_ok_def toggle_hash_def toggle_range split: if_splits)

lemma half: "i div (2 * 2 ^ h) = i div 2 ^ h div 2" for i :: nat
  by (simp add: mult.commute flip: div_mult2_eq)

text \<open>
  A goroutine \<open>i\<close> moves from a node of height \<open>h\<close> to its parent: it ends there, goes on without a
  hash, or carries the hash out of the parent.
\<close>

definition moves :: "nat \<Rightarrow> nat \<Rightarrow> nat \<Rightarrow> (nat \<Rightarrow> thread) \<Rightarrow> (nat \<Rightarrow> thread) \<Rightarrow> carriers \<Rightarrow> carriers \<Rightarrow> bool" where
  "moves pos i h T T' E E' \<longleftrightarrow>
     (\<exists>s. T i = Out (h, i div 2 ^ h) s) \<and>
     (let q = (Suc h, i div 2 ^ Suc h) in
       E' = E \<and> (T' = T(i := Done) \<and> i \<noteq> pos \<or> T' = T(i := Out q None) \<and> i = pos) \<or>
       E' = E(q \<mapsto> i) \<and> E q = None \<and> (\<exists>v. T' = T(i := Out q (Some v))))"

lemma moves_delivered:
  assumes "moves pos i h T T' E E'" "carriers_ok pos T E"
  shows "delivered T' E' (h', c) \<longleftrightarrow> delivered T E (h', c) \<or> h' = h \<and> c = i div 2 ^ h \<and> E (h, c) = Some i"
proof -
  obtain s where T: "T i = Out (h, i div 2 ^ h) s" using assms(1) by (auto simp: moves_def)
  have reach: "h' \<le> h \<and> c = i div 2 ^ h'" if "E (h', c) = Some i"
    using assms(2) [unfolded carriers_ok_def, rule_format, OF that] T by (simp add: reached_def)
  have other: "past T' h' k = past T h' k" if "k \<noteq> i" for k
    using assms(1) that by (auto simp: moves_def past_def Let_def)
  have "past T h' i \<longleftrightarrow> h' < h" using T by (simp add: past_def)
  moreover have "past T' h' i \<longleftrightarrow> h' \<le> h" if "E (h', c) = Some i \<or> E' (h', c) \<noteq> E (h', c)"
    using assms(1) that reach by (auto simp: moves_def past_def Let_def split: if_splits)
  moreover have "E' (h', c) = E (h', c) \<or> h' = Suc h \<and> E (h', c) = None \<and> E' (h', c) = Some i"
    using assms(1) by (auto simp: moves_def Let_def split: if_splits)
  ultimately show ?thesis
    using other reach by (cases "E (h', c) = Some i"; cases "E (h', c)") (auto simp: delivered_def)
qed

lemma moves_past_final:
  assumes "moves pos i h T T' E E'"
  shows "past T' h' pos \<longleftrightarrow> past T h' pos \<or> i = pos \<and> h' = h"
  using assms unfolding moves_def past_def Let_def by (cases "i = pos") auto

lemma moves_not_start: "moves pos i h T T' E E' \<Longrightarrow> T i \<noteq> Start \<and> T' i \<noteq> Start"
  by (auto simp: moves_def Let_def)

lemma moves_carriers_ok:
  assumes "moves pos i h T T' E E'" "carriers_ok pos T E" "i \<le> pos"
  shows "carriers_ok pos T' E'"
proof -
  obtain s where T: "T i = Out (h, i div 2 ^ h) s" using assms(1) by (auto simp: moves_def)
  have reach: "reached T' h' k" if "reached T h' k" for h' k
    using assms(1) that T by (cases "k = i") (auto simp: moves_def reached_def Let_def)
  have "E' (h', j) = E (h', j) \<or> h' = Suc h \<and> j = i div 2 ^ Suc h \<and> E' (h', j) = Some i \<and> reached T' h' i" for h' j
    using assms(1) by (auto simp: moves_def reached_def Let_def split: if_splits)
  then show ?thesis
    using assms(2,3) reach unfolding carriers_ok_def by (metis option.inject)
qed

lemma moves_other_node:
  assumes m: "moves pos i h T T' E E'" and c: "carriers_ok pos T E" and ne: "(h', j) \<noteq> (h, i div 2 ^ Suc h)"
    and ok: "node_ok V h' j st (solo E pos h' j) (delivered T E (h', 2 * j)) (from_right T E pos h' j) (E (Suc h', j) \<noteq> None) n"
  shows "node_ok V h' j st (solo E' pos h' j) (delivered T' E' (h', 2 * j)) (from_right T' E' pos h' j) (E' (Suc h', j) \<noteq> None) n"
proof -
  have l: "delivered T' E' (h', 2 * j) = delivered T E (h', 2 * j)"
    using ne by (auto simp: moves_delivered [OF m c] half)
  have r: "from_right T' E' pos h' j = from_right T E pos h' j"
    using ne by (auto simp: from_right_def moves_delivered [OF m c] moves_past_final [OF m] half final_left_def)
  have e: "E' (Suc h', j) = E (Suc h', j)"
    using ne m by (auto simp: moves_def Let_def)
  show ?thesis
  proof (cases "solo E' pos h' j = solo E pos h' j")
    case True
    then show ?thesis using ok l r e by simp
  next
    case False
    then have "h' = Suc h" "i = pos" "E (h', 2 * j) = None" "final_left pos h' j"
      using m by (auto simp: moves_def Let_def solo_def split: if_splits)
    moreover from this have "\<not> past T h' pos" using m by (auto simp: moves_def past_def)
    ultimately have "\<not> delivered T E (h', 2 * j)" "\<not> from_right T E pos h' j"
      by (simp_all add: delivered_def from_right_def)
    then show ?thesis using ok l r e by (simp add: node_ok_def)
  qed
qed

text \<open>The hash of the node, and the goroutine's next state, on each of the ways to arrive.\<close>

lemma final_path:
  assumes "i \<le> pos" "odd (i div 2 ^ h)"
  shows "\<not> final_left pos h (i div 2 ^ Suc h)"
proof -
  have "i div 2 ^ h \<le> pos div 2 ^ h" using assms(1) by (rule div_le_mono)
  moreover have "i div 2 ^ h = 2 * (i div 2 ^ Suc h) + 1" using assms(2) by (simp add: half)
  ultimately show ?thesis by (simp add: final_left_def)
qed

definition next_thread :: "nat \<Rightarrow> nat \<Rightarrow> naddr \<Rightarrow> bytes option \<Rightarrow> thread" where
  "next_thread pos i q s = (if s = None \<and> i \<noteq> pos then Done else Out q s)"

definition next_carriers :: "nat \<Rightarrow> naddr \<Rightarrow> bytes option \<Rightarrow> carriers \<Rightarrow> carriers" where
  "next_carriers i q s E = (if s = None then E else E(q \<mapsto> i))"

lemma outcome_moves:
  assumes "T i = Out (h, i div 2 ^ h) s" "s' \<noteq> None \<Longrightarrow> E (Suc h, i div 2 ^ Suc h) = None"
  shows "moves pos i h T (T(i := next_thread pos i (Suc h, i div 2 ^ Suc h) s')) E
           (next_carriers i (Suc h, i div 2 ^ Suc h) s' E)"
  using assms by (auto simp: moves_def next_thread_def next_carriers_def Let_def)

lemma outcome_thread_ok:
  assumes "T i = Out (h, i div 2 ^ h) s" "carriers_ok pos T E" "Suc h < D"
    and "\<And>v. s' = Some v \<Longrightarrow> v = V (Suc h) (i div 2 ^ Suc h)"
  shows "thread_ok V D pos (next_carriers i (Suc h, i div 2 ^ Suc h) s' E) i
           (next_thread pos i (Suc h, i div 2 ^ Suc h) s')"
proof -
  have "E (Suc h, i div 2 ^ Suc h) \<noteq> Some i"
    using assms(2) [unfolded carriers_ok_def, rule_format, of "Suc h" "i div 2 ^ Suc h" i] assms(1)
    by (auto simp: reached_def)
  then show ?thesis
    using assms(3,4) by (auto simp: thread_ok_def next_thread_def next_carriers_def split: option.split)
qed

lemma step_into_node:
  assumes "linked D (nodes g)" "threads g i = Out (h, i div 2 ^ h) s" "Suc h < D" "i < 2 ^ (D - 1)"
    and "q = (Suc h, i div 2 ^ Suc h)" "s = None \<Longrightarrow> i = pos"
    and "(s', n') = (if i = pos then writeFinalNode H (zerohashes conf ! Suc h) (even (i div 2 ^ h)) s (nodes g q)
                     else writeNode H (even (i div 2 ^ h)) (the s) (nodes g q))"
  shows "thread_step H conf buf pos i g =
           g\<lparr>nodes := (nodes g)(q := n'), threads := (threads g)(i := next_thread pos i q s')\<rparr>"
proof -
  have "i div 2 ^ h < 2 ^ (D - 1 - h)"
    using assms(3,4) by (simp add: div_less_iff_less_mult flip: power_add)
  then have "isLeft (nodes g (h, i div 2 ^ h)) = even (i div 2 ^ h)" "parent (nodes g (h, i div 2 ^ h)) = Some q"
    using assms(1,3,5) by (simp_all add: linked_def half)
  then show ?thesis
    using assms(2,6,7) by (auto simp: thread_step_def next_thread_def split: option.split prod.splits if_splits)
qed

text \<open>What the goroutine finds at the node and leaves there.\<close>

definition arrived :: "(nat \<Rightarrow> nat \<Rightarrow> bytes) \<Rightarrow> nat \<Rightarrow> tree \<Rightarrow> carriers \<Rightarrow> conc \<Rightarrow> nat \<Rightarrow> nat \<Rightarrow> nat \<Rightarrow> bytes option \<Rightarrow> bnode \<Rightarrow> bool" where
  "arrived V pos t E g i h j s' n' \<longleftrightarrow>
    (s' \<noteq> None \<longrightarrow> E (Suc h, j) = None \<and> s' = Some (V (Suc h) j)) \<and>
    isLeft n' = isLeft (nodes g (Suc h, j)) \<and> parent n' = parent (nodes g (Suc h, j)) \<and>
    node_ok V h j (nstate (t (Suc h, j))) (solo E pos h j)
      (delivered (threads g) E (h, 2 * j) \<or> 2 * j = i div 2 ^ h \<and> E (h, 2 * j) = Some i)
      (if final_left pos h j then past (threads g) h pos \<or> i = pos
       else delivered (threads g) E (h, 2 * j + 1) \<or> 2 * j + 1 = i div 2 ^ h \<and> E (h, 2 * j + 1) = Some i)
      (s' \<noteq> None \<or> E (Suc h, j) \<noteq> None) n'"

lemma arrived_left:
  assumes ok: "node_ok V h j (nstate (t (Suc h, j))) (solo E pos h j) (delivered (threads g) E (h, 2 * j))
      (from_right (threads g) E pos h j) (E (Suc h, j) \<noteq> None) (nodes g (Suc h, j))"
    and st: "even (nstate (t (Suc h, j)))" "0 \<le> nstate (t (Suc h, j))" "nstate (t (Suc h, j)) < 2 ^ 31 - 2"
    and thr: "case s of Some v \<Rightarrow> E (h, i div 2 ^ h) = Some i \<and> v = V h (i div 2 ^ h)
              | None \<Rightarrow> i = pos \<and> E (h, i div 2 ^ h) \<noteq> Some pos"
    and np: "\<not> past (threads g) h i" and V: "V (Suc h) j = H (V h (2 * j) @ V h (2 * j + 1))"
    and w: "(s', n') = (if i = pos then writeFinalNode H zh (even (i div 2 ^ h)) s (nodes g (Suc h, j))
                     else writeNode H (even (i div 2 ^ h)) (the s) (nodes g (Suc h, j)))"
    and c: "i div 2 ^ h = 2 * j" and zh: "i = pos \<Longrightarrow> zh = V h (2 * j + 1)"
  shows "arrived V pos t E g i h j s' n'"
proof (cases "i = pos")
  case final: True
  have fl: "final_left pos h j" using c final by (simp add: final_left_def)
  show ?thesis
  proof (cases s)
    case None
    then have ns: "\<not> solo E pos h j" "E (h, 2 * j) \<noteq> Some i" using thr c by (simp_all add: solo_def)
    have tg: "toggle_hash H ((nodes g (Suc h, j))\<lparr>nright := V h (2 * j + 1)\<rparr>) = (s', n')"
      using w final None c zh by (simp add: writeFinalNode_def)
    have "node_ok V h j (nstate (t (Suc h, j))) False (delivered (threads g) E (h, 2 * j)) False (E (Suc h, j) \<noteq> None) (nodes g (Suc h, j))"
      using ok ns np final fl by (simp add: from_right_def)
    from arrive_right [where V = V and h = h and j = j, OF this st tg] show ?thesis
      using ns final fl by (cases "delivered (threads g) E (h, 2 * j)") (simp_all add: arrived_def V)
  next
    case (Some v)
    then have e: "E (h, 2 * j) = Some i" "v = V h (2 * j)" using thr c by simp_all
    have "s' = Some (V (Suc h) j)" "n' = (nodes g (Suc h, j))\<lparr>nright := V h (2 * j + 1), nleft := V h (2 * j)\<rparr>"
      using w final Some c zh e by (simp_all add: writeFinalNode_def V)
    then show ?thesis
      using ok e final fl c np by (simp add: arrived_def node_ok_def solo_def from_right_def delivered_def)
  qed
next
  case other: False
  then obtain v where s: "s = Some v" "E (h, 2 * j) = Some i" "v = V h (2 * j)" using thr c by (cases s) auto
  have tg: "toggle_hash H ((nodes g (Suc h, j))\<lparr>nleft := V h (2 * j)\<rparr>) = (s', n')"
    using w other s c by (simp add: writeNode_def write_child_def)
  have "node_ok V h j (nstate (t (Suc h, j))) False False (from_right (threads g) E pos h j) (E (Suc h, j) \<noteq> None) (nodes g (Suc h, j))"
    using ok s other np by (simp add: solo_def delivered_def)
  from arrive_left [where V = V and h = h and j = j, OF this st tg] show ?thesis
    using s other c np
    by (cases "from_right (threads g) E pos h j") (simp_all add: arrived_def solo_def from_right_def V split: if_splits)
qed

lemma arrived_right:
  assumes ok: "node_ok V h j (nstate (t (Suc h, j))) (solo E pos h j) (delivered (threads g) E (h, 2 * j))
      (from_right (threads g) E pos h j) (E (Suc h, j) \<noteq> None) (nodes g (Suc h, j))"
    and st: "even (nstate (t (Suc h, j)))" "0 \<le> nstate (t (Suc h, j))" "nstate (t (Suc h, j)) < 2 ^ 31 - 2"
    and thr: "case s of Some v \<Rightarrow> E (h, i div 2 ^ h) = Some i \<and> v = V h (i div 2 ^ h)
              | None \<Rightarrow> i = pos \<and> E (h, i div 2 ^ h) \<noteq> Some pos"
    and np: "\<not> past (threads g) h i" and V: "V (Suc h) j = H (V h (2 * j) @ V h (2 * j + 1))"
    and w: "(s', n') = (if i = pos then writeFinalNode H zh (even (i div 2 ^ h)) s (nodes g (Suc h, j))
                     else writeNode H (even (i div 2 ^ h)) (the s) (nodes g (Suc h, j)))"
    and c: "i div 2 ^ h = 2 * j + 1" and nf: "\<not> final_left pos h j"
  shows "arrived V pos t E g i h j s' n'"
proof (cases s)
  case None
  then have "s' = None" "n' = nodes g (Suc h, j)" "E (h, 2 * j + 1) \<noteq> Some i"
    using thr c w by (simp_all add: writeFinalNode_def)
  then show ?thesis using ok c nf by (simp add: arrived_def from_right_def)
next
  case (Some v)
  then have e: "E (h, 2 * j + 1) = Some i" "v = V h (2 * j + 1)" using thr c by simp_all
  have tg: "toggle_hash H ((nodes g (Suc h, j))\<lparr>nright := V h (2 * j + 1)\<rparr>) = (s', n')"
    using w Some e c by (simp add: writeNode_def write_child_def writeFinalNode_def split: if_splits)
  have "node_ok V h j (nstate (t (Suc h, j))) False (delivered (threads g) E (h, 2 * j)) False (E (Suc h, j) \<noteq> None) (nodes g (Suc h, j))"
    using ok nf e np by (simp add: solo_def from_right_def delivered_def [of _ _ "(h, Suc (2 * j))"])
  from arrive_right [where V = V and h = h and j = j, OF this st tg] show ?thesis
    using nf e c by (cases "delivered (threads g) E (h, 2 * j)") (simp_all add: arrived_def solo_def V)
qed

lemma arrival:
  assumes env: "run_env H conf buf pos V t" and inv: "run_inv V (bmtDepth conf) pos t E g"
    and T: "threads g i = Out (h, i div 2 ^ h) s" and i: "i \<le> pos" and h: "Suc h < bmtDepth conf"
    and j: "j = i div 2 ^ Suc h"
    and w: "(s', n') = (if i = pos then writeFinalNode H (zerohashes conf ! Suc h) (even (i div 2 ^ h)) s (nodes g (Suc h, j))
                     else writeNode H (even (i div 2 ^ h)) (the s) (nodes g (Suc h, j)))"
  shows "arrived V pos t E g i h j s' n'"
proof -
  have ok: "node_ok V h j (nstate (t (Suc h, j))) (solo E pos h j) (delivered (threads g) E (h, 2 * j))
      (from_right (threads g) E pos h j) (E (Suc h, j) \<noteq> None) (nodes g (Suc h, j))"
    using inv h by (simp add: run_inv_def)
  have st: "even (nstate (t (Suc h, j)))" "0 \<le> nstate (t (Suc h, j))" "nstate (t (Suc h, j)) < 2 ^ 31 - 2"
    using env h by (simp_all add: run_env_def fresh_states_def)
  have thr: "case s of Some v \<Rightarrow> E (h, i div 2 ^ h) = Some i \<and> v = V h (i div 2 ^ h)
             | None \<Rightarrow> i = pos \<and> E (h, i div 2 ^ h) \<noteq> Some pos"
  proof -
    have "thread_ok V (bmtDepth conf) pos E i (Out (h, i div 2 ^ h) s)" using inv i by (metis run_inv_def T)
    then show ?thesis by (cases s) (auto simp: thread_ok_def)
  qed
  have np: "\<not> past (threads g) h i" using T by (simp add: past_def)
  have V: "V (Suc h) j = H (V h (2 * j) @ V h (2 * j + 1))" using env by (simp add: run_env_def)
  show ?thesis
  proof (cases "even (i div 2 ^ h)")
    case True
    then have "i div 2 ^ h = 2 * j" by (simp add: j half)
    moreover from this have "i = pos \<Longrightarrow> zerohashes conf ! Suc h = V h (2 * j + 1)" using env h by (simp add: run_env_def)
    ultimately show ?thesis by (rule arrived_left [where H = H and V = V and h = h and j = j and t = t and g = g and E = E and pos = pos and i = i, OF ok st thr np V w])
  next
    case False
    then have "i div 2 ^ h = 2 * j + 1" by (simp add: j half)
    moreover have "\<not> final_left pos h j" using final_path [OF i False] j by simp
    ultimately show ?thesis by (rule arrived_right [where H = H and V = V and h = h and j = j and t = t and g = g and E = E and pos = pos and i = i, OF ok st thr np V w])
  qed
qed

section \<open>Preservation\<close>

lemma run_inv_root:
  assumes inv: "run_inv V D pos t E g" and T: "threads g i = Out p s" and p: "fst p = D - 1" and i: "i \<le> pos"
    and pos: "pos < 2 ^ (D - 1)"
  shows "run_inv V D pos t E
    (g\<lparr>threads := (threads g)(i := Done), results := results g @ (case s of Some v \<Rightarrow> [v] | None \<Rightarrow> [])\<rparr>)"
proof -
  let ?T = "(threads g)(i := Done)"
  have thr: "thread_ok V D pos E i (Out p s)" using inv i T by (metis run_inv_def)
  then have root: "p = (D - 1, 0)" using p i pos by (cases p) (simp add: thread_ok_def)
  have c: "carriers_ok pos (threads g) E" using inv by (simp add: run_inv_def)
  have past: "past ?T h k = past (threads g) h k" if "h < D - 1" for h k
    using T p that by (simp add: past_def)
  have d: "delivered ?T E (h, j) = delivered (threads g) E (h, j)" if "h < D - 1" for h j
    using past that by (auto simp: delivered_def split: option.split)
  have r: "from_right ?T E pos h j = from_right (threads g) E pos h j" if "h < D - 1" for h j
    using past d that by (simp add: from_right_def)
  have "reached ?T h k" if "reached (threads g) h k" for h k using that by (simp add: reached_def)
  then have "carriers_ok pos ?T E" using c unfolding carriers_ok_def by blast
  moreover have "results g @ (case s of Some v \<Rightarrow> [v] | None \<Rightarrow> []) = (if delivered ?T E (D - 1, 0) then [V (D - 1) 0] else [])"
  proof -
    have "past (threads g) (D - 1) i = False" "past ?T (D - 1) k = (k = i \<or> past (threads g) (D - 1) k)" for k
      using T p by (simp_all add: past_def)
    then show ?thesis
      using inv thr root by (cases s) (auto simp: run_inv_def thread_ok_def delivered_def split: option.splits)
  qed
  ultimately show ?thesis using inv T d r by (auto simp: run_inv_def thread_ok_def)
qed

lemma run_inv_start:
  assumes inv: "run_inv V D pos t E g" and T: "threads g i = Start" and i: "i \<le> pos" and D: "0 < D"
  shows "run_inv V D pos t (E((0, i) \<mapsto> i)) (g\<lparr>threads := (threads g)(i := Out (0, i) (Some (V 0 i)))\<rparr>)"
proof -
  let ?T = "(threads g)(i := Out (0, i) (Some (V 0 i)))" and ?E = "E((0, i) \<mapsto> i)"
  have c: "carriers_ok pos (threads g) E" and e0: "E (0, i) = None" using inv T i by (auto simp: run_inv_def)
  have no: "E p \<noteq> Some i" for p 
    using c [unfolded carriers_ok_def, rule_format, of "fst p" "snd p" i] T by (auto simp: reached_def)
  have past: "past ?T h k = past (threads g) h k" for h k using T by (simp add: past_def)
  have d: "delivered ?T ?E p = delivered (threads g) E p" for p
    using past e0 T by (auto simp: delivered_def past_def split: option.split)
  have r: "from_right ?T ?E pos h j = from_right (threads g) E pos h j" for h j
    using past d by (simp add: from_right_def)
  have nodes: "node_ok V h j (nstate (t (Suc h, j))) (solo ?E pos h j) (delivered ?T ?E (h, 2 * j))
      (from_right ?T ?E pos h j) (?E (Suc h, j) \<noteq> None) (nodes g (Suc h, j))" if "Suc h < D" for h j
  proof (cases "solo ?E pos h j = solo E pos h j")
    case True
    then show ?thesis using inv that d r by (simp add: run_inv_def)
  next
    case False
    then have "h = 0" "i = pos" "2 * j = i" "final_left pos h j" using e0 by (auto simp: solo_def split: if_splits)
    then have "\<not> delivered (threads g) E (h, 2 * j)" "\<not> from_right (threads g) E pos h j"
      using e0 T by (simp_all add: delivered_def from_right_def past_def)
    then show ?thesis using inv that d r by (simp add: run_inv_def node_ok_def)
  qed
  have "thread_ok V D pos ?E k (?T k)" if "k \<le> pos" for k
  proof (cases "k = i")
    case False
    have "thread_ok V D pos E k (threads g k)" using inv that by (simp add: run_inv_def)
    then show ?thesis using False e0 by (auto simp: thread_ok_def split: thread.splits option.splits)
  qed (simp add: thread_ok_def D)
  moreover have "carriers_ok pos ?T ?E"
    unfolding carriers_ok_def
  proof (intro allI impI)
    fix h j k
    assume e: "?E (h, j) = Some k"
    show "k \<le> pos \<and> j = k div 2 ^ h \<and> reached ?T h k"
    proof (cases "(h, j) = (0, i)")
      case False
      then have "E (h, j) = Some k" "k \<noteq> i" using e no by auto
      then show ?thesis using c [unfolded carriers_ok_def, rule_format, of h j k] by (simp add: reached_def)
    qed (use e i in \<open>simp add: reached_def\<close>)
  qed
  ultimately show ?thesis using inv d nodes by (auto simp: run_inv_def)
qed

lemma run_inv_moves:
  assumes inv: "run_inv V D pos t E g" and m: "moves pos i h (threads g) ((threads g)(i := th)) E E'"
    and a: "arrived V pos t E g i h (i div 2 ^ Suc h) s' n'" and i: "i \<le> pos" and h: "Suc h < D"
    and E': "E' = next_carriers i (Suc h, i div 2 ^ Suc h) s' E" and th: "thread_ok V D pos E' i th"
  shows "run_inv V D pos t E' (g\<lparr>nodes := (nodes g)((Suc h, i div 2 ^ Suc h) := n'), threads := (threads g)(i := th)\<rparr>)"
proof -
  let ?j = "i div 2 ^ Suc h" and ?T = "(threads g)(i := th)"
  have c: "carriers_ok pos (threads g) E" using inv by (simp add: run_inv_def)
  have q: "s' = None \<or> E (Suc h, ?j) = None" using a by (cases s') (simp_all add: arrived_def)
  have "linked D ((nodes g)((Suc h, ?j) := n'))"
    using inv a by (auto simp: run_inv_def linked_def arrived_def)
  moreover have "thread_ok V D pos E' k (?T k)" if "k \<le> pos" for k
  proof (cases "k = i")
    case False
    have "thread_ok V D pos E k (threads g k)" using inv that by (simp add: run_inv_def)
    then show ?thesis using False q
      by (auto simp: thread_ok_def E' next_carriers_def split: thread.splits option.splits)
  qed (simp add: th)
  moreover have "carriers_ok pos ?T E'" by (rule moves_carriers_ok [OF m c i])
  moreover have "E' (0, k) \<noteq> None \<longleftrightarrow> ?T k \<noteq> Start" if "k \<le> pos" for k
  proof -
    have "E (0, k) \<noteq> None \<longleftrightarrow> threads g k \<noteq> Start" using inv that by (simp add: run_inv_def)
    then show ?thesis using moves_not_start [OF m] by (cases "k = i") (simp_all add: E' next_carriers_def)
  qed
  moreover have "node_ok V h' j (nstate (t (Suc h', j))) (solo E' pos h' j) (delivered ?T E' (h', 2 * j))
      (from_right ?T E' pos h' j) (E' (Suc h', j) \<noteq> None) (((nodes g)((Suc h, ?j) := n')) (Suc h', j))"
    if "Suc h' < D" for h' j
  proof (cases "(h', j) = (h, ?j)")
    case True
    have "solo E' pos h ?j = solo E pos h ?j" "E' (Suc h, ?j) \<noteq> None \<longleftrightarrow> s' \<noteq> None \<or> E (Suc h, ?j) \<noteq> None"
      by (auto simp: solo_def E' next_carriers_def)
    moreover have "from_right ?T E' pos h ?j = (if final_left pos h ?j then past (threads g) h pos \<or> i = pos
       else delivered (threads g) E (h, 2 * ?j + 1) \<or> 2 * ?j + 1 = i div 2 ^ h \<and> E (h, 2 * ?j + 1) = Some i)"
      by (simp add: from_right_def moves_delivered [OF m c] moves_past_final [OF m])
    moreover have "delivered ?T E' (h, 2 * ?j) \<longleftrightarrow>
        delivered (threads g) E (h, 2 * ?j) \<or> 2 * ?j = i div 2 ^ h \<and> E (h, 2 * ?j) = Some i"
      by (simp add: moves_delivered [OF m c])
    ultimately show ?thesis using True a unfolding arrived_def by (simp only: prod.inject fun_upd_same)
  next
    case False
    have "node_ok V h' j (nstate (t (Suc h', j))) (solo E pos h' j) (delivered (threads g) E (h', 2 * j))
      (from_right (threads g) E pos h' j) (E (Suc h', j) \<noteq> None) (nodes g (Suc h', j))"
      using inv that by (simp add: run_inv_def)
    from moves_other_node [OF m c False this] show ?thesis using False by auto
  qed
  moreover have "delivered ?T E' (D - 1, 0) = delivered (threads g) E (D - 1, 0)"
    using h by (auto simp: moves_delivered [OF m c])
  ultimately show ?thesis using inv by (simp add: run_inv_def)
qed

lemma run_inv_node:
  assumes env: "run_env H conf buf pos V t" and inv: "run_inv V (bmtDepth conf) pos t E g"
    and T: "threads g i = Out (h, i div 2 ^ h) s" and i: "i \<le> pos" and h: "Suc h < bmtDepth conf"
  shows "\<exists>E'. run_inv V (bmtDepth conf) pos t E' (thread_step H conf buf pos i g)"
proof -
  let ?j = "i div 2 ^ Suc h" and ?D = "bmtDepth conf"
  let ?q = "(Suc h, ?j)"
  obtain s' n' where w: "(s', n') =
      (if i = pos then writeFinalNode H (zerohashes conf ! Suc h) (even (i div 2 ^ h)) s (nodes g ?q)
       else writeNode H (even (i div 2 ^ h)) (the s) (nodes g ?q))"
    by (metis prod.exhaust)
  have a: "arrived V pos t E g i h ?j s' n'" by (rule arrival [OF env inv T i h refl w])
  define th where "th = next_thread pos i ?q s'"
  define E' where "E' = next_carriers i ?q s' E"
  have c: "carriers_ok pos (threads g) E" using inv by (simp add: run_inv_def)
  have m: "moves pos i h (threads g) ((threads g)(i := th)) E E'"
    unfolding th_def E'_def by (rule outcome_moves [where T = "threads g", OF T]) (use a in \<open>simp add: arrived_def\<close>)
  have th: "thread_ok V ?D pos E' i th"
    unfolding th_def E'_def by (rule outcome_thread_ok [where T = "threads g", OF T c h]) (use a in \<open>simp add: arrived_def\<close>)
  have step: "thread_step H conf buf pos i g = g\<lparr>nodes := (nodes g)(?q := n'), threads := (threads g)(i := th)\<rparr>"
    unfolding th_def
  proof (rule step_into_node [OF _ T h _ refl _ w])
    show "linked ?D (nodes g)" using inv by (simp add: run_inv_def)
    show "i < 2 ^ (?D - 1)" using env i by (simp add: run_env_def)
    have "thread_ok V ?D pos E i (Out (h, i div 2 ^ h) s)" using inv i by (metis run_inv_def T)
    then show "s = None \<Longrightarrow> i = pos" by (simp add: thread_ok_def)
  qed
  have "run_inv V ?D pos t E' (g\<lparr>nodes := (nodes g)(?q := n'), threads := (threads g)(i := th)\<rparr>)"
    by (rule run_inv_moves [OF inv m a i h E'_def th])
  then show ?thesis unfolding step by blast
qed

lemma run_inv_step:
  assumes env: "run_env H conf buf pos V t" and inv: "run_inv V (bmtDepth conf) pos t E g" and i: "i \<le> pos"
  shows "\<exists>E'. run_inv V (bmtDepth conf) pos t E' (thread_step H conf buf pos i g)"
proof (cases "threads g i")
  case Start
  moreover have "V 0 i = H (section_of conf buf i)" "0 < bmtDepth conf" using env i by (simp_all add: run_env_def)
  ultimately show ?thesis using run_inv_start [OF inv Start i] by (auto simp: thread_step_def)
next
  case (Out p s)
  have thr: "thread_ok V (bmtDepth conf) pos E i (Out p s)" using inv i Out by (metis run_inv_def)
  obtain h where p: "p = (h, i div 2 ^ h)" "h < bmtDepth conf" using thr by (cases p) (simp add: thread_ok_def)
  show ?thesis
  proof (cases "Suc h = bmtDepth conf")
    case True
    then have D: "h = bmtDepth conf - 1" by simp
    have pos: "pos < 2 ^ (bmtDepth conf - 1)" using env by (simp add: run_env_def)
    then have "i div 2 ^ h = 0" using D i by simp
    then have "parent (nodes g p) = None" using inv True p by (simp add: run_inv_def linked_def)
    then have "thread_step H conf buf pos i g =
        g\<lparr>threads := (threads g)(i := Done), results := results g @ (case s of Some v \<Rightarrow> [v] | None \<Rightarrow> [])\<rparr>"
      using Out by (simp add: thread_step_def)
    then show ?thesis using run_inv_root [OF inv Out _ i pos] p D by auto
  next
    case False
    then show ?thesis using run_inv_node [OF env inv _ i, of h s] Out p by simp
  qed
qed (use inv in \<open>auto simp: thread_step_def\<close>)

lemma run_inv_run:
  assumes env: "run_env H conf buf pos V t" and "run_inv V (bmtDepth conf) pos t E g" and "\<And>i. i \<in> set sched \<Longrightarrow> i \<le> pos"
  shows "\<exists>E'. run_inv V (bmtDepth conf) pos t E' (run_threads H conf buf pos sched g)"
  using assms(2,3)
proof (induction sched arbitrary: E g)
  case (Cons i sched)
  then obtain E' where "run_inv V (bmtDepth conf) pos t E' (thread_step H conf buf pos i g)"
    using run_inv_step [OF env Cons.prems(1), of i] by auto
  then show ?case using Cons by (simp add: run_threads_def)
qed (auto simp: run_threads_def)

definition start_state :: "nat \<Rightarrow> tree \<Rightarrow> conc" where
  "start_state pos t = \<lparr>nodes = t, threads = (\<lambda>i. if i \<le> pos then Start else Done), results = []\<rparr>"

lemma run_inv_init: "linked D t \<Longrightarrow> run_inv V D pos t (\<lambda>_. None) (start_state pos t)"
  by (auto simp: run_inv_def start_state_def thread_ok_def carriers_ok_def delivered_def from_right_def past_def
      solo_def node_ok_def)

section \<open>The end of a run\<close>

text \<open>A result means that every node on and before the final path has been delivered to its parent.\<close>

lemma result_delivered:
  assumes inv: "run_inv V D pos t E g" and r: "results g \<noteq> []" and pos: "pos < 2 ^ (D - 1)"
  shows "h < D \<Longrightarrow> j \<le> pos div 2 ^ h \<Longrightarrow> delivered (threads g) E (h, j)"
proof (induction "D - 1 - h" arbitrary: h j)
  case 0
  then have "h = D - 1" by simp
  moreover from this have "j = 0" using 0 pos by simp
  ultimately show ?case using inv r by (auto simp: run_inv_def split: if_splits)
next
  case (Suc k)
  then have h: "Suc h < D" by simp
  have "j div 2 \<le> pos div 2 ^ Suc h" using Suc.prems(2) by (simp add: half div_le_mono)
  moreover have "k = D - 1 - Suc h" using Suc.hyps(2) by linarith
  ultimately have "delivered (threads g) E (Suc h, j div 2)" using Suc.hyps(1) h by blast
  then have "E (Suc h, j div 2) \<noteq> None" by (rule delivered_carrier)
  then have lr: "delivered (threads g) E (h, 2 * (j div 2))" "from_right (threads g) E pos h (j div 2)"
    using inv h by (auto simp: run_inv_def node_ok_def)
  show ?case
  proof (cases "even j")
    case True
    then show ?thesis using lr(1) by simp
  next
    case False
    then have "\<not> final_left pos h (j div 2)" using Suc.prems(2) by (auto simp: final_left_def elim: oddE)
    then show ?thesis using lr(2) False by (simp add: from_right_def)
  qed
qed

lemma result_states:
  assumes inv: "run_inv V D pos t E g" and r: "results g \<noteq> []" and pos: "pos < 2 ^ (D - 1)" and h: "Suc h < D"
  shows "nstate (nodes g (Suc h, j)) \<in> {nstate (t (Suc h, j)), nstate (t (Suc h, j)) + 2}"
proof -
  have ok: "node_ok V h j (nstate (t (Suc h, j))) (solo E pos h j) (delivered (threads g) E (h, 2 * j))
      (from_right (threads g) E pos h j) (E (Suc h, j) \<noteq> None) (nodes g (Suc h, j))"
    using inv h by (simp add: run_inv_def)
  show ?thesis
  proof (cases "j \<le> pos div 2 ^ Suc h")
    case True
    then have "E (Suc h, j) \<noteq> None" using result_delivered [OF inv r pos h] by (metis delivered_carrier)
    then show ?thesis using ok by (auto simp: node_ok_def)
  next
    case False
    then have big: "pos div 2 ^ h < 2 * j" by (simp add: half)
    have no: "E (h, c) = None" if "pos div 2 ^ h < c" for c
    proof (rule ccontr)
      assume "E (h, c) \<noteq> None"
      then obtain i where "E (h, c) = Some i" by blast
      moreover have "carriers_ok pos (threads g) E" using inv by (simp add: run_inv_def)
      ultimately have "i \<le> pos" "c = i div 2 ^ h" unfolding carriers_ok_def by blast+
      then show False using that div_le_mono [of i pos "2 ^ h"] by simp
    qed
    have "\<not> delivered (threads g) E (h, 2 * j)" "\<not> from_right (threads g) E pos h j"
      using no [of "2 * j"] no [of "2 * j + 1"] big by (simp_all add: delivered_def from_right_def final_left_def)
    then show ?thesis using ok by (simp add: node_ok_def)
  qed
qed

lemma all_done_result:
  assumes inv: "run_inv V D pos t E g" and fin: "\<And>i. i \<le> pos \<Longrightarrow> threads g i = Done" and D: "0 < D"
  shows "results g = [V (D - 1) 0]"
proof -
  have past: "past (threads g) h i" if "i \<le> pos" for h i using fin that by (simp add: past_def)
  have del: "delivered (threads g) E (h, j)" if "E (h, j) \<noteq> None" for h j
    using inv that past by (auto simp: run_inv_def carriers_ok_def delivered_def)
  have "E (h, j) \<noteq> None" if "h < D" "j \<le> pos div 2 ^ h" for h j
    using that
  proof (induction h arbitrary: j)
    case 0
    then show ?case using inv fin by (simp add: run_inv_def)
  next
    case (Suc h)
    have l: "delivered (threads g) E (h, 2 * j)"
      using del Suc.IH [of "2 * j"] Suc.prems by (simp add: half)
    have r: "from_right (threads g) E pos h j"
    proof (cases "final_left pos h j")
      case False
      then have "2 * j + 1 \<le> pos div 2 ^ h" using Suc.prems(2) by (simp add: final_left_def half)
      then show ?thesis using False del Suc.IH [of "2 * j + 1"] Suc.prems by (simp add: from_right_def)
    qed (simp add: from_right_def past)
    show ?case using inv Suc.prems(1) l r by (auto simp: run_inv_def node_ok_def)
  qed
  then have "E (D - 1, 0) \<noteq> None" using D by simp
  then show ?thesis using inv del by (simp add: run_inv_def)
qed

text \<open>Every step of a goroutine takes it one node up, so it ends after at most \<open>D + 1\<close> steps.\<close>

definition rank :: "nat \<Rightarrow> thread \<Rightarrow> nat" where
  "rank D th = (case th of Start \<Rightarrow> 0 | Out p _ \<Rightarrow> Suc (fst p) | Done \<Rightarrow> Suc D)"

lemma step_rank:
  assumes env: "run_env H conf buf pos V t" and inv: "run_inv V (bmtDepth conf) pos t E g" and i: "i \<le> pos"
  shows "rank (bmtDepth conf) (threads (thread_step H conf buf pos i g) k) \<ge>
           (if k = i then min (Suc (bmtDepth conf)) (Suc (rank (bmtDepth conf) (threads g k)))
            else rank (bmtDepth conf) (threads g k))"
proof (cases "k = i \<and> (\<exists>p s. threads g i = Out p s)")
  case True
  then obtain p s where o: "threads g i = Out p s" by blast
  have "thread_ok V (bmtDepth conf) pos E i (Out p s)" using inv i o by (metis run_inv_def)
  then obtain h where p: "p = (h, i div 2 ^ h)" "h < bmtDepth conf" by (cases p) (simp add: thread_ok_def)
  have "i div 2 ^ h < 2 ^ (bmtDepth conf - 1 - h)"
    using env i p(2) by (simp add: run_env_def div_less_iff_less_mult flip: power_add)
  then have "parent (nodes g p) = None \<or> parent (nodes g p) = Some (Suc h, i div 2 ^ h div 2)"
    using inv p by (simp add: run_inv_def linked_def)
  then show ?thesis
    using True o p by (auto simp: thread_step_def rank_def split: option.split prod.split)
next
  case False
  then show ?thesis
    by (cases "threads g i") (auto simp: thread_step_def rank_def Let_def split: option.split prod.split if_splits)
qed

lemma fair_done:
  assumes env: "run_env H conf buf pos V t" and inv: "run_inv V (bmtDepth conf) pos t E g"
    and "\<And>i. i \<in> set sched \<Longrightarrow> i \<le> pos"
  shows "min (Suc (bmtDepth conf)) (rank (bmtDepth conf) (threads g k) + count_list sched k)
    \<le> rank (bmtDepth conf) (threads (run_threads H conf buf pos sched g) k)"
  using inv assms(3)
proof (induction sched arbitrary: E g)
  case (Cons i sched)
  obtain E' where "run_inv V (bmtDepth conf) pos t E' (thread_step H conf buf pos i g)"
    using run_inv_step [OF env Cons.prems(1)] Cons.prems(2) by auto
  from Cons.IH [OF this] step_rank [OF env Cons.prems(1), of i k] Cons.prems(2)
  show ?case by (auto simp: run_threads_def split: if_splits)
qed (simp add: run_threads_def)

section \<open>Writing the data\<close>

fun Writes :: "bmt_conf \<Rightarrow> bytes list \<Rightarrow> hasher \<Rightarrow> nat list \<times> hasher" where
  "Writes conf [] h = ([], h)"
| "Writes conf (b # bs) h =
     (case Hasher_Write conf b h of
        (l, started, h1) \<Rightarrow> (case Writes conf bs h1 of (rest, h2) \<Rightarrow> (started @ rest, h2)))"

text \<open>The buffer holds the data up to the size, and the open section is the one that the size is in.\<close>

definition written :: "bmt_conf \<Rightarrow> bytes \<Rightarrow> hasher \<Rightarrow> bool" where
  "written conf data h \<longleftrightarrow>
     length (buffer h) = maxSize conf \<and> hsize h = min (length data) (maxSize conf) \<and>
     (\<forall>k<hsize h. buffer h ! k = data ! k) \<and>
     hpos h = (if hsize h = maxSize conf then maxSize conf div (2 * segmentSize conf) - 1
               else hsize h div (2 * segmentSize conf))"

lemma length_copy_at [simp]: "length (copy_at i src dst) = length dst"
  by (auto simp: copy_at_def min_def)

lemma nth_copy_at:
  "i \<le> length dst \<Longrightarrow> k < length dst \<Longrightarrow>
   copy_at i src dst ! k = (if i \<le> k \<and> k < i + length src then src ! (k - i) else dst ! k)"
  by (auto simp: copy_at_def nth_append min_def)

lemma Write_written:
  assumes w: "written conf data h" and b: "Hasher_Write conf b h = (l, started, h')"
    and dvd: "2 * segmentSize conf dvd maxSize conf" and seg: "0 < segmentSize conf"
  shows "written conf (data @ b) h'" and "started = [hpos h..<hpos h']" and "hpos h \<le> hpos h'" and "span h' = span h"
proof -
  let ?m = "maxSize conf - hsize h"
  have le: "hsize h \<le> maxSize conf" using w by (simp add: written_def)
  have h': "hsize h' = hsize h + min (length b) ?m" "buffer h' = copy_at (hsize h) b (buffer h)"
    "hpos h' = (if hsize h' = maxSize conf then hsize h' div (2 * segmentSize conf) - 1 else hsize h' div (2 * segmentSize conf))"
    "started = [hsize h div (2 * segmentSize conf)..<hpos h']" "span h' = span h"
    using b le by (auto simp: Hasher_Write_def Let_def min_def split: if_splits)
  show "span h' = span h" by (rule h'(5))
  show mono: "hpos h \<le> hpos h'"
  proof (cases "hsize h = maxSize conf")
    case False
    then have "hsize h div (2 * segmentSize conf) < maxSize conf div (2 * segmentSize conf)"
      using le dvd seg by (auto elim!: dvdE intro!: less_mult_imp_div_less simp: mult.commute)
    moreover have "hsize h div (2 * segmentSize conf) \<le> hsize h' div (2 * segmentSize conf)"
      using h'(1) by (simp add: div_le_mono)
    moreover have "hpos h = hsize h div (2 * segmentSize conf)" using False w by (simp add: written_def)
    ultimately show ?thesis using h'(3) by auto
  qed (use w h'(1,3) in \<open>simp add: written_def\<close>)
  show "started = [hpos h..<hpos h']"
  proof (cases "hsize h = maxSize conf")
    case True
    then have "hpos h' = maxSize conf div (2 * segmentSize conf) - 1" "hpos h = hpos h'"
      using w h'(1,3) by (simp_all add: written_def)
    then show ?thesis using True h'(4) by simp
  next
    case False
    then have "hpos h = hsize h div (2 * segmentSize conf)" using w by (simp add: written_def)
    then show ?thesis using h'(4) by simp
  qed
  show "written conf (data @ b) h'"
    using w le h'(1-3) unfolding written_def by (auto simp: nth_copy_at nth_append min_def)
qed

lemma Writes_written:
  assumes "written conf data h" and "Writes conf bs h = (started, h')"
    and "2 * segmentSize conf dvd maxSize conf" and "0 < segmentSize conf"
  shows "written conf (data @ concat bs) h' \<and> started = [hpos h..<hpos h'] \<and> hpos h \<le> hpos h' \<and> span h' = span h"
  using assms(1,2)
proof (induction bs arbitrary: data h started h')
  case (Cons b bs)
  obtain l s1 h1 s2 where b: "Hasher_Write conf b h = (l, s1, h1)" "Writes conf bs h1 = (s2, h')" "started = s1 @ s2"
    using Cons.prems(2) by (auto split: prod.splits)
  note w = Write_written [OF Cons.prems(1) b(1) assms(3,4)]
  note i = Cons.IH [OF w(1) b(2)]
  have "[hpos h..<hpos h1] @ [hpos h1..<hpos h'] = [hpos h..<hpos h']"
    using w(3) i upt_add_eq_append [of "hpos h" "hpos h1" "hpos h' - hpos h1"] by simp
  then show ?case using i w(2-) by (simp add: b(3))
qed simp

text \<open>What a goroutine started by \<open>Write\<close> reads is not changed by the writes that follow, nor by the padding.\<close>

lemma section_eqI:
  assumes "length xs = length ys"
    and "\<And>k. i * (2 * segmentSize conf) \<le> k \<Longrightarrow> k < Suc i * (2 * segmentSize conf) \<Longrightarrow> k < length xs \<Longrightarrow> xs ! k = ys ! k"
  shows "section_of conf xs i = section_of conf ys i"
  unfolding section_of_def
proof (rule nth_equalityI)
  fix k
  assume "k < length (take (2 * segmentSize conf) (drop (i * (2 * segmentSize conf)) xs))"
  then have "k < 2 * segmentSize conf" "i * (2 * segmentSize conf) + k < length xs" by (simp_all only: length_take length_drop)
  then show "take (2 * segmentSize conf) (drop (i * (2 * segmentSize conf)) xs) ! k =
      take (2 * segmentSize conf) (drop (i * (2 * segmentSize conf)) ys) ! k"
    using assms(1) assms(2) [of "i * (2 * segmentSize conf) + k"] by simp
qed (simp add: assms(1))

lemma pos_size:
  assumes "written conf data h" and "2 * segmentSize conf dvd maxSize conf" and "0 < segmentSize conf" "0 < maxSize conf"
  shows "hpos h * (2 * segmentSize conf) \<le> hsize h" "hsize h \<le> Suc (hpos h) * (2 * segmentSize conf)"
    "Suc (hpos h) * (2 * segmentSize conf) \<le> maxSize conf"
proof -
  obtain n where n: "maxSize conf = n * (2 * segmentSize conf)" "0 < n"
    using assms(2,4) by (auto elim!: dvdE simp: mult.commute)
  have "hpos h * (2 * segmentSize conf) \<le> hsize h \<and> hsize h \<le> Suc (hpos h) * (2 * segmentSize conf) \<and> hpos h < n"
  proof (cases "hsize h = maxSize conf")
    case True
    then have "hpos h = n - 1" using assms(1,3) n by (simp add: written_def)
    then show ?thesis using True n by (cases n) simp_all
  next
    case False
    then have p: "hpos h = hsize h div (2 * segmentSize conf)" "hsize h < maxSize conf"
      using assms(1) by (auto simp: written_def)
    have "hsize h mod (2 * segmentSize conf) \<le> 2 * segmentSize conf" using assms(3) by (simp add: less_imp_le)
    then have "hsize h \<le> Suc (hpos h) * (2 * segmentSize conf)"
      using div_mult_mod_eq [of "hsize h" "2 * segmentSize conf"] unfolding p(1) mult_Suc by linarith
    moreover have "hpos h * (2 * segmentSize conf) \<le> hsize h" unfolding p(1) by (rule div_times_less_eq_dividend)
    moreover have "hpos h < n" using p n(1) by (simp add: less_mult_imp_div_less)
    ultimately show ?thesis by blast
  qed
  moreover from this have "Suc (hpos h) * (2 * segmentSize conf) \<le> n * (2 * segmentSize conf)" by (intro mult_le_mono1) simp
  ultimately show "hpos h * (2 * segmentSize conf) \<le> hsize h" "hsize h \<le> Suc (hpos h) * (2 * segmentSize conf)"
    "Suc (hpos h) * (2 * segmentSize conf) \<le> maxSize conf"
    using n by auto
qed

lemma section_copy_at:
  assumes "i < hpos h" and w: "written conf data h"
    and "2 * segmentSize conf dvd maxSize conf" and "0 < segmentSize conf" "0 < maxSize conf"
  shows "section_of conf (copy_at (hsize h) src (buffer h)) i = section_of conf (buffer h) i"
proof (rule section_eqI)
  fix k
  assume k: "k < Suc i * (2 * segmentSize conf)" "k < length (copy_at (hsize h) src (buffer h))"
  have "Suc i * (2 * segmentSize conf) \<le> hpos h * (2 * segmentSize conf)" using assms(1) by (intro mult_le_mono1) simp
  then have "k < hsize h" using k pos_size(1) [OF assms(2-)] by linarith
  moreover have "hsize h \<le> length (buffer h)" using w by (simp add: written_def)
  ultimately show "copy_at (hsize h) src (buffer h) ! k = buffer h ! k" using k by (simp add: nth_copy_at)
qed simp

text \<open>The sections that the goroutines hash are those of the padded data.\<close>

definition padded :: "bmt_conf \<Rightarrow> bytes \<Rightarrow> bytes" where
  "padded conf data = take (maxSize conf) data @ replicate (maxSize conf - length data) 0"

lemma length_padded [simp]: "length (padded conf data) = maxSize conf"
  by (simp add: padded_def)

lemma nth_padded: "k < maxSize conf \<Longrightarrow> padded conf data ! k = (if k < length data then data ! k else 0)"
  by (simp add: padded_def nth_append min_def)

lemma section_padded:
  assumes w: "written conf data h" and i: "i \<le> hpos h"
    and d: "2 * segmentSize conf dvd maxSize conf" "0 < segmentSize conf" "0 < maxSize conf" and s: "segmentSize conf \<le> 32"
  shows "section_of conf (copy_at (hsize h) zerosection (buffer h)) i = section_of conf (padded conf data) i"
proof (rule section_eqI)
  fix k
  assume k: "k < Suc i * (2 * segmentSize conf)" "k < length (copy_at (hsize h) zerosection (buffer h))"
  have "Suc i * (2 * segmentSize conf) \<le> Suc (hpos h) * (2 * segmentSize conf)" using i by (intro mult_le_mono1) simp
  then have "k < hsize h + 64" using k(1) pos_size(1) [OF w d] s unfolding mult_Suc by linarith
  then show "copy_at (hsize h) zerosection (buffer h) ! k = padded conf data ! k"
    using w k(2) by (auto simp: nth_copy_at nth_padded written_def zerosection_def)
qed (use w in \<open>simp add: written_def\<close>)

lemma section_zero:
  assumes w: "written conf data h" and i: "hpos h < i" and m: "maxSize conf = n * (2 * segmentSize conf)" "i < n"
    and d: "0 < segmentSize conf"
  shows "section_of conf (padded conf data) i = replicate (segmentSize conf) 0 @ replicate (segmentSize conf) 0"
proof -
  have mx: "2 * segmentSize conf dvd maxSize conf" "0 < maxSize conf" using m d by auto
  have "Suc i * (2 * segmentSize conf) \<le> n * (2 * segmentSize conf)" using m(2) by (intro mult_le_mono1) simp
  then have len: "i * (2 * segmentSize conf) + 2 * segmentSize conf \<le> maxSize conf" using m(1) by simp
  have "Suc (hpos h) * (2 * segmentSize conf) \<le> i * (2 * segmentSize conf)" using i by (intro mult_le_mono1) simp
  then have "hsize h \<le> i * (2 * segmentSize conf)" using pos_size(2) [OF w mx(1) d mx(2)] by simp
  then have z: "padded conf data ! (i * (2 * segmentSize conf) + k) = 0" if "k < 2 * segmentSize conf" for k
    using len that w by (auto simp: nth_padded written_def)
  have "section_of conf (padded conf data) i = replicate (2 * segmentSize conf) 0"
    unfolding section_of_def by (rule nth_equalityI) (use len z in auto)
  then show ?thesis by (simp add: mult_2 replicate_add)
qed

section \<open>The hash of the written data\<close>

definition bmt_leaf :: "bmt_conf \<Rightarrow> bytes \<Rightarrow> nat \<Rightarrow> bytes" where
  "bmt_leaf conf data = section_of conf (padded conf data)"

lemma reference_hash:
  assumes "0 < seg"
  shows "RefHasher_Hash H (NewRefHasher seg n) data =
    Some (tree_hash H (bmt_leaf (NewConf H seg n) data) (bmtDepth (NewConf H seg n) - 1) 0)"
proof -
  obtain D where D: "snd (size_loop n 0) = Suc D" using size_loop_params [of n 0] by (cases "snd (size_loop n 0)") auto
  let ?d = "padded (NewConf H seg n) data"
  have m: "2 * 2 ^ D * seg = 2 * seg * 2 ^ D" by simp
  have "RefHasher_Hash H (NewRefHasher seg n) data = ref_hash H (2 * seg) ?d (2 * seg * 2 ^ D)"
    using size_loop_params [of n 0] D
    by (simp add: RefHasher_Hash_def NewRefHasher_def Let_def padded_def min_def) (simp add: m)
  also have "\<dots> = Some (tree_hash H (\<lambda>i. take (2 * seg) (drop (i * (2 * seg)) ?d)) D 0)"
    using assms D by (intro ref_hash_tree) simp_all
  finally show ?thesis using D by (simp add: bmt_leaf_def section_of_def [abs_def])
qed

lemma written_env:
  fixes H :: "bytes \<Rightarrow> bytes" and seg n :: nat
  defines "conf \<equiv> NewConf H seg n"
  assumes w: "written conf data h" and seg: "0 < seg" "seg \<le> 32" and fresh: "fresh_states (bmtDepth conf) t"
  shows "run_env H conf (copy_at (hsize h) zerosection (buffer h)) (hpos h) (tree_hash H (bmt_leaf conf data)) t"
proof -
  obtain D where D: "snd (size_loop n 0) = Suc D" using size_loop_params [of n 0] by (cases "snd (size_loop n 0)") auto
  have c: "bmtDepth conf = Suc D" "segmentSize conf = seg" "maxSize conf = 2 ^ D * (2 * segmentSize conf)"
    "zerohashes conf = replicate seg 0 # zero_table H (Suc D) (replicate seg 0)"
    by (simp_all add: conf_def D)
  have d: "2 * segmentSize conf dvd maxSize conf" "0 < segmentSize conf" "0 < maxSize conf" "segmentSize conf \<le> 32"
    using seg by (simp_all add: c(2,3))
  have "Suc (hpos h) * (2 * segmentSize conf) \<le> 2 ^ D * (2 * segmentSize conf)"
    using pos_size(3) [OF w d(1-3)] c(3) by simp
  then have pos: "hpos h < 2 ^ D" using d(2) unfolding mult_le_cancel2 by simp
  have zero: "zerohashes conf ! Suc k = tree_hash H (bmt_leaf conf data) k (Suc (hpos h div 2 ^ k))"
    if k: "k < D" "even (hpos h div 2 ^ k)" for k
  proof -
    let ?j = "Suc (hpos h div 2 ^ k)"
    have "hpos h div 2 ^ k < 2 ^ (D - k)" using pos k(1) by (simp add: div_less_iff_less_mult flip: power_add)
    moreover obtain a :: nat where "2 ^ (D - k) = 2 * a" using k(1) by (cases "D - k") auto
    ultimately have "Suc ?j \<le> 2 ^ (D - k)" using k(2) by (auto elim!: evenE)
    then have "Suc ?j * 2 ^ k \<le> 2 ^ (D - k) * 2 ^ k" by (rule mult_le_mono1)
    then have top: "Suc ?j * 2 ^ k \<le> 2 ^ D" using k(1) by (simp flip: power_add)
    have "tree_hash H (bmt_leaf conf data) k ?j = tree_hash H (\<lambda>_. replicate seg 0 @ replicate seg 0) k ?j"
    proof (rule tree_hash_cong)
      fix i :: nat
      assume i: "?j * 2 ^ k \<le> i" "i < Suc ?j * 2 ^ k"
      have "hpos h < ?j * 2 ^ k" using dividend_less_div_times [of "2 ^ k" "hpos h"] by simp
      then have "hpos h < i" "i < 2 ^ D" using i top by linarith+
      then show "bmt_leaf conf data i = replicate seg 0 @ replicate seg 0"
        using section_zero [OF w _ c(3) _ d(2)] by (simp add: bmt_leaf_def c(2))
    qed
    moreover have "zerohashes conf ! Suc k = tree_hash H (\<lambda>_. replicate seg 0 @ replicate seg 0) k ?j"
      using k(1) by (simp add: c(4) zero_table_nth del: zero_table.simps)
    ultimately show ?thesis by simp
  qed
  show ?thesis
    using fresh pos zero section_padded [OF w _ d] by (simp add: run_env_def c(1) bmt_leaf_def)
qed

text \<open>The result of \<open>Hash\<close> under a schedule, in the terms of the tree of hashes.\<close>

lemma Hash_empty:
  fixes H :: "bytes \<Rightarrow> bytes" and seg n :: nat
  defines "conf \<equiv> NewConf H seg n"
  assumes "0 < seg"
  shows "zerohashes conf ! bmtDepth conf = tree_hash H (bmt_leaf conf []) (bmtDepth conf - 1) 0"
proof -
  obtain D where D: "snd (size_loop n 0) = Suc D" using size_loop_params [of n 0] by (cases "snd (size_loop n 0)") auto
  have c: "bmtDepth conf = Suc D" "segmentSize conf = seg" "maxSize conf = 2 ^ D * (2 * seg)"
    "zerohashes conf = replicate seg 0 # zero_table H (Suc D) (replicate seg 0)"
    by (simp_all add: conf_def D)
  have "tree_hash H (bmt_leaf conf []) D 0 = tree_hash H (\<lambda>_. replicate seg 0 @ replicate seg 0) D 0"
  proof (rule tree_hash_cong)
    fix i :: nat
    assume "i < Suc 0 * 2 ^ D"
    then have "Suc i * (2 * seg) \<le> 2 ^ D * (2 * seg)" by (intro mult_le_mono1) simp
    then have "2 * seg \<le> 2 ^ D * (2 * seg) - i * (2 * seg)" by simp
    then show "bmt_leaf conf [] i = replicate seg 0 @ replicate seg 0"
      by (simp add: bmt_leaf_def section_of_def padded_def c(2,3) mult_2 flip: replicate_add)
  qed
  then show ?thesis by (simp add: c(1,4) zero_table_nth del: zero_table.simps)
qed

lemma fair_result:
  assumes env: "run_env H conf buf pos V t" and init: "run_inv V (bmtDepth conf) pos t E0 g0"
    and sched: "\<And>i. i \<in> set sched \<Longrightarrow> i \<le> pos" and fair: "\<And>i. i \<le> pos \<Longrightarrow> bmtDepth conf < count_list sched i"
  shows "results (run_threads H conf buf pos sched g0) \<noteq> []"
proof -
  let ?g = "run_threads H conf buf pos sched g0" and ?D = "bmtDepth conf"
  obtain E where inv: "run_inv V ?D pos t E ?g" using run_inv_run [OF env init sched] by auto
  have "threads ?g i = Done" if i: "i \<le> pos" for i
  proof -
    have "thread_ok V ?D pos E i (threads ?g i)" using inv i by (simp add: run_inv_def)
    moreover have "Suc ?D \<le> rank ?D (threads ?g i)"
      using fair_done [OF env init sched, of sched i] fair [OF i] by (simp add: min_def split: if_splits)
    ultimately show ?thesis by (auto simp: rank_def thread_ok_def split: thread.splits)
  qed
  then show ?thesis using all_done_result [OF inv] env by (simp add: run_env_def)
qed

lemma Hash_schedule:
  fixes H :: "bytes \<Rightarrow> bytes" and seg n :: nat
  defines "conf \<equiv> NewConf H seg n"
  assumes w: "written conf data h" and seg: "0 < seg" "seg \<le> 32"
    and t: "linked (bmtDepth conf) t" "fresh_states (bmtDepth conf) t" and sched: "set sched \<subseteq> {..hpos h}"
    and hash: "Hasher_Hash H conf sched t h = (r, t')"
  shows "r = None \<or> r = Some (H (span h @ tree_hash H (bmt_leaf conf data) (bmtDepth conf - 1) 0))"
    and "(\<And>i. i \<le> hpos h \<Longrightarrow> bmtDepth conf < count_list sched i) \<Longrightarrow> r \<noteq> None"
    and "r \<noteq> None \<Longrightarrow> linked (bmtDepth conf) t' \<and>
      (\<forall>k j. Suc k < bmtDepth conf \<longrightarrow> nstate (t' (Suc k, j)) \<in> {nstate (t (Suc k, j)), nstate (t (Suc k, j)) + 2})"
proof (atomize (full), cases "hsize h = 0")
  case True
  have "0 < maxSize conf" using seg(1) by (simp add: conf_def)
  then have "data = []" using True w by (auto simp: written_def min_def split: if_splits)
  then have "r = Some (H (span h @ tree_hash H (bmt_leaf conf data) (bmtDepth conf - 1) 0))" "t' = t"
    using hash True Hash_empty [OF seg(1), of H n] by (simp_all add: Hasher_Hash_def conf_def)
  then show "(r = None \<or> r = Some (H (span h @ tree_hash H (bmt_leaf conf data) (bmtDepth conf - 1) 0))) \<and>
    ((\<forall>i. i \<le> hpos h \<longrightarrow> bmtDepth conf < count_list sched i) \<longrightarrow> r \<noteq> None) \<and>
    (r \<noteq> None \<longrightarrow> linked (bmtDepth conf) t' \<and>
      (\<forall>k j. Suc k < bmtDepth conf \<longrightarrow> nstate (t' (Suc k, j)) \<in> {nstate (t (Suc k, j)), nstate (t (Suc k, j)) + 2}))"
    using t(1) by simp
next
  case False
  let ?buf = "copy_at (hsize h) zerosection (buffer h)" and ?V = "tree_hash H (bmt_leaf conf data)"
  define g where "g = run_threads H conf ?buf (hpos h) sched (start_state (hpos h) t)"
  have r: "r = (case results g of [] \<Rightarrow> None | v # _ \<Rightarrow> Some (H (span h @ v)))" "t' = nodes g"
    using hash False by (simp_all add: Hasher_Hash_def Let_def g_def start_state_def)
  have env: "run_env H conf ?buf (hpos h) ?V t"
    using written_env [OF w [unfolded conf_def] seg t(2) [unfolded conf_def]] by (simp add: conf_def)
  then have D: "0 < bmtDepth conf" "hpos h < 2 ^ (bmtDepth conf - 1)" by (simp_all add: run_env_def)
  note init = run_inv_init [OF t(1), of ?V "hpos h"]
  have sub: "i \<le> hpos h" if "i \<in> set sched" for i using sched that by auto
  obtain E where inv: "run_inv ?V (bmtDepth conf) (hpos h) t E g"
    using run_inv_run [OF env init sub] by (auto simp: g_def)
  have res: "results g = [] \<or> results g = [?V (bmtDepth conf - 1) 0]" using inv by (simp add: run_inv_def)
  have fair: "(\<forall>i. i \<le> hpos h \<longrightarrow> bmtDepth conf < count_list sched i) \<longrightarrow> results g \<noteq> []"
    using fair_result [OF env init sub] by (simp add: g_def)
  have "linked (bmtDepth conf) (nodes g)" using inv by (simp add: run_inv_def)
  then show "(r = None \<or> r = Some (H (span h @ ?V (bmtDepth conf - 1) 0))) \<and>
    ((\<forall>i. i \<le> hpos h \<longrightarrow> bmtDepth conf < count_list sched i) \<longrightarrow> r \<noteq> None) \<and>
    (r \<noteq> None \<longrightarrow> linked (bmtDepth conf) t' \<and>
      (\<forall>k j. Suc k < bmtDepth conf \<longrightarrow> nstate (t' (Suc k, j)) \<in> {nstate (t (Suc k, j)), nstate (t (Suc k, j)) + 2}))"
    using res fair result_states [OF inv _ D(2)] by (cases "results g") (simp_all add: r)
qed

text \<open>
  C3. The concurrent BMT hasher computes the hash of the reference implementation, whatever the
  order in which its goroutines run. Take any way to write the data in pieces into a reset hasher,
  whatever its buffer holds from an earlier use, and any schedule of the goroutines of the sections.
  The reference implementation has a hash \<open>root\<close> of the data; \<open>Hash\<close> returns nothing else than the
  hash of the span and \<open>root\<close>; it does return when every goroutine can take the steps from its leaf
  to the root; and once it has returned the tree is fit for the next chunk: every node's counter
  is as before or has grown by 2. The counters must be even and below the bound at which the
  32-bit counter wraps.
\<close>

theorem bmt_hash_any_schedule:
  fixes H :: "bytes \<Rightarrow> bytes" and seg n :: nat
  assumes "0 < seg" "seg \<le> 32"
    and "linked (bmtDepth (NewConf H seg n)) t" "fresh_states (bmtDepth (NewConf H seg n)) t"
    and "hsize h0 = 0" "hpos h0 = 0" "length (buffer h0) = maxSize (NewConf H seg n)"
    and "Writes (NewConf H seg n) ds h0 = (started, h)"
    and "set sched \<subseteq> {..hpos h}"
    and "Hasher_Hash H (NewConf H seg n) sched t h = (r, t')"
  shows "started = [0..<hpos h] \<and>
    (\<exists>root. RefHasher_Hash H (NewRefHasher seg n) (concat ds) = Some root \<and>
       (r = None \<or> r = Some (H (span h0 @ root)))) \<and>
    ((\<forall>i\<le>hpos h. bmtDepth (NewConf H seg n) < count_list sched i) \<longrightarrow> r \<noteq> None) \<and>
    (r \<noteq> None \<longrightarrow> linked (bmtDepth (NewConf H seg n)) t' \<and>
       (\<forall>k j. Suc k < bmtDepth (NewConf H seg n) \<longrightarrow>
          nstate (t' (Suc k, j)) \<in> {nstate (t (Suc k, j)), nstate (t (Suc k, j)) + 2}))"
proof -
  have D: "0 < bmtDepth (NewConf H seg n)" using size_loop_params [of n 0] by simp
  have dvd: "2 * segmentSize (NewConf H seg n) dvd maxSize (NewConf H seg n)"
    using D by (cases "snd (size_loop n 0)") simp_all
  have "written (NewConf H seg n) [] h0" using assms(1,5-7) D by (simp add: written_def)
  from Writes_written [OF this assms(8) dvd] assms(1)
  have w: "written (NewConf H seg n) (concat ds) h" "started = [0..<hpos h]" "span h = span h0"
    using assms(6) by simp_all
  show ?thesis
    using Hash_schedule [OF w(1) assms(1-4,9,10)] reference_hash [OF assms(1), of H n "concat ds"] w(2,3) by auto
qed

definition toy_hash :: "bytes \<Rightarrow> bytes" where
  "toy_hash b = [fold (\<lambda>x y. 3 * y + x + 1) b 0]"

theorem bmt_hash_any_schedule_witness:
  "\<exists>root t'. RefHasher_Hash toy_hash (NewRefHasher 1 4) [5, 6, 7] = Some root \<and>
     Hasher_Hash toy_hash (NewConf toy_hash 1 4) [1, 0, 1, 0, 0, 1] (newTree 2)
       \<lparr>buffer = [5, 6, 7, 9], hsize = 3, hpos = 1, hoffset = 1, span = [3, 0]\<rparr> = (Some (toy_hash ([3, 0] @ root)), t')"
proof -
  let ?fresh = "\<lparr>buffer = [9, 9, 9, 9], hsize = 0, hpos = 0, hoffset = 0, span = [3, 0]\<rparr> :: hasher"
  let ?h = "\<lparr>buffer = [5, 6, 7, 9], hsize = 3, hpos = 1, hoffset = 1, span = [3, 0]\<rparr> :: hasher"
  let ?sched = "[1, 0, 1, 0, 0, 1] :: nat list"
  have p: "size_loop 4 0 = (4, 2)" by (simp add: size_loop.simps)
  obtain r t' where h: "Hasher_Hash toy_hash (NewConf toy_hash 1 4) ?sched (newTree 2) ?h = (r, t')"
    by (cases "Hasher_Hash toy_hash (NewConf toy_hash 1 4) ?sched (newTree 2) ?h")
  have w: "Writes (NewConf toy_hash 1 4) [[5], [6, 7]] ?fresh = ([0], ?h)"
    by code_simp
  have f: "fresh_states (bmtDepth (NewConf toy_hash 1 4)) (newTree 2)"
    by (auto simp: p fresh_states_def newTree_def add_level_def newNode_def numeral_2_eq_2)
  have l: "linked (bmtDepth (NewConf toy_hash 1 4)) (newTree 2)" using newTree_linked [of 2] by (simp add: p)
  have fair: "\<forall>i\<le>1. 2 < count_list ?sched i" by (auto simp: le_Suc_eq)
  show ?thesis
    using bmt_hash_any_schedule [OF _ _ l f _ _ _ w _ h] fair h by (auto simp: p)
qed

end
