(* ===== verification/BmtPool.thy ===== *)
theory BmtPool
  imports BmtSchedule
begin

text \<open>
  The pool of BMT trees (\<^verbatim>\<open>src/pkg/bmt/pool.go\<close>, \<^verbatim>\<open>src/pkg/bmtpool/bmtpool.go\<close>) and a chunk's
  use of it: a hasher takes a tree from the pool, hashes, and gives the tree back, with the
  buffer and the node counters as it leaves them. The pool is the queue of its channel; \<open>Get\<close> on
  an empty pool blocks, which is \<open>None\<close>.
\<close>

section \<open>Model\<close>

record pooled =
  ptree :: tree
  pbuffer :: bytes

type_synonym pool = "pooled list"

definition NewPool :: "bmt_conf \<Rightarrow> nat \<Rightarrow> pool" where
  "NewPool conf capacity =
     replicate capacity \<lparr>ptree = newTree (bmtDepth conf), pbuffer = replicate (maxSize conf) 0\<rparr>"

definition Pool_Get :: "pool \<Rightarrow> (tree \<times> hasher \<times> pool) option" where
  "Pool_Get p =
     (case p of
        [] \<Rightarrow> None
      | t # rest \<Rightarrow>
          Some (ptree t, \<lparr>buffer = pbuffer t, hsize = 0, hpos = 0, hoffset = 0, span = replicate SpanSize 0\<rparr>, rest))"

definition Pool_Put :: "tree \<Rightarrow> hasher \<Rightarrow> pool \<Rightarrow> pool" where
  "Pool_Put t h p = p @ [\<lparr>ptree = t, pbuffer = buffer h\<rparr>]"

text \<open>\<open>Hash\<close> also leaves the padding in the buffer.\<close>

definition after_hash :: "hasher \<Rightarrow> hasher" where
  "after_hash h = (if hsize h = 0 then h else h\<lparr>buffer := copy_at (hsize h) zerosection (buffer h)\<rparr>)"

text \<open>The function \<open>hasher\<close> of \<^verbatim>\<open>src/pkg/cac/cac.go\<close>, under a schedule of the goroutines.\<close>

definition pool_hasher ::
  "(bytes \<Rightarrow> bytes) \<Rightarrow> bmt_conf \<Rightarrow> nat list \<Rightarrow> bytes \<Rightarrow> bytes \<Rightarrow> pool \<Rightarrow> (bytes option \<times> pool) option" where
  "pool_hasher H conf sched data sp p =
     (case Pool_Get p of
        None \<Rightarrow> None
      | Some (t, h, rest) \<Rightarrow>
          (case Hasher_Write conf data (SetHeader sp h) of
             (l, started, h1) \<Rightarrow>
               (case Hasher_Hash H conf sched t h1 of
                  (r, t') \<Rightarrow> Some (r, Pool_Put t' (after_hash h1) rest))))"

fun serve ::
  "(bytes \<Rightarrow> bytes) \<Rightarrow> bmt_conf \<Rightarrow> (nat list \<times> bytes \<times> bytes) list \<Rightarrow> pool \<Rightarrow> (bytes option list \<times> pool) option" where
  "serve H conf [] p = Some ([], p)"
| "serve H conf ((sched, data, sp) # reqs) p =
     Option.bind (pool_hasher H conf sched data sp p) (\<lambda>(r, p1).
     Option.bind (serve H conf reqs p1) (\<lambda>(rs, p2). Some (r # rs, p2)))"

section \<open>The trees of a pool\<close>

definition room :: "nat \<Rightarrow> nat \<Rightarrow> tree \<Rightarrow> bool" where
  "room D k t \<longleftrightarrow>
     (\<forall>h j. Suc h < D \<longrightarrow>
        even (nstate (t (Suc h, j))) \<and> 0 \<le> nstate (t (Suc h, j)) \<and> nstate (t (Suc h, j)) + 2 * int k < 2 ^ 31)"

definition pool_ok :: "bmt_conf \<Rightarrow> nat \<Rightarrow> pool \<Rightarrow> bool" where
  "pool_ok conf k p \<longleftrightarrow>
     (\<forall>t \<in> set p. linked (bmtDepth conf) (ptree t) \<and> room (bmtDepth conf) k (ptree t) \<and>
        length (pbuffer t) = maxSize conf)"

lemma newTree_states: "nstate (newTree D p) = 0"
  unfolding newTree_def fold_add_level fst_conv by (cases p) (simp add: newNode_def)

lemma NewPool_ok: "0 < bmtDepth conf \<Longrightarrow> k < 2 ^ 30 \<Longrightarrow> pool_ok conf k (NewPool conf capacity)"
proof -
  assume "0 < bmtDepth conf" "k < 2 ^ 30"
  moreover from this(2) have "2 * int k < 2 ^ 31" by simp
  ultimately show ?thesis
    by (auto simp: pool_ok_def NewPool_def newTree_linked room_def newTree_states)
qed

text \<open>A schedule that lets every goroutine of the data's sections run to the root.\<close>

definition last_section :: "bmt_conf \<Rightarrow> bytes \<Rightarrow> nat" where
  "last_section conf data =
     (if maxSize conf \<le> length data then maxSize conf div (2 * segmentSize conf) - 1
      else length data div (2 * segmentSize conf))"

definition ready :: "bmt_conf \<Rightarrow> nat list \<Rightarrow> bytes \<Rightarrow> bool" where
  "ready conf sched data \<longleftrightarrow>
     set sched \<subseteq> {..last_section conf data} \<and> list_all (\<lambda>i. bmtDepth conf < count_list sched i) [0..<Suc (last_section conf data)]"

lemma written_pos: "written conf data h \<Longrightarrow> hpos h = last_section conf data"
  by (auto simp: written_def last_section_def min_def split: if_splits)

definition bmt_root :: "(bytes \<Rightarrow> bytes) \<Rightarrow> bmt_conf \<Rightarrow> bytes \<Rightarrow> bytes" where
  "bmt_root H conf data = tree_hash H (bmt_leaf conf data) (bmtDepth conf - 1) 0"

lemma room_Suc: "room D (Suc k) t \<Longrightarrow> room D k t \<and> fresh_states D t"
proof -
  assume r: "room D (Suc k) t"
  have "nstate (t (Suc h, j)) + 2 * int k < 2 ^ 31 \<and> nstate (t (Suc h, j)) < 2 ^ 31 - 2" if "Suc h < D" for h j
    using r [unfolded room_def, rule_format, OF that, of j] by simp
  then show ?thesis using r by (simp add: room_def fresh_states_def)
qed

lemma room_used:
  assumes "room D (Suc k) t"
    and "\<forall>h j. Suc h < D \<longrightarrow> nstate (t' (Suc h, j)) \<in> {nstate (t (Suc h, j)), nstate (t (Suc h, j)) + 2}"
  shows "room D k t'"
  unfolding room_def
proof (intro allI impI)
  fix h j
  assume h: "Suc h < D"
  have "even (nstate (t (Suc h, j))) \<and> 0 \<le> nstate (t (Suc h, j)) \<and> nstate (t (Suc h, j)) + 2 * int (Suc k) < 2 ^ 31"
    using assms(1) h by (simp add: room_def)
  moreover have "nstate (t' (Suc h, j)) = nstate (t (Suc h, j)) \<or> nstate (t' (Suc h, j)) = nstate (t (Suc h, j)) + 2"
    using assms(2) h by blast
  ultimately show "even (nstate (t' (Suc h, j))) \<and> 0 \<le> nstate (t' (Suc h, j)) \<and> nstate (t' (Suc h, j)) + 2 * int k < 2 ^ 31"
    by auto
qed

lemma pool_hasher_serves:
  fixes H :: "bytes \<Rightarrow> bytes" and seg n :: nat
  defines "conf \<equiv> NewConf H seg n"
  assumes ok: "pool_ok conf (Suc k) p" and p: "p \<noteq> []" and seg: "0 < seg" "seg \<le> 32"
    and rdy: "ready conf sched data" and sp: "length sp = SpanSize"
  shows "\<exists>p'. pool_hasher H conf sched data sp p = Some (Some (H (sp @ bmt_root H conf data)), p') \<and>
    pool_ok conf k p' \<and> length p' = length p"
proof -
  obtain t rest where t: "p = t # rest" using p by (cases p) auto
  define h where "h = \<lparr>buffer = pbuffer t, hsize = 0, hpos = 0, hoffset = 0, span = sp\<rparr>"
  have hd: "SetHeader sp \<lparr>buffer = pbuffer t, hsize = 0, hpos = 0, hoffset = 0, span = replicate SpanSize 0\<rparr> = h"
    using sp by (simp add: SetHeader_def h_def copy_at_def)
  obtain l started h1 where w: "Hasher_Write conf data h = (l, started, h1)" by (cases "Hasher_Write conf data h")
  obtain r t' where hash: "Hasher_Hash H conf sched (ptree t) h1 = (r, t')" by (cases "Hasher_Hash H conf sched (ptree t) h1")
  have D: "0 < bmtDepth conf" using size_loop_params [of n 0] by (simp add: conf_def)
  have c: "segmentSize conf = seg" "maxSize conf = 2 ^ bmtDepth conf * seg" by (simp_all add: conf_def)
  have dvd: "2 * segmentSize conf dvd maxSize conf" using D by (cases "bmtDepth conf") (simp_all add: c)
  have tok: "linked (bmtDepth conf) (ptree t)" "room (bmtDepth conf) (Suc k) (ptree t)" "length (pbuffer t) = maxSize conf"
    using ok by (simp_all add: pool_ok_def t)
  have "written conf [] h" using tok(3) seg(1) D by (simp add: written_def h_def c)
  from Write_written [OF this w dvd] seg(1) c(1)
  have w1: "written conf data h1" "span h1 = sp" by (simp_all add: h_def)
  have pos: "set sched \<subseteq> {..hpos h1}" "\<And>i. i \<le> hpos h1 \<Longrightarrow> bmtDepth conf < count_list sched i"
    using rdy by (auto simp: ready_def written_pos [OF w1(1)] list_all_iff)
  note fresh = room_Suc [OF tok(2), THEN conjunct2]
  note res = Hash_schedule [OF w1(1) [unfolded conf_def] seg tok(1) [unfolded conf_def] fresh [unfolded conf_def] pos(1)
      hash [unfolded conf_def], folded conf_def]
  have r: "r = Some (H (sp @ bmt_root H conf data))" using res(1,2) pos(2) w1(2) by (auto simp: bmt_root_def)
  then have "linked (bmtDepth conf) t'" "room (bmtDepth conf) k t'"
    using res(3) room_used [OF tok(2)] by simp_all
  moreover have "length (buffer (after_hash h1)) = maxSize conf" using w1(1) by (simp add: after_hash_def written_def)
  moreover have "pool_ok conf k rest" using ok room_Suc by (auto simp: pool_ok_def t)
  ultimately have "pool_ok conf k (Pool_Put t' (after_hash h1) rest)" by (auto simp: pool_ok_def Pool_Put_def)
  then show ?thesis
    using r hd w hash by (simp add: pool_hasher_def Pool_Get_def t Pool_Put_def)
qed

lemma serve_ok:
  fixes H :: "bytes \<Rightarrow> bytes" and seg n :: nat
  defines "conf \<equiv> NewConf H seg n"
  assumes "pool_ok conf (length reqs) p" "p \<noteq> []" "0 < seg" "seg \<le> 32"
    and "list_all (\<lambda>(sched, data, sp). ready conf sched data \<and> length sp = SpanSize) reqs"
  shows "\<exists>p'. serve H conf reqs p = Some (map (\<lambda>(sched, data, sp). Some (H (sp @ bmt_root H conf data))) reqs, p')"
  using assms(2,3,6)
proof (induction reqs arbitrary: p)
  case (Cons r reqs)
  obtain sched data sp where r: "r = (sched, data, sp)" by (cases r)
  obtain p1 where p1: "pool_hasher H conf sched data sp p = Some (Some (H (sp @ bmt_root H conf data)), p1)"
    "pool_ok conf (length reqs) p1" "length p1 = length p"
    using pool_hasher_serves [of H seg n "length reqs" p sched data sp] Cons.prems assms(4,5) by (auto simp: r conf_def)
  then have "p1 \<noteq> []" using Cons.prems(2) by auto
  with Cons.IH [OF p1(2)] Cons.prems p1(1) show ?case by (auto simp: r)
qed simp

text \<open>
  C6. A pool of BMT trees serves chunk after chunk with the reference hash. From a new pool of at
  least one tree, take up to \<open>2 ^ 30 - 1\<close> requests, each with its data, an 8-byte span and a schedule that
  lets its goroutines run to the root. Every request returns the hash of the span and of the
  reference hash of its data, so nothing that an earlier chunk left in the buffer, in the
  children of a node or in a node's counter is ever seen; and a tree is always there to take.
\<close>

theorem pool_serves_reference_hashes:
  fixes H :: "bytes \<Rightarrow> bytes" and seg n :: nat
  assumes "0 < seg" "seg \<le> 32" "0 < capacity" "length reqs < 2 ^ 30"
    and "list_all (\<lambda>(sched, data, sp). ready (NewConf H seg n) sched data \<and> length sp = SpanSize) reqs"
  shows "\<exists>p'. serve H (NewConf H seg n) reqs (NewPool (NewConf H seg n) capacity) =
    Some (map (\<lambda>(sched, data, sp).
       map_option (\<lambda>root. H (sp @ root)) (RefHasher_Hash H (NewRefHasher seg n) data)) reqs, p')"
proof -
  have "0 < bmtDepth (NewConf H seg n)" using size_loop_params [of n 0] by simp
  then have "pool_ok (NewConf H seg n) (length reqs) (NewPool (NewConf H seg n) capacity)"
    by (rule NewPool_ok) (rule assms(4))
  then show ?thesis
    using serve_ok [of H seg n reqs] assms by (auto simp: NewPool_def bmt_root_def reference_hash case_prod_unfold)
qed

theorem pool_serves_reference_hashes_witness:
  "\<exists>p'. serve toy_hash (NewConf toy_hash 1 4)
       [([1, 0, 1, 0, 0, 1], [5, 6, 7], LengthToSpan 3), ([0, 0, 0], [9], LengthToSpan 1)] (NewPool (NewConf toy_hash 1 4) 1) =
     Some ([map_option (\<lambda>root. toy_hash (LengthToSpan 3 @ root)) (RefHasher_Hash toy_hash (NewRefHasher 1 4) [5, 6, 7]),
            map_option (\<lambda>root. toy_hash (LengthToSpan 1 @ root)) (RefHasher_Hash toy_hash (NewRefHasher 1 4) [9])], p')"
proof -
  let ?reqs = "[([1, 0, 1, 0, 0, 1], [5, 6, 7], LengthToSpan 3), ([0, 0, 0], [9], LengthToSpan 1)] :: (nat list \<times> bytes \<times> bytes) list"
  have p: "size_loop 4 0 = (4, 2)" by (simp add: size_loop.simps)
  have "ready (NewConf toy_hash 1 4) [1, 0, 1, 0, 0, 1] [5, 6, 7]" "ready (NewConf toy_hash 1 4) [0, 0, 0] [9]"
    by (simp_all add: ready_def last_section_def p)
  moreover have "length (LengthToSpan l) = SpanSize" for l by (simp add: LengthToSpan_def)
  ultimately have "list_all (\<lambda>(sched, data, sp). ready (NewConf toy_hash 1 4) sched data \<and> length sp = SpanSize) ?reqs"
    by simp
  from pool_serves_reference_hashes [OF _ _ _ _ this, of 1] show ?thesis by simp
qed

end
