(* ===== verification/Feeder.thy ===== *)
theory Feeder
  imports BmtPool
begin

text \<open>
  The chunk feeder (\<^verbatim>\<open>src/pkg/file/pipeline/feeder/feeder.go\<close>), which cuts what is written to it
  into chunks of data with their spans. The next writer is a parameter \<open>nxt\<close>, as in the code,
  with its state threaded through; an index or slice out of range is \<open>Panic\<close>. The theory also
  holds the outcomes and the byte encoding of spans that the file components share.
\<close>

section \<open>Outcomes and spans\<close>

datatype ferror = ErrInconsistentRefs | ErrTrieFull | ErrInvalidData | ErrNotFound | ErrReferenceLength
  | ErrMalformedTrie | ErrLonger | ErrDifferent | EOF | ErrWhence | ErrOffset | ErrCanceled | ErrShortWrite | ErrReader
  | ErrKeyNotFound | ErrInvalidMode | ErrChunkStore | ErrTooShort | ErrInvalidVersionHash | ErrFork

datatype 'a outcome = Panic | Fail ferror | Ok 'a

fun andthen :: "'a outcome \<Rightarrow> ('a \<Rightarrow> 'b outcome) \<Rightarrow> 'b outcome" where
  "andthen Panic f = Panic"
| "andthen (Fail e) f = Fail e"
| "andthen (Ok x) f = f x"

text \<open>\<open>binary.LittleEndian\<close>: \<open>PutUint64\<close> and \<open>Uint64\<close>.\<close>

fun le_bytes :: "nat \<Rightarrow> nat \<Rightarrow> bytes" where
  "le_bytes 0 v = []"
| "le_bytes (Suc k) v = word_of_nat (v mod 256) # le_bytes k (v div 256)"

fun le_nat :: "bytes \<Rightarrow> nat" where
  "le_nat [] = 0"
| "le_nat (b # bs) = unat b + 256 * le_nat bs"

definition PutUint64 :: "nat \<Rightarrow> bytes" where
  "PutUint64 v = le_bytes 8 v"

definition Uint64 :: "bytes \<Rightarrow> nat" where
  "Uint64 b = le_nat (take 8 b)"

section \<open>Chunk feeder\<close>

record feeder =
  fsize :: nat
  fbuffer :: bytes
  bufferIdx :: nat
  wrote :: int

definition NewChunkFeederWriter :: "nat \<Rightarrow> feeder" where
  "NewChunkFeederWriter size' = \<lparr>fsize = size', fbuffer = replicate size' 0, bufferIdx = 0, wrote = 0\<rparr>"

text \<open>The loop of \<open>Write\<close>: \<open>b\<close> is what is left of the argument, \<open>d\<close> the array shared by the chunks.\<close>

partial_function (option) feed_loop ::
  "(bytes \<Rightarrow> 's \<Rightarrow> 's outcome) \<Rightarrow> bytes \<Rightarrow> bytes \<Rightarrow> nat \<Rightarrow> int \<Rightarrow> feeder \<Rightarrow> 's \<Rightarrow> (int \<times> feeder \<times> 's) outcome option" where
  "feed_loop nxt b d sp w f s =
     (if b = [] then Some (Ok (w, f\<lparr>wrote := wrote f + w\<rparr>, s))
      else if sp + length b < fsize f
      then Some (Ok (w + int (length b), f\<lparr>fbuffer := copy_at 0 b (fbuffer f), bufferIdx := length b\<rparr>, s))
      else
        (let n = min (length d - (SpanSize + bufferIdx f)) (length b);
             d1 = copy_at (SpanSize + bufferIdx f) b d;
             sp1 = sp + n;
             d2 = copy_at 0 (PutUint64 sp1) d1
         in (case nxt (take (SpanSize + sp1) d2) s of
               Panic \<Rightarrow> Some Panic
             | Fail e \<Rightarrow> Some (Fail e)
             | Ok s1 \<Rightarrow> feed_loop nxt (drop n b) d2 0 (w + int sp1) (f\<lparr>bufferIdx := 0\<rparr>) s1)))"

definition feeder_Write ::
  "(bytes \<Rightarrow> 's \<Rightarrow> 's outcome) \<Rightarrow> bytes \<Rightarrow> feeder \<Rightarrow> 's \<Rightarrow> (int \<times> feeder \<times> 's) outcome option" where
  "feeder_Write nxt b f s =
     (if length b + bufferIdx f < fsize f
      then Some (Ok (int (length b),
             f\<lparr>fbuffer := copy_at (bufferIdx f) b (fbuffer f), bufferIdx := bufferIdx f + length b\<rparr>, s))
      else
        feed_loop nxt b (copy_at SpanSize (take (bufferIdx f) (fbuffer f)) (replicate (fsize f + SpanSize) 0))
          (bufferIdx f) (- int (bufferIdx f)) f s)"

definition feeder_Sum ::
  "(bytes \<Rightarrow> 's \<Rightarrow> 's outcome) \<Rightarrow> ('s \<Rightarrow> 'r outcome) \<Rightarrow> feeder \<Rightarrow> 's \<Rightarrow> 'r outcome" where
  "feeder_Sum nxt nsum f s =
     andthen
       (if bufferIdx f > 0
        then andthen (nxt (PutUint64 (bufferIdx f) @ take (bufferIdx f) (fbuffer f)) s)
               (\<lambda>s1. Ok (f\<lparr>wrote := wrote f + int (bufferIdx f + SpanSize)\<rparr>, s1))
        else Ok (f, s))
       (\<lambda>(f1, s1).
          if wrote f1 = 0 then andthen (nxt (replicate SpanSize 0) s1) nsum
          else nsum s1)"

section \<open>Spans\<close>

lemma length_le_bytes [simp]: "length (le_bytes k v) = k"
  by (induction k arbitrary: v) auto

lemma length_PutUint64 [simp]: "length (PutUint64 v) = 8"
  by (simp add: PutUint64_def)

lemma le_nat_bytes: "le_nat (le_bytes k v) = v mod 256 ^ k"
proof (induction k arbitrary: v)
  case (Suc k)
  have "unat (word_of_nat (v mod 256) :: 8 word) = v mod 256" by (simp add: unat_of_nat)
  moreover have "v mod 256 + 256 * (v div 256 mod 256 ^ k) = v mod (256 * 256 ^ k)"
    by (simp only: mod_mult2_eq add.commute)
  ultimately show ?case by (simp only: le_bytes.simps le_nat.simps Suc.IH power_Suc)
qed simp

lemma Uint64_PutUint64:
  assumes "v < 2 ^ 64"
  shows "Uint64 (PutUint64 v @ x) = v"
proof -
  have "take 8 (PutUint64 v @ x) = PutUint64 v" by simp
  moreover have "v mod 256 ^ 8 = v" using assms by simp
  ultimately show ?thesis by (simp only: Uint64_def PutUint64_def le_nat_bytes)
qed

lemma PutUint64_0: "PutUint64 0 = replicate SpanSize 0"
proof -
  have "le_bytes k 0 = replicate k 0" for k by (induction k) simp_all
  then show ?thesis by (simp only: PutUint64_def SpanSize_def)
qed

section \<open>The feeder cuts the data into chunks\<close>

function full_blocks :: "nat \<Rightarrow> 'a list \<Rightarrow> 'a list list" where
  "full_blocks n xs = (if 0 < n \<and> n \<le> length xs then take n xs # full_blocks n (drop n xs) else [])"
  by auto
termination
  by (relation "measure (\<lambda>(n, xs). length xs)") auto

declare full_blocks.simps [simp del]

function rest_block :: "nat \<Rightarrow> 'a list \<Rightarrow> 'a list" where
  "rest_block n xs = (if 0 < n \<and> n \<le> length xs then rest_block n (drop n xs) else xs)"
  by auto
termination
  by (relation "measure (\<lambda>(n, xs). length xs)") auto

declare rest_block.simps [simp del]

lemma length_rest_block: "0 < n \<Longrightarrow> length (rest_block n xs) < n"
  by (induction n xs rule: rest_block.induct) (subst rest_block.simps, simp)

lemma blocks_short: "length xs < n \<Longrightarrow> full_blocks n xs = [] \<and> rest_block n xs = xs"
  by (simp add: full_blocks.simps [of n xs] rest_block.simps [of n xs])

lemma blocks_step:
  "0 < n \<Longrightarrow> n \<le> length xs \<Longrightarrow>
   full_blocks n xs = take n xs # full_blocks n (drop n xs) \<and> rest_block n xs = rest_block n (drop n xs)"
  by (simp add: full_blocks.simps [of n xs] rest_block.simps [of n xs])

lemma blocks_append:
  "0 < n \<Longrightarrow> full_blocks n (xs @ ys) = full_blocks n xs @ full_blocks n (rest_block n xs @ ys) \<and>
   rest_block n (xs @ ys) = rest_block n (rest_block n xs @ ys)"
proof (induction n xs rule: full_blocks.induct)
  case (1 n xs)
  show ?case
  proof (cases "n \<le> length xs")
    case True
    then show ?thesis using 1 blocks_step [of n xs] blocks_step [of n "xs @ ys"] by simp
  qed (use 1 blocks_short [of xs n] in simp)
qed

definition chunk_of :: "bytes \<Rightarrow> bytes" where
  "chunk_of x = PutUint64 (length x) @ x"

fun pushes :: "(bytes \<Rightarrow> 's \<Rightarrow> 's outcome) \<Rightarrow> bytes list \<Rightarrow> 's \<Rightarrow> 's outcome" where
  "pushes nxt [] s = Ok s"
| "pushes nxt (x # xs) s = andthen (nxt (chunk_of x) s) (pushes nxt xs)"

lemma pushes_append: "pushes nxt (xs @ ys) s = andthen (pushes nxt xs s) (pushes nxt ys)"
proof (induction xs arbitrary: s)
  case (Cons x xs)
  then show ?case by (cases "nxt (chunk_of x) s") simp_all
qed simp

definition feeder_ok :: "nat \<Rightarrow> bytes \<Rightarrow> feeder \<Rightarrow> bool" where
  "feeder_ok size' p f \<longleftrightarrow>
     fsize f = size' \<and> length (fbuffer f) = size' \<and> bufferIdx f = length p \<and> length p < size' \<and>
     take (length p) (fbuffer f) = p"

lemma copy_at_take: "i + length src \<le> length dst \<Longrightarrow> take (i + length src) (copy_at i src dst) = take i dst @ src"
  by (cases src) (auto simp: copy_at_def min_def)

lemma copy_at_all: "i \<le> length dst \<Longrightarrow> length dst \<le> i + length src \<Longrightarrow> copy_at i src dst = take i dst @ take (length dst - i) src"
  by (simp add: copy_at_def min_def)

lemma copy_at_head: "length src \<le> length dst \<Longrightarrow> copy_at 0 src dst = src @ drop (length src) dst"
  by (simp add: copy_at_def)

lemma feed_loop_chunks:
  assumes "0 < sz" "fsize f = sz" "length (fbuffer f) = sz" "bufferIdx f = length p" "length d = sz + 8"
    and "take (length p) (drop 8 d) = p" "length p < sz" and "p = [] \<or> sz \<le> length p + length b"
  shows "\<exists>f'. feeder_ok sz (rest_block sz (p @ b)) f' \<and>
     wrote f' = wrote f + (if rest_block sz (p @ b) = [] then w + int (length p + length b) else 0) \<and>
     (\<forall>s. feed_loop nxt b d (length p) w f s =
       Some (andthen (pushes nxt (full_blocks sz (p @ b)) s) (\<lambda>s'. Ok (w + int (length p + length b), f', s'))))"
  using assms
proof (induction "length b" arbitrary: b d p w f rule: less_induct)
  case less
  show ?case
  proof (cases "length p + length b < sz")
    case True
    then have p: "p = []" using less.prems by auto
    show ?thesis
    proof (cases "b = []")
      case True
      moreover have "full_blocks sz [] = ([] :: bytes list)" "rest_block sz [] = ([] :: bytes)"
        using less.prems(1) blocks_short [of "[] :: bytes" sz] by simp_all
      ultimately show ?thesis using less.prems p
        by (intro exI [of _ "f\<lparr>wrote := wrote f + w\<rparr>"]) (simp add: feed_loop.simps feeder_ok_def)
    next
      case False
      moreover have "full_blocks sz b = []" "rest_block sz b = b" using True p blocks_short [of b sz] by simp_all
      ultimately show ?thesis using less.prems p True
        by (intro exI [of _ "f\<lparr>fbuffer := copy_at 0 b (fbuffer f), bufferIdx := length b\<rparr>"])
          (simp add: feed_loop.simps feeder_ok_def copy_at_head)
    qed
  next
    case False
    let ?n = "sz - length p"
    let ?d = "copy_at 0 (PutUint64 sz) (copy_at (8 + length p) b d)"
    have n: "0 < ?n" "?n \<le> length b" using False less.prems(7) by auto
    have tk: "take sz (p @ b) = p @ take ?n b" using less.prems(7) by simp
    have "copy_at (8 + length p) b d = take (8 + length p) d @ take ?n b"
      using less.prems(5) n False by (simp add: copy_at_all)
    moreover have "take (8 + length p) d = take 8 d @ p" using less.prems(6) by (simp add: take_add)
    ultimately have d: "?d = PutUint64 sz @ p @ take ?n b" using less.prems(5) by (simp add: copy_at_head)
    then have chunk: "take (8 + sz) ?d = chunk_of (take sz (p @ b))"
      using tk n by (simp add: chunk_of_def)
    let ?m = "length ([] :: bytes) + length (drop ?n b)"
    have "\<exists>f'. feeder_ok sz (rest_block sz ([] @ drop ?n b)) f' \<and>
       wrote f' = wrote (f\<lparr>bufferIdx := 0\<rparr>) + (if rest_block sz ([] @ drop ?n b) = [] then w + int sz + int ?m else 0) \<and>
       (\<forall>s. feed_loop nxt (drop ?n b) ?d (length ([] :: bytes)) (w + int sz) (f\<lparr>bufferIdx := 0\<rparr>) s =
         Some (andthen (pushes nxt (full_blocks sz ([] @ drop ?n b)) s) (\<lambda>s'. Ok (w + int sz + int ?m, f', s'))))"
      by (rule less.hyps) (use less.prems n d in auto)
    then obtain f' where f': "feeder_ok sz (rest_block sz (drop ?n b)) f'"
      "wrote f' = wrote f + (if rest_block sz (drop ?n b) = [] then w + int sz + int ?m else 0)"
      "\<And>s. feed_loop nxt (drop ?n b) ?d 0 (w + int sz) (f\<lparr>bufferIdx := 0\<rparr>) s =
         Some (andthen (pushes nxt (full_blocks sz (drop ?n b)) s) (\<lambda>s'. Ok (w + int sz + int ?m, f', s')))"
      by auto
    have blocks: "full_blocks sz (p @ b) = take sz (p @ b) # full_blocks sz (drop ?n b)"
      "rest_block sz (p @ b) = rest_block sz (drop ?n b)"
      using blocks_step [of sz "p @ b"] less.prems(1,7) False by simp_all
    have total: "w + int sz + int ?m = w + int (length p + length b)" using n less.prems(7) by simp
    have "feed_loop nxt b d (length p) w f s =
        Some (andthen (pushes nxt (full_blocks sz (p @ b)) s) (\<lambda>s'. Ok (w + int (length p + length b), f', s')))" for s
    proof -
      have n': "min (length d - (8 + length p)) (length b) = ?n" "SpanSize + bufferIdx f = 8 + length p"
        "length p + ?n = sz" "b \<noteq> []" "\<not> length p + length b < fsize f"
        using less.prems n False by (auto simp: SpanSize_def)
      have "feed_loop nxt b d (length p) w f s =
          (case nxt (take (8 + sz) ?d) s of Panic \<Rightarrow> Some Panic | Fail e \<Rightarrow> Some (Fail e)
           | Ok s1 \<Rightarrow> feed_loop nxt (drop ?n b) ?d 0 (w + int sz) (f\<lparr>bufferIdx := 0\<rparr>) s1)"
        by (subst feed_loop.simps) (simp only: Let_def n' if_False, simp only: SpanSize_def)
      then show ?thesis
        unfolding chunk f'(3) blocks(1) total by (cases "nxt (chunk_of (take sz (p @ b))) s") simp_all
    qed
    then show ?thesis using f'(1,2) blocks(2) total by auto
  qed
qed

lemma feeder_Write_chunks:
  assumes "feeder_ok sz p f" "0 < sz"
  shows "\<exists>f'. feeder_ok sz (rest_block sz (p @ b)) f' \<and>
     wrote f' = wrote f + (if rest_block sz (p @ b) = [] \<and> p @ b \<noteq> [] then int (length b) else 0) \<and>
     (\<forall>s. feeder_Write nxt b f s =
       Some (andthen (pushes nxt (full_blocks sz (p @ b)) s) (\<lambda>s'. Ok (int (length b), f', s'))))"
proof (cases "length b + length p < sz")
  case True
  then have bl: "full_blocks sz (p @ b) = []" "rest_block sz (p @ b) = p @ b" using blocks_short [of "p @ b" sz] by simp_all
  have "take (length p + length b) (copy_at (length p) b (fbuffer f)) = p @ b"
    using assms True by (subst copy_at_take) (auto simp: feeder_ok_def)
  then show ?thesis using assms True bl
    by (intro exI [of _ "f\<lparr>fbuffer := copy_at (length p) b (fbuffer f), bufferIdx := length p + length b\<rparr>"])
      (auto simp: feeder_ok_def feeder_Write_def)
next
  case False
  let ?d = "copy_at SpanSize (take (bufferIdx f) (fbuffer f)) (replicate (fsize f + SpanSize) 0)"
  have f: "fsize f = sz" "bufferIdx f = length p" "length (fbuffer f) = sz" "length p < sz" "take (length p) (fbuffer f) = p"
    using assms by (simp_all add: feeder_ok_def)
  have d: "length ?d = sz + 8" "take (length p) (drop 8 ?d) = p"
    using f by (simp_all add: SpanSize_def copy_at_def min_def)
  have "p = [] \<or> sz \<le> length p + length b" using False by simp
  from feed_loop_chunks [OF assms(2) f(1,3,2) d f(4) this, of "- int (length p)" nxt]
  obtain f' where "feeder_ok sz (rest_block sz (p @ b)) f'"
     "wrote f' = wrote f + (if rest_block sz (p @ b) = [] then int (length b) else 0)"
     "\<And>s. feed_loop nxt b ?d (length p) (- int (length p)) f s =
       Some (andthen (pushes nxt (full_blocks sz (p @ b)) s) (\<lambda>s'. Ok (int (length b), f', s')))"
    by auto
  moreover have "p @ b \<noteq> []" using False assms(2) by auto
  ultimately show ?thesis using False f by (intro exI [of _ f']) (simp add: feeder_Write_def)
qed

text \<open>A sequence of writes, then \<open>Sum\<close>.\<close>

fun feeder_Writes ::
  "(bytes \<Rightarrow> 's \<Rightarrow> 's outcome) \<Rightarrow> bytes list \<Rightarrow> feeder \<Rightarrow> 's \<Rightarrow> (feeder \<times> 's) outcome option" where
  "feeder_Writes nxt [] f s = Some (Ok (f, s))"
| "feeder_Writes nxt (b # bs) f s =
     Option.bind (feeder_Write nxt b f s) (\<lambda>r. case r of
       Panic \<Rightarrow> Some Panic | Fail e \<Rightarrow> Some (Fail e) | Ok (n, f1, s1) \<Rightarrow> feeder_Writes nxt bs f1 s1)"

definition leaf_blocks :: "nat \<Rightarrow> bytes \<Rightarrow> bytes list" where
  "leaf_blocks sz data =
     (if data = [] then [[]] else full_blocks sz data @ (if rest_block sz data = [] then [] else [rest_block sz data]))"

definition feeder_inv :: "nat \<Rightarrow> bytes \<Rightarrow> feeder \<Rightarrow> bool" where
  "feeder_inv sz t f \<longleftrightarrow>
     feeder_ok sz (rest_block sz t) f \<and> 0 \<le> wrote f \<and> (rest_block sz t = [] \<longrightarrow> (wrote f = 0 \<longleftrightarrow> t = []))"

lemma feeder_Writes_chunks:
  assumes "feeder_inv sz t f" "0 < sz"
  shows "\<exists>f'. feeder_inv sz (t @ concat bs) f' \<and>
     (\<forall>s. feeder_Writes nxt bs f s =
       Some (andthen (pushes nxt (full_blocks sz (rest_block sz t @ concat bs)) s) (\<lambda>s'. Ok (f', s'))))"
  using assms(1)
proof (induction bs arbitrary: t f)
  case Nil
  then have "length (rest_block sz t) < sz" by (simp add: feeder_inv_def feeder_ok_def)
  then show ?case using Nil blocks_short [of "rest_block sz t" sz] by auto
next
  case (Cons b bs)
  let ?p = "rest_block sz t"
  have ok: "feeder_ok sz ?p f" using Cons.prems by (simp add: feeder_inv_def)
  obtain f1 where f1: "feeder_ok sz (rest_block sz (?p @ b)) f1"
    "wrote f1 = wrote f + (if rest_block sz (?p @ b) = [] \<and> ?p @ b \<noteq> [] then int (length b) else 0)"
    "\<And>s. feeder_Write nxt b f s =
       Some (andthen (pushes nxt (full_blocks sz (?p @ b)) s) (\<lambda>s'. Ok (int (length b), f1, s')))"
    using feeder_Write_chunks [OF ok assms(2), of b nxt] by blast
  have r: "rest_block sz (t @ b) = rest_block sz (?p @ b)" using blocks_append [OF assms(2), of t b] by simp
  have "b = [] \<Longrightarrow> rest_block sz ?p = ?p" using ok blocks_short [of ?p sz] by (simp add: feeder_ok_def)
  then have "feeder_inv sz (t @ b) f1"
    using Cons.prems f1(1,2) r by (cases b) (auto simp: feeder_inv_def)
  from Cons.IH [OF this] obtain f' where f': "feeder_inv sz ((t @ b) @ concat bs) f'"
    "\<And>s. feeder_Writes nxt bs f1 s =
       Some (andthen (pushes nxt (full_blocks sz (rest_block sz (t @ b) @ concat bs)) s) (\<lambda>s'. Ok (f', s')))"
    by blast
  have "full_blocks sz (?p @ concat (b # bs)) =
      full_blocks sz (?p @ b) @ full_blocks sz (rest_block sz (t @ b) @ concat bs)"
    using blocks_append [OF assms(2), of "?p @ b" "concat bs"] r by simp
  then have "feeder_Writes nxt (b # bs) f s =
      Some (andthen (pushes nxt (full_blocks sz (?p @ concat (b # bs))) s) (\<lambda>s'. Ok (f', s')))" for s
    by (cases "pushes nxt (full_blocks sz (?p @ b)) s") (simp_all add: f1(3) f'(2) pushes_append)
  then show ?case using f'(1) by (intro exI [of _ f']) simp
qed

text \<open>Any sequence of writes and the final \<open>Sum\<close> pass the blocks of the data on, in order, each with its span.\<close>

lemma feeder_chunks:
  assumes "0 < sz"
  shows "\<exists>f. (\<forall>s. feeder_Writes nxt bs (NewChunkFeederWriter sz) s =
        Some (andthen (pushes nxt (full_blocks sz (concat bs)) s) (\<lambda>s'. Ok (f, s')))) \<and>
     (\<forall>s. andthen (pushes nxt (full_blocks sz (concat bs)) s) (feeder_Sum nxt nsum f) =
        andthen (pushes nxt (leaf_blocks sz (concat bs)) s) nsum)"
proof -
  have r: "rest_block sz [] = ([] :: bytes)" using assms blocks_short [of "[] :: bytes" sz] by simp
  have "feeder_inv sz [] (NewChunkFeederWriter sz)"
    using assms r by (simp add: feeder_inv_def feeder_ok_def NewChunkFeederWriter_def)
  from feeder_Writes_chunks [OF this assms, of bs nxt] r obtain f where f: "feeder_inv sz (concat bs) f"
    "\<And>s. feeder_Writes nxt bs (NewChunkFeederWriter sz) s =
        Some (andthen (pushes nxt (full_blocks sz (concat bs)) s) (\<lambda>s'. Ok (f, s')))"
    by auto
  let ?r = "rest_block sz (concat bs)"
  have i: "bufferIdx f = length ?r" "take (length ?r) (fbuffer f) = ?r" "0 \<le> wrote f" "?r = [] \<Longrightarrow> (wrote f = 0) = (concat bs = [])"
    using f(1) by (simp_all add: feeder_inv_def feeder_ok_def)
  have sum: "feeder_Sum nxt nsum f s =
      andthen (pushes nxt (if concat bs = [] then [[]] else if ?r = [] then [] else [?r]) s) nsum" for s
  proof (cases "?r = []")
    case True
    then show ?thesis using i(1,4)
      by (cases "nxt (replicate SpanSize 0) s") (auto simp: feeder_Sum_def chunk_of_def PutUint64_0 simp del: concat_eq_Nil_conv)
  next
    case False
    then have "concat bs \<noteq> []" using r by metis
    then show ?thesis using i(1-3) False
      by (cases "nxt (chunk_of ?r) s") (auto simp: feeder_Sum_def chunk_of_def SpanSize_def simp del: concat_eq_Nil_conv)
  qed
  have "full_blocks sz [] = ([] :: bytes list)" using assms blocks_short [of "[] :: bytes" sz] by simp
  then have "andthen (pushes nxt (full_blocks sz (concat bs)) s) (feeder_Sum nxt nsum f) =
      andthen (pushes nxt (leaf_blocks sz (concat bs)) s) nsum" for s
    by (cases "pushes nxt (full_blocks sz (concat bs)) s")
      (auto simp: leaf_blocks_def pushes_append sum simp del: concat_eq_Nil_conv)
  then show ?thesis using f(2) by blast
qed

end
