(* ===== verification/Shed.thy ===== *)
theory Shed
  imports Feeder "HOL-Library.List_Lexorder" "HOL-Library.AList"
begin

text \<open>
  The indexes of the chunk database (\<^verbatim>\<open>src/pkg/shed/index.go\<close>) with the encodings that
  \<^verbatim>\<open>src/pkg/localstore/localstore.go\<close> gives them. An index is an association list from encoded keys to
  encoded values; the one-byte prefix that keeps the indexes apart in the backend is the argument of
  type \<open>index\<close>. The backend is a third-party database: it is taken at its documented behaviour when no
  input or output fails, a write batch is the list of its writes, and nothing in it is visible before
  \<open>Commit\<close>. The 64-bit fields keep their width, the signed timestamps as their bit patterns.
\<close>

section \<open>Items\<close>

record item =
  iAddress :: "bytes option"
  iData :: "bytes option"
  AccessTimestamp :: "64 word"
  StoreTimestamp :: "64 word"
  BinID :: "64 word"
  iType :: "64 word"
  Counter :: "64 word"
  PinCounter :: "64 word"
  GCounter :: "64 word"
  Tag :: "32 word"

definition zero_item :: item where
  "zero_item = \<lparr>iAddress = None, iData = None, AccessTimestamp = 0, StoreTimestamp = 0, BinID = 0, iType = 0,
     Counter = 0, PinCounter = 0, GCounter = 0, Tag = 0\<rparr>"

text \<open>A nil slice is \<open>None\<close>; where its bytes are used it is the empty one.\<close>

definition slice :: "bytes option \<Rightarrow> bytes" where
  "slice b = (case b of None \<Rightarrow> [] | Some x \<Rightarrow> x)"

definition Merge :: "item \<Rightarrow> item \<Rightarrow> item" where
  "Merge i j = i\<lparr>
     iAddress := (if iAddress i = None then iAddress j else iAddress i),
     iData := (if iData i = None then iData j else iData i),
     AccessTimestamp := (if AccessTimestamp i = 0 then AccessTimestamp j else AccessTimestamp i),
     StoreTimestamp := (if StoreTimestamp i = 0 then StoreTimestamp j else StoreTimestamp i),
     BinID := (if BinID i = 0 then BinID j else BinID i),
     PinCounter := (if PinCounter i = 0 then PinCounter j else PinCounter i),
     GCounter := (if GCounter i = 0 then GCounter j else GCounter i),
     Tag := (if Tag i = 0 then Tag j else Tag i)\<rparr>"

section \<open>The encodings\<close>

text \<open>\<open>binary.BigEndian\<close> on 64 bits.\<close>

definition be64 :: "64 word \<Rightarrow> bytes" where
  "be64 w = rev (le_bytes 8 (unat w))"

definition of_be64 :: "bytes \<Rightarrow> 64 word" where
  "of_be64 b = word_of_nat (le_nat (rev (take 8 b)))"

datatype index = DataIndex | AccessIndex | TransferIndex | GcIndex | PinIndex

fun EncodeKey :: "index \<Rightarrow> item \<Rightarrow> bytes" where
  "EncodeKey GcIndex i = be64 (AccessTimestamp i) @ be64 (BinID i) @ slice (iAddress i)"
| "EncodeKey _ i = slice (iAddress i)"

fun DecodeKey :: "index \<Rightarrow> bytes \<Rightarrow> item" where
  "DecodeKey GcIndex k = zero_item\<lparr>AccessTimestamp := of_be64 (take 8 k), BinID := of_be64 (drop 8 k), iAddress := Some (drop 16 k)\<rparr>"
| "DecodeKey _ k = zero_item\<lparr>iAddress := Some k\<rparr>"

fun EncodeValue :: "index \<Rightarrow> item \<Rightarrow> bytes" where
  "EncodeValue DataIndex i =
     be64 (BinID i) @ be64 (StoreTimestamp i) @ be64 (iType i) @ be64 (Counter i) @ slice (iData i)"
| "EncodeValue AccessIndex i = be64 (AccessTimestamp i)"
| "EncodeValue TransferIndex i = slice (iData i)"
| "EncodeValue GcIndex i = be64 (GCounter i)"
| "EncodeValue PinIndex i = be64 (PinCounter i)"

fun DecodeValue :: "index \<Rightarrow> bytes \<Rightarrow> item" where
  "DecodeValue DataIndex v =
     zero_item\<lparr>StoreTimestamp := of_be64 (drop 8 v), BinID := of_be64 v, iType := of_be64 (drop 16 v),
       Counter := of_be64 (drop 24 v), iData := Some (drop 32 v)\<rparr>"
| "DecodeValue AccessIndex v = zero_item\<lparr>AccessTimestamp := of_be64 v\<rparr>"
| "DecodeValue TransferIndex v = zero_item\<lparr>iData := Some v\<rparr>"
| "DecodeValue GcIndex v = zero_item\<lparr>GCounter := of_be64 v\<rparr>"
| "DecodeValue PinIndex v = zero_item\<lparr>PinCounter := of_be64 v\<rparr>"

section \<open>Operations on an index\<close>

type_synonym table = "(bytes \<times> bytes) list"
type_synonym tables = "index \<Rightarrow> table"

text \<open>\<open>driver.ErrNotFound\<close> is \<open>None\<close>.\<close>

definition Index_Get :: "index \<Rightarrow> tables \<Rightarrow> item \<Rightarrow> item option" where
  "Index_Get ix ts i = map_option (\<lambda>v. Merge (DecodeValue ix v) i) (map_of (ts ix) (EncodeKey ix i))"

definition Index_Has :: "index \<Rightarrow> tables \<Rightarrow> item \<Rightarrow> bool" where
  "Index_Has ix ts i \<longleftrightarrow> map_of (ts ix) (EncodeKey ix i) \<noteq> None"

definition Index_HasMulti :: "index \<Rightarrow> tables \<Rightarrow> item list \<Rightarrow> bool list" where
  "Index_HasMulti ix ts items = map (Index_Has ix ts) items"

fun Index_Fill :: "index \<Rightarrow> tables \<Rightarrow> item list \<Rightarrow> item list option" where
  "Index_Fill ix ts [] = Some []"
| "Index_Fill ix ts (i # items) =
     (case Index_Get ix ts i of
        None \<Rightarrow> None
      | Some j \<Rightarrow> map_option (Cons j) (Index_Fill ix ts items))"

definition Index_Put :: "index \<Rightarrow> item \<Rightarrow> tables \<Rightarrow> tables" where
  "Index_Put ix i ts = ts(ix := AList.update (EncodeKey ix i) (EncodeValue ix i) (ts ix))"

definition Index_Delete :: "index \<Rightarrow> item \<Rightarrow> tables \<Rightarrow> tables" where
  "Index_Delete ix i ts = ts(ix := AList.delete (EncodeKey ix i) (ts ix))"

text \<open>The items that \<open>Iterate\<close> without options passes to its callback, in the order of the keys.\<close>

definition Index_items :: "index \<Rightarrow> tables \<Rightarrow> item list" where
  "Index_items ix ts = map (\<lambda>(k, v). Merge (DecodeKey ix k) (DecodeValue ix v)) (sort_key fst (ts ix))"

definition Index_Count :: "index \<Rightarrow> tables \<Rightarrow> nat" where
  "Index_Count ix ts = length (ts ix)"

section \<open>Laws of the encodings\<close>

lemma length_be64 [simp]: "length (be64 w) = 8"
  by (simp add: be64_def)

lemma of_be64_be64 [simp]: "of_be64 (be64 w @ x) = w"
proof -
  have "le_nat (le_bytes 8 (unat w)) = unat w"
    using unsigned_less [where 'a = nat, of w] by (simp add: le_nat_bytes)
  then show ?thesis by (simp add: of_be64_def be64_def)
qed

lemma of_be64_be64' [simp]: "of_be64 (be64 w) = w"
  using of_be64_be64 [of w "[]"] by simp

lemma be64_inject [simp]: "be64 v = be64 w \<longleftrightarrow> v = w"
  using of_be64_be64' by metis

text \<open>The order of big-endian keys is the order of the numbers, so that an index keyed by time iterates by time.\<close>

lemma le_nat_snoc: "le_nat (xs @ [x]) = le_nat xs + 256 ^ length xs * unat x"
  by (induction xs) (simp_all add: algebra_simps)

lemma le_nat_less: "le_nat xs < 256 ^ length xs"
proof (induction xs)
  case (Cons x xs)
  have "unat x < 256" using unsigned_less [of x] by simp
  then have "unat x + 256 * le_nat xs < 256 * Suc (le_nat xs)" by simp
  also have "\<dots> \<le> 256 * 256 ^ length xs" using Cons by (simp only: Suc_leI mult_le_mono2)
  finally show ?case by simp
qed simp

lemma le_nat_rev_less_iff:
  "length xs = length ys \<Longrightarrow> le_nat (rev xs) < le_nat (rev ys) \<longleftrightarrow> xs < ys"
proof (induction xs ys rule: list_induct2)
  case (Cons x xs y ys)
  let ?P = "256 ^ length xs :: nat"
  have b: "le_nat (rev xs) < ?P" "le_nat (rev ys) < ?P"
    using le_nat_less [of "rev xs"] le_nat_less [of "rev ys"] Cons(1) by simp_all
  have "le_nat (rev xs) + ?P * unat x < le_nat (rev ys) + ?P * unat y \<longleftrightarrow>
      unat x < unat y \<or> x = y \<and> le_nat (rev xs) < le_nat (rev ys)"
  proof (cases "unat x" "unat y" rule: linorder_cases)
    case less
    then have "?P * Suc (unat x) \<le> ?P * unat y" by (simp only: Suc_leI mult_le_mono2)
    then show ?thesis using less b by simp
  next
    case greater
    then have "?P * Suc (unat y) \<le> ?P * unat x" by (simp only: Suc_leI mult_le_mono2)
    then show ?thesis using greater b by auto
  qed (simp add: unsigned_word_eqI)
  then show ?case using Cons(1,2) by (simp add: le_nat_snoc word_less_nat_alt)
qed simp

lemma be64_less_iff: "be64 v < be64 w \<longleftrightarrow> v < w"
proof -
  have "le_nat (le_bytes 8 (unat w)) = unat w" for w :: "64 word"
    using unsigned_less [where 'a = nat, of w] by (simp add: le_nat_bytes)
  then show ?thesis
    using le_nat_rev_less_iff [of "be64 v" "be64 w"] by (simp add: be64_def word_less_nat_alt)
qed

lemma append_less_iff:
  fixes a b x y :: "'a :: linorder list"
  shows "length a = length b \<Longrightarrow> a @ x < b @ y \<longleftrightarrow> a < b \<or> a = b \<and> x < y"
  by (induction a b rule: list_induct2) auto

lemma gc_key_less_iff:
  "EncodeKey GcIndex i < EncodeKey GcIndex j \<longleftrightarrow>
     AccessTimestamp i < AccessTimestamp j \<or> AccessTimestamp i = AccessTimestamp j \<and>
       (BinID i < BinID j \<or> BinID i = BinID j \<and> slice (iAddress i) < slice (iAddress j))"
  by (simp add: append_less_iff be64_less_iff)

lemma slice_simps [simp]: "slice None = []" "slice (Some x) = x"
  by (simp_all add: slice_def)

lemma gc_key_inject:
  "EncodeKey GcIndex i = EncodeKey GcIndex j \<longleftrightarrow>
     AccessTimestamp i = AccessTimestamp j \<and> BinID i = BinID j \<and> slice (iAddress i) = slice (iAddress j)"
  by simp

text \<open>What an index keeps of an item: its key fields and its value fields come back.\<close>

lemma DecodeValue_EncodeValue:
  "DecodeValue DataIndex (EncodeValue DataIndex i) =
     zero_item\<lparr>StoreTimestamp := StoreTimestamp i, BinID := BinID i, iType := iType i, Counter := Counter i,
       iData := Some (slice (iData i))\<rparr>"
  "DecodeValue AccessIndex (EncodeValue AccessIndex i) = zero_item\<lparr>AccessTimestamp := AccessTimestamp i\<rparr>"
  "DecodeValue TransferIndex (EncodeValue TransferIndex i) = zero_item\<lparr>iData := Some (slice (iData i))\<rparr>"
  "DecodeValue GcIndex (EncodeValue GcIndex i) = zero_item\<lparr>GCounter := GCounter i\<rparr>"
  "DecodeValue PinIndex (EncodeValue PinIndex i) = zero_item\<lparr>PinCounter := PinCounter i\<rparr>"
  by simp_all

lemma DecodeKey_EncodeKey:
  "DecodeKey GcIndex (EncodeKey GcIndex i) =
     zero_item\<lparr>AccessTimestamp := AccessTimestamp i, BinID := BinID i, iAddress := Some (slice (iAddress i))\<rparr>"
  by simp

lemma Index_Get_Put:
  "Index_Get ix (Index_Put ix' i ts) j =
     (if ix = ix' \<and> EncodeKey ix i = EncodeKey ix j then Some (Merge (DecodeValue ix (EncodeValue ix i)) j)
      else Index_Get ix ts j)"
  by (simp add: Index_Get_def Index_Put_def update_conv)

lemma Index_Get_Delete:
  "Index_Get ix (Index_Delete ix' i ts) j =
     (if ix = ix' \<and> EncodeKey ix i = EncodeKey ix j then None else Index_Get ix ts j)"
  by (simp add: Index_Get_def Index_Delete_def delete_conv)

lemma Index_Has_Get: "Index_Has ix ts i \<longleftrightarrow> Index_Get ix ts i \<noteq> None"
  by (simp add: Index_Has_def Index_Get_def)

end
