(* ===== verification/Localstore.thy ===== *)
theory Localstore
  imports ChunkStore Shed
begin

text \<open>
  The local chunk store (\<^verbatim>\<open>src/pkg/localstore\<close>): \<^verbatim>\<open>mode_put.go\<close>, \<^verbatim>\<open>mode_set.go\<close>, \<^verbatim>\<open>mode_get.go\<close>,
  \<^verbatim>\<open>mode_get_multi.go\<close>, \<^verbatim>\<open>mode_has.go\<close> and the accounting of \<^verbatim>\<open>gc.go\<close>. The operations run under
  \<open>batchMu\<close>, one after the other. Each collects its writes in a batch that \<open>Commit\<close> applies; reads see the
  tables only, not the batch. The readings of the clock and of the free memory are the parameter \<open>E\<close>,
  indexed by the number of readings before. The bookkeeping of \<open>chunkstore\<close> is that of its own theory.
\<close>

section \<open>The database\<close>

record env =
  now :: "nat \<Rightarrow> 64 word"
  getMemory :: "nat \<Rightarrow> 64 word"

record 'k localdb =
  tables :: tables
  binIDs :: "byte \<Rightarrow> 64 word"
  gcSize :: "64 word"
  chunkstore :: "'k chunkStore"
  capacity :: "64 word"
  baseKey :: bytes
  fullNode :: bool
  gcMemory :: "64 word"
  collectGarbageTrigger :: bool
  collectMemoryGarbageTrigger :: bool
  gcRunning :: bool
  dirtyAddresses :: "address list"
  readings :: nat

text \<open>A write of a batch, and a batch under construction together with the map of bin ids.\<close>

datatype lwrite = PutIndex index bytes bytes | DeleteIndex index bytes | PutBinID byte "64 word" | PutGCSize "64 word"

record 'k txn =
  tdb :: "'k localdb"
  tbatch :: "lwrite list"
  tbins :: "(byte \<times> 64 word) list"

definition NewBatch :: "'k localdb \<Rightarrow> 'k txn" where
  "NewBatch db = \<lparr>tdb = db, tbatch = [], tbins = []\<rparr>"

fun apply_write :: "lwrite \<Rightarrow> 'k localdb \<Rightarrow> 'k localdb" where
  "apply_write (PutIndex ix k v) db = db\<lparr>tables := (tables db)(ix := AList.update k v (tables db ix))\<rparr>"
| "apply_write (DeleteIndex ix k) db = db\<lparr>tables := (tables db)(ix := AList.delete k (tables db ix))\<rparr>"
| "apply_write (PutBinID p v) db = db\<lparr>binIDs := (binIDs db)(p := v)\<rparr>"
| "apply_write (PutGCSize v) db = db\<lparr>gcSize := v\<rparr>"

definition Commit :: "'k txn \<Rightarrow> 'k localdb" where
  "Commit t = fold apply_write (tbatch t) (tdb t)"

definition add_write :: "lwrite \<Rightarrow> 'k txn \<Rightarrow> 'k txn" where
  "add_write w t = t\<lparr>tbatch := tbatch t @ [w]\<rparr>"

definition PutInBatch :: "index \<Rightarrow> item \<Rightarrow> 'k txn \<Rightarrow> 'k txn" where
  "PutInBatch ix i = add_write (PutIndex ix (EncodeKey ix i) (EncodeValue ix i))"

definition DeleteInBatch :: "index \<Rightarrow> item \<Rightarrow> 'k txn \<Rightarrow> 'k txn" where
  "DeleteInBatch ix i = add_write (DeleteIndex ix (EncodeKey ix i))"

definition read_now :: "env \<Rightarrow> 'k txn \<Rightarrow> 64 word \<times> 'k txn" where
  "read_now E t = (now E (readings (tdb t)), t\<lparr>tdb := (tdb t)\<lparr>readings := readings (tdb t) + 1\<rparr>\<rparr>)"

abbreviation Get :: "index \<Rightarrow> 'k txn \<Rightarrow> item \<Rightarrow> item option" where
  "Get ix t i \<equiv> Index_Get ix (tables (tdb t)) i"

definition po :: "'k localdb \<Rightarrow> bytes \<Rightarrow> byte" where
  "po db a = Proximity (baseKey db) a"

text \<open>The zero address has no bytes.\<close>

definition addr_slice :: "address \<Rightarrow> bytes option" where
  "addr_slice a = (if Bytes a = [] then None else Some (Bytes a))"

definition chunkToItem :: "chunk \<Rightarrow> item" where
  "chunkToItem ch = zero_item\<lparr>iAddress := addr_slice (addr ch), iData := Some (sdata ch), Tag := tagID ch\<rparr>"

definition addressToItem :: "address \<Rightarrow> item" where
  "addressToItem a = zero_item\<lparr>iAddress := addr_slice a\<rparr>"

definition addressesToItems :: "address list \<Rightarrow> item list" where
  "addressesToItems as = map addressToItem as"

section \<open>Accounting\<close>

definition triggerGarbageCollection :: "'k localdb \<Rightarrow> 'k localdb" where
  "triggerGarbageCollection db = db\<lparr>collectGarbageTrigger := True\<rparr>"

definition triggerGarbageMemoryCollection :: "'k localdb \<Rightarrow> 'k localdb" where
  "triggerGarbageMemoryCollection db = db\<lparr>collectMemoryGarbageTrigger := True\<rparr>"

definition incGCSizeInBatch :: "env \<Rightarrow> int \<Rightarrow> 'k txn \<Rightarrow> 'k txn" where
  "incGCSizeInBatch E change t =
     (if change = 0 then t
      else
        let gs = gcSize (tdb t); c = word_of_int (- change) in
        if change < 0 \<and> gs < c then t
        else
          let newSize = (if 0 < change then gs + word_of_int change else gs - c);
              t1 = add_write (PutGCSize newSize) t;
              t2 = (if capacity (tdb t1) \<le> newSize then t1\<lparr>tdb := triggerGarbageCollection (tdb t1)\<rparr> else t1)
          in if fullNode (tdb t2)
             then let m = getMemory E (readings (tdb t2)); t3 = t2\<lparr>tdb := (tdb t2)\<lparr>readings := readings (tdb t2) + 1\<rparr>\<rparr>
                  in if m < gcMemory (tdb t3) then t3\<lparr>tdb := triggerGarbageMemoryCollection (tdb t3)\<rparr> else t3
             else t2)"

section \<open>Pinning\<close>

text \<open>
  \<open>setPin\<close> and \<open>setUnpin\<close>, with the change of the gc size. When the gc entry of the root counts more than
  one chunk, \<open>setPin\<close> writes it to the database at once and not to the batch.
\<close>

definition setPin :: "item \<Rightarrow> item \<Rightarrow> 'k txn \<Rightarrow> int outcome \<times> 'k txn" where
  "setPin i root t =
     (let i1 = i\<lparr>PinCounter := (case Get PinIndex t i of None \<Rightarrow> 0 | Some p \<Rightarrow> PinCounter p)\<rparr>;
          finish = (\<lambda>c t1. (Ok c, PutInBatch PinIndex (i1\<lparr>PinCounter := PinCounter i1 + 1\<rparr>) t1))
      in if iAddress root = None then finish 0 t
         else
           case Get AccessIndex t root of
             None \<Rightarrow> finish 0 t
           | Some a \<Rightarrow>
               let root1 = root\<lparr>AccessTimestamp := AccessTimestamp a\<rparr> in
               (case Get DataIndex t root1 of
                  None \<Rightarrow> (Fail ErrKeyNotFound, t)
                | Some d \<Rightarrow>
                    let root2 = root1\<lparr>StoreTimestamp := StoreTimestamp d, BinID := BinID d\<rparr> in
                    (case Get GcIndex t root2 of
                       None \<Rightarrow> finish (-1) t
                     | Some g \<Rightarrow>
                         if GCounter g = 1 then finish (-1) (DeleteInBatch GcIndex g t)
                         else finish (-1)
                           (t\<lparr>tdb := (tdb t)\<lparr>tables := Index_Put GcIndex (g\<lparr>GCounter := GCounter g - 1\<rparr>) (tables (tdb t))\<rparr>\<rparr>))))"

definition setUnpin :: "env \<Rightarrow> item \<Rightarrow> item \<Rightarrow> 'k txn \<Rightarrow> int outcome \<times> 'k txn" where
  "setUnpin E i root t =
     (case Get PinIndex t i of
        None \<Rightarrow> (Fail ErrKeyNotFound, t)
      | Some p \<Rightarrow>
          let i1 = i\<lparr>PinCounter := PinCounter p\<rparr> in
          if 1 < PinCounter i1 then (Ok 0, PutInBatch PinIndex (i1\<lparr>PinCounter := PinCounter i1 - 1\<rparr>) t)
          else
            let t1 = DeleteInBatch PinIndex i1 t in
            if iAddress root = None then (Ok 0, t1)
            else
              case (case Get AccessIndex t1 root of
                      None \<Rightarrow> (case read_now E t1 of (n, t2) \<Rightarrow>
                        (root\<lparr>AccessTimestamp := n\<rparr>, PutInBatch AccessIndex (root\<lparr>AccessTimestamp := n\<rparr>) t2))
                    | Some a \<Rightarrow> (root\<lparr>AccessTimestamp := AccessTimestamp a\<rparr>, t1)) of
                (root1, t2) \<Rightarrow>
                  (case Get DataIndex t2 root1 of
                     None \<Rightarrow> (Fail ErrKeyNotFound, t2)
                   | Some d \<Rightarrow>
                       let root2 = root1\<lparr>StoreTimestamp := StoreTimestamp d, BinID := BinID d\<rparr> in
                       (case Get GcIndex t2 root2 of
                          None \<Rightarrow> (Ok 1, PutInBatch GcIndex (root2\<lparr>GCounter := 1\<rparr>) t2)
                        | Some g \<Rightarrow> (Ok 1, PutInBatch GcIndex (g\<lparr>GCounter := GCounter g + 1\<rparr>) t2))))"

section \<open>Put\<close>

datatype ModePut = ModePutRequest | ModePutUpload | ModePutUploadPin | ModePutRequestPin | ModePutChain | ModePutUnknown

definition incBinID :: "byte \<Rightarrow> 'k txn \<Rightarrow> 64 word \<times> 'k txn" where
  "incBinID p t =
     (let v = (case map_of (tbins t) p of None \<Rightarrow> binIDs (tdb t) p | Some v \<Rightarrow> v) + 1
      in (v, t\<lparr>tbins := AList.update p v (tbins t)\<rparr>))"

text \<open>The bit of the first byte of the type that stands for type \<open>t\<close>.\<close>

definition type_bit :: "64 word \<Rightarrow> 64 word" where
  "type_bit t = push_bit (unat ((t - 1) mod 8)) 1"

definition putUpload :: "env \<Rightarrow> item \<Rightarrow> 'k txn \<Rightarrow> (bool \<times> item) \<times> 'k txn" where
  "putUpload E i t =
     (case Get DataIndex t i of
        Some old \<Rightarrow>
          let old1 = (if and (iType old) (type_bit (iType i)) = 0
                      then old\<lparr>iType := xor (iType old) (type_bit (iType i))\<rparr> else old);
              old2 = old1\<lparr>Counter := Counter old1 + 1\<rparr>
          in ((True, old2), PutInBatch DataIndex old2 t)
      | None \<Rightarrow>
          (case read_now E t of (n, t1) \<Rightarrow>
             (case incBinID (po (tdb t1) (slice (iAddress i))) t1 of (b, t2) \<Rightarrow>
                let i1 = i\<lparr>Counter := 1, StoreTimestamp := n, BinID := b\<rparr>
                in ((False, i1), PutInBatch DataIndex i1 t2))))"

definition setGC :: "env \<Rightarrow> item \<Rightarrow> 'k txn \<Rightarrow> int \<times> 'k txn" where
  "setGC E i t =
     (if iAddress i = None then (0, t)
      else
        case (case Get AccessIndex t i of
                Some a \<Rightarrow> (AccessTimestamp a, t)
              | None \<Rightarrow> (case read_now E t of (n, t1) \<Rightarrow>
                  (n, PutInBatch AccessIndex (zero_item\<lparr>iAddress := iAddress i, AccessTimestamp := n\<rparr>) t1))) of
          (n, t1) \<Rightarrow>
            let i1 = i\<lparr>AccessTimestamp := n\<rparr>;
                i2 = (if BinID i1 = 0
                      then i1\<lparr>BinID := (case Get DataIndex t1 i1 of None \<Rightarrow> 0 | Some d \<Rightarrow> BinID d)\<rparr> else i1);
                g = (case Get GcIndex t1 i2 of
                       None \<Rightarrow> i2\<lparr>GCounter := 1\<rparr>
                     | Some g \<Rightarrow> g\<lparr>GCounter := GCounter g + 1\<rparr>)
            in (1, PutInBatch GcIndex g t1))"

definition preserveOrCache :: "env \<Rightarrow> item \<Rightarrow> item \<Rightarrow> bool \<Rightarrow> 'k txn \<Rightarrow> int outcome \<times> 'k txn" where
  "preserveOrCache E i root forcePin t =
     (if forcePin then setPin i root t else (case setGC E root t of (c, t1) \<Rightarrow> (Ok c, t1)))"

definition putRequest :: "env \<Rightarrow> item \<Rightarrow> item \<Rightarrow> bool \<Rightarrow> 'k txn \<Rightarrow> (bool \<times> int) outcome \<times> 'k txn" where
  "putRequest E i root forcePin t =
     (case putUpload E i t of ((exists, i1), t1) \<Rightarrow>
        if exists then (Ok (True, 0), t1)
        else
          let root1 = (if slice (iAddress i1) = slice (iAddress root) then root\<lparr>BinID := BinID i1\<rparr> else root)
          in (case preserveOrCache E i1 root1 forcePin t1 of
                (r, t2) \<Rightarrow> (andthen r (\<lambda>c. Ok (False, c)), t2)))"

definition putTransfer :: "address \<Rightarrow> address list \<Rightarrow> 'k txn \<Rightarrow> 'k txn" where
  "putTransfer a chs t =
     (let i = addressToItem a;
          i1 = (case Get TransferIndex t i of None \<Rightarrow> i | Some j \<Rightarrow> j)
      in PutInBatch TransferIndex (i1\<lparr>iData := Some (slice (iData i1) @ concat (map Bytes chs))\<rparr>) t)"

text \<open>What one chunk of \<open>put\<close> does in each mode, and the loop over the chunks.\<close>

definition put_one :: "env \<Rightarrow> ModePut \<Rightarrow> address \<Rightarrow> chunk \<Rightarrow> 'k txn \<Rightarrow> (bool \<times> int) outcome \<times> 'k txn" where
  "put_one E mode root ch t =
     (let i = (chunkToItem ch)\<lparr>iType := 1\<rparr>; r = addressToItem root in
      case mode of
        ModePutUpload \<Rightarrow> (case putUpload E i t of ((ex, _), t1) \<Rightarrow> (Ok (ex, 0), t1))
      | ModePutUploadPin \<Rightarrow>
          (case putUpload E i t of ((ex, _), t1) \<Rightarrow>
             (case setPin i r t1 of (c, t2) \<Rightarrow> (andthen c (\<lambda>_. Ok (ex, 0)), t2)))
      | ModePutChain \<Rightarrow> putRequest E ((chunkToItem ch)\<lparr>iType := 2\<rparr>) r False t
      | _ \<Rightarrow>
          (case putRequest E i r (mode = ModePutRequestPin) t of
             (Ok x, t1) \<Rightarrow> (Ok x, putTransfer root [addr ch] t1)
           | (x, t1) \<Rightarrow> (x, t1)))"

fun put_all :: "env \<Rightarrow> ModePut \<Rightarrow> address \<Rightarrow> chunk list \<Rightarrow> 'k txn \<Rightarrow> (bool list \<times> int) outcome \<times> 'k txn" where
  "put_all E mode root [] t = (Ok ([], 0), t)"
| "put_all E mode root (ch # chs) t =
     (case put_one E mode root ch t of
        (Panic, t1) \<Rightarrow> (Panic, t1)
      | (Fail e, t1) \<Rightarrow> (Fail e, t1)
      | (Ok (ex, c), t1) \<Rightarrow>
          (case put_all E mode root chs t1 of
             (r, t2) \<Rightarrow> (andthen r (\<lambda>(exs, cs). Ok (ex # exs, c + cs)), t2)))"

fun put_bins :: "(byte \<times> 64 word) list \<Rightarrow> 'k txn \<Rightarrow> 'k txn" where
  "put_bins [] t = t"
| "put_bins ((p, v) # bs) t = put_bins bs (add_write (PutBinID p v) t)"

definition mark_dirty :: "address list \<Rightarrow> 'k localdb \<Rightarrow> 'k localdb" where
  "mark_dirty as db = (if gcRunning db then db\<lparr>dirtyAddresses := dirtyAddresses db @ as\<rparr> else db)"

text \<open>A failed \<open>put\<close> or \<open>set\<close> leaves what was not written through the batch.\<close>

definition db_put :: "env \<Rightarrow> ModePut \<Rightarrow> address \<Rightarrow> chunk list \<Rightarrow> 'k localdb \<Rightarrow> bool list outcome \<times> 'k localdb" where
  "db_put E mode root chs db =
     (let db1 = mark_dirty (map addr chs) db in
      if mode = ModePutUnknown then (Fail ErrInvalidMode, db1)
      else
        case put_all E mode root chs (NewBatch db1) of
          (Ok (exs, c), t) \<Rightarrow> (Ok exs, Commit (incGCSizeInBatch E c (put_bins (tbins t) t)))
        | (Fail e, t) \<Rightarrow> (Fail e, tdb t)
        | (Panic, t) \<Rightarrow> (Panic, tdb t))"

section \<open>Has and Get\<close>

datatype ModeHas = ModeHasPin | ModeHasChunk | ModeHasUnknown

definition db_Has :: "ModeHas \<Rightarrow> address \<Rightarrow> 'k localdb \<Rightarrow> bool outcome" where
  "db_Has mode a db =
     (case mode of
        ModeHasPin \<Rightarrow> Ok (Index_Has PinIndex (tables db) (addressToItem a))
      | ModeHasChunk \<Rightarrow> Ok (Index_Has DataIndex (tables db) (addressToItem a))
      | ModeHasUnknown \<Rightarrow> Fail ErrInvalidMode)"

definition db_HasMulti :: "ModeHas \<Rightarrow> address list \<Rightarrow> 'k localdb \<Rightarrow> bool list" where
  "db_HasMulti mode as db =
     Index_HasMulti (if mode = ModeHasPin then PinIndex else DataIndex) (tables db) (addressesToItems as)"

datatype ModeGet = ModeGetRequest | ModeGetSync | ModeGetLookup | ModeGetPin | ModeGetChain | ModeGetUnknown

text \<open>
  The result of \<open>get\<close> and the items it hands to \<open>updateGCItems\<close>, which updates them in goroutines of their
  own. With a root address a requested chunk whose bit is not set in \<open>chunkstore\<close> is also put to a batch, which
  is never committed.
\<close>

definition db_get :: "ModeGet \<Rightarrow> address \<Rightarrow> address \<Rightarrow> int \<Rightarrow> 'k localdb \<Rightarrow> item outcome \<times> item list" where
  "db_get mode a root ix db =
     (let i = addressToItem a in
      case Index_Get DataIndex (tables db) i of
        None \<Rightarrow> (Fail ErrKeyNotFound, [])
      | Some out \<Rightarrow>
          (case mode of
             ModeGetRequest \<Rightarrow>
               if and (iType out) 1 = 0 then (Fail ferror.ErrNotFound, [])
               else if \<not> IsZero root then
                 (case chunkStore_HasChunk SOURCE root ix (chunkstore db) of
                    None \<Rightarrow> (Panic, [addressToItem root])
                  | Some _ \<Rightarrow> (Ok out, [addressToItem root]))
               else (Ok out, [out])
           | ModeGetPin \<Rightarrow>
               (case Index_Get PinIndex (tables db) i of
                  None \<Rightarrow> (Fail ErrKeyNotFound, [])
                | Some p \<Rightarrow> (Ok p, []))
           | ModeGetChain \<Rightarrow> if and (iType out) 2 = 0 then (Fail ferror.ErrNotFound, []) else (Ok out, [])
           | ModeGetSync \<Rightarrow> (Ok out, [])
           | ModeGetLookup \<Rightarrow> (Ok out, [])
           | ModeGetUnknown \<Rightarrow> (Fail ErrInvalidMode, [])))"

definition item_chunk :: "item \<Rightarrow> chunk" where
  "item_chunk i = NewChunk (NewAddress (slice (iAddress i))) (slice (iData i))"

definition not_found :: "'a outcome \<Rightarrow> 'a outcome" where
  "not_found r = (if r = Fail ErrKeyNotFound then Fail ferror.ErrNotFound else r)"

definition db_Get :: "ModeGet \<Rightarrow> address \<Rightarrow> address \<Rightarrow> int \<Rightarrow> 'k localdb \<Rightarrow> chunk outcome" where
  "db_Get mode root a ix db = andthen (not_found (fst (db_get mode a root ix db))) (\<lambda>out. Ok (item_chunk out))"

definition db_getMulti :: "ModeGet \<Rightarrow> address list \<Rightarrow> 'k localdb \<Rightarrow> item list outcome \<times> item list" where
  "db_getMulti mode as db =
     (case Index_Fill DataIndex (tables db) (map (\<lambda>a. addressToItem a) as) of
        None \<Rightarrow> (Fail ErrKeyNotFound, [])
      | Some out \<Rightarrow>
          (case mode of
             ModeGetRequest \<Rightarrow> (Ok out, out)
           | ModeGetPin \<Rightarrow>
               (case Index_Fill PinIndex (tables db) out of None \<Rightarrow> (Fail ErrKeyNotFound, []) | Some p \<Rightarrow> (Ok p, []))
           | ModeGetSync \<Rightarrow> (Ok out, [])
           | ModeGetLookup \<Rightarrow> (Ok out, [])
           | _ \<Rightarrow> (Fail ErrInvalidMode, [])))"

definition db_GetMulti :: "ModeGet \<Rightarrow> address list \<Rightarrow> 'k localdb \<Rightarrow> chunk list outcome" where
  "db_GetMulti mode as db = andthen (not_found (fst (db_getMulti mode as db))) (\<lambda>out. Ok (map item_chunk out))"

text \<open>
  \<open>updateGC\<close> on one item. The \<open>goto\<close> runs the lookup at most twice, the second time with bin id 0.
\<close>

definition updateGC :: "env \<Rightarrow> item \<Rightarrow> 'k localdb \<Rightarrow> 'k localdb" where
  "updateGC E i db =
     (let db1 = mark_dirty [NewAddress (slice (iAddress i))] db;
          t = NewBatch db1;
          acc = Get AccessIndex t i;
          i1 = (case acc of None \<Rightarrow> i | Some a \<Rightarrow> i\<lparr>AccessTimestamp := AccessTimestamp a\<rparr>)
      in if AccessTimestamp i1 = 0 then db1
         else
           let j = (if BinID i1 = 0 then (case Get DataIndex t i1 of None \<Rightarrow> zero_item | Some d \<Rightarrow> d)
                    else (case acc of None \<Rightarrow> zero_item | Some a \<Rightarrow> a));
               i2 = (if BinID i1 = 0 then i1\<lparr>BinID := BinID j\<rparr> else i1);
               found = (case Get GcIndex t i2 of
                          Some g \<Rightarrow> Some (g, i2)
                        | None \<Rightarrow> if BinID i2 = 0 then None
                            else map_option (\<lambda>g. (g, i2\<lparr>BinID := 0\<rparr>)) (Get GcIndex t (i2\<lparr>BinID := 0\<rparr>)))
           in (case found of
                 None \<Rightarrow> db1
               | Some (g, i3) \<Rightarrow>
                   let i4 = i3\<lparr>BinID := BinID j\<rparr>; t1 = DeleteInBatch GcIndex g t in
                   (case read_now E t1 of (n, t2) \<Rightarrow>
                      let i5 = i4\<lparr>GCounter := GCounter g, AccessTimestamp := n\<rparr>
                      in Commit (PutInBatch AccessIndex i5 (PutInBatch GcIndex i5 t2)))))"

fun updateGCItems :: "env \<Rightarrow> item list \<Rightarrow> 'k localdb \<Rightarrow> 'k localdb" where
  "updateGCItems E [] db = db"
| "updateGCItems E (i # is') db = updateGCItems E is' (updateGC E i db)"

section \<open>Set\<close>

datatype ModeSet = ModeSetSync | ModeSetRemove | ModeSetPin | ModeSetUnpin | ModeSetUnknown

definition setSync :: "env \<Rightarrow> address \<Rightarrow> 'k txn \<Rightarrow> int \<times> 'k txn" where
  "setSync E a t =
     (let i = addressToItem a in
      case Get DataIndex t i of
        None \<Rightarrow> (0, t)
      | Some d \<Rightarrow>
          let i1 = i\<lparr>StoreTimestamp := StoreTimestamp d, BinID := BinID d\<rparr> in
          case (case Get AccessIndex t i1 of
                  None \<Rightarrow> (0, t)
                | Some ac \<Rightarrow> (-1, DeleteInBatch GcIndex (i1\<lparr>AccessTimestamp := AccessTimestamp ac\<rparr>) t)) of
            (c, t1) \<Rightarrow>
              (case read_now E t1 of (n, t2) \<Rightarrow>
                 let i2 = i1\<lparr>AccessTimestamp := n\<rparr>; t3 = PutInBatch AccessIndex i2 t2
                 in if Index_Has PinIndex (tables (tdb t3)) i2 then (c, t3) else (c + 1, PutInBatch GcIndex i2 t3)))"

text \<open>\<open>deleteFile\<close> on \<open>chunkstore\<close>, whose removals are not part of the batch.\<close>

definition remove_all_of :: "('k, bitvector) storer \<Rightarrow> ChunkType \<Rightarrow> address \<Rightarrow> 'k txn \<Rightarrow> unit outcome \<times> 'k txn" where
  "remove_all_of ops ct a t =
     (case chunkStore_RemoveAll ops ct a (chunkstore (tdb t)) of
        None \<Rightarrow> (Panic, t)
      | Some (e, cs) \<Rightarrow>
          (if e = None then Ok () else Fail ErrChunkStore, t\<lparr>tdb := (tdb t)\<lparr>chunkstore := cs\<rparr>\<rparr>))"

fun deleteFile_types :: "('k, bitvector) storer \<Rightarrow> ChunkType list \<Rightarrow> address \<Rightarrow> 'k txn \<Rightarrow> unit outcome \<times> 'k txn" where
  "deleteFile_types ops [] a t = (Ok (), t)"
| "deleteFile_types ops (ct # cts) a t =
     (case remove_all_of ops ct a t of
        (Ok _, t1) \<Rightarrow> deleteFile_types ops cts a t1
      | (r, t1) \<Rightarrow> (r, t1))"

definition deleteFile :: "('k, bitvector) storer \<Rightarrow> address \<Rightarrow> 'k txn \<Rightarrow> unit outcome \<times> 'k txn" where
  "deleteFile ops a t = deleteFile_types ops [DISCOVER, SERVICE, SOURCE] a t"

definition gcRemove_entry :: "('k, bitvector) storer \<Rightarrow> item \<Rightarrow> 'k txn \<Rightarrow> int outcome \<times> 'k txn" where
  "gcRemove_entry ops root t =
     (case deleteFile ops (NewAddress (slice (iAddress root))) t of
        (Panic, t1) \<Rightarrow> (Panic, t1)
      | (Fail e, t1) \<Rightarrow> (Fail e, t1)
      | (Ok _, t1) \<Rightarrow>
          (case Get GcIndex t1 root of
             None \<Rightarrow> (Ok 0, t1)
           | Some g \<Rightarrow>
               if 1 < GCounter g then (Ok (-1), PutInBatch GcIndex (g\<lparr>GCounter := GCounter g - 1\<rparr>) t1)
               else (Ok (-1), DeleteInBatch GcIndex g (DeleteInBatch AccessIndex root t1))))"

definition gcRemove :: "('k, bitvector) storer \<Rightarrow> item \<Rightarrow> 'k txn \<Rightarrow> int outcome \<times> 'k txn" where
  "gcRemove ops root t =
     (if StoreTimestamp root = 0 then
        (case Get DataIndex t root of
           None \<Rightarrow> (Fail ErrKeyNotFound, t)
         | Some d \<Rightarrow>
             let root1 = root\<lparr>StoreTimestamp := StoreTimestamp d, BinID := BinID d\<rparr> in
             (case Get AccessIndex t root1 of
                None \<Rightarrow> (Ok 0, t)
              | Some a \<Rightarrow> gcRemove_entry ops (root1\<lparr>AccessTimestamp := AccessTimestamp a\<rparr>) t))
      else gcRemove_entry ops root t)"

definition setRemove :: "('k, bitvector) storer \<Rightarrow> address \<Rightarrow> item \<Rightarrow> 'k txn \<Rightarrow> int outcome \<times> 'k txn" where
  "setRemove ops a root t =
     (case Get DataIndex t (addressToItem a) of
        None \<Rightarrow> gcRemove ops root t
      | Some i \<Rightarrow>
          if 1 < Counter i then (Ok 0, PutInBatch DataIndex (i\<lparr>Counter := Counter i - 1\<rparr>) t)
          else
            let i1 = (case Get AccessIndex t i of None \<Rightarrow> i | Some ac \<Rightarrow> i\<lparr>AccessTimestamp := AccessTimestamp ac\<rparr>);
                pin = Get PinIndex t i1;
                drop_data = (\<lambda>t1.
                  let t2 = DeleteInBatch DataIndex i1 t1 in
                  if Equal a (NewAddress (slice (iAddress root))) then gcRemove ops i1 t2
                  else gcRemove ops root (DeleteInBatch AccessIndex i1 t2))
            in (case pin of
                  None \<Rightarrow> drop_data t
                | Some p \<Rightarrow>
                    let p1 = p\<lparr>PinCounter := PinCounter p - 1\<rparr> in
                    if 0 < PinCounter p1 then (Ok 0, PutInBatch PinIndex p1 t)
                    else drop_data (DeleteInBatch PinIndex i1 t)))"

definition set_one ::
  "('k, bitvector) storer \<Rightarrow> env \<Rightarrow> ModeSet \<Rightarrow> address \<Rightarrow> address \<Rightarrow> 'k txn \<Rightarrow> int outcome \<times> 'k txn" where
  "set_one ops E mode root a t =
     (case mode of
        ModeSetSync \<Rightarrow> (case setSync E a t of (c, t1) \<Rightarrow> (Ok c, t1))
      | ModeSetRemove \<Rightarrow> setRemove ops a (addressToItem root) t
      | ModeSetPin \<Rightarrow>
          if Index_Has DataIndex (tables (tdb t)) (addressToItem a)
          then setPin (addressToItem a) (addressToItem root) t else (Fail ferror.ErrNotFound, t)
      | ModeSetUnpin \<Rightarrow> setUnpin E (addressToItem a) (addressToItem root) t
      | ModeSetUnknown \<Rightarrow> (Fail ErrInvalidMode, t))"

fun set_all ::
  "('k, bitvector) storer \<Rightarrow> env \<Rightarrow> ModeSet \<Rightarrow> address \<Rightarrow> address list \<Rightarrow> 'k txn \<Rightarrow> int outcome \<times> 'k txn" where
  "set_all ops E mode root [] t = (Ok 0, t)"
| "set_all ops E mode root (a # as) t =
     (case set_one ops E mode root a t of
        (Panic, t1) \<Rightarrow> (Panic, t1)
      | (Fail e, t1) \<Rightarrow> (Fail e, t1)
      | (Ok c, t1) \<Rightarrow> (case set_all ops E mode root as t1 of (r, t2) \<Rightarrow> (andthen r (\<lambda>cs. Ok (c + cs)), t2)))"

definition finish_set :: "env \<Rightarrow> int outcome \<times> 'k txn \<Rightarrow> unit outcome \<times> 'k localdb" where
  "finish_set E r =
     (case r of
        (Ok c, t) \<Rightarrow> (Ok (), Commit (incGCSizeInBatch E c t))
      | (Fail e, t) \<Rightarrow> (Fail e, tdb t)
      | (Panic, t) \<Rightarrow> (Panic, tdb t))"

definition db_set ::
  "('k, bitvector) storer \<Rightarrow> env \<Rightarrow> ModeSet \<Rightarrow> address \<Rightarrow> address list \<Rightarrow> 'k localdb \<Rightarrow> unit outcome \<times> 'k localdb" where
  "db_set ops E mode root as db =
     (let db1 = mark_dirty as db in
      if mode = ModeSetUnknown then (Fail ErrInvalidMode, db1)
      else finish_set E (set_all ops E mode root as (NewBatch db1)))"

section \<open>What a batch does to an index\<close>

fun write_map :: "index \<Rightarrow> lwrite \<Rightarrow> (bytes \<rightharpoonup> bytes) \<Rightarrow> bytes \<rightharpoonup> bytes" where
  "write_map ix (PutIndex ix' k v) m = (if ix' = ix then m(k \<mapsto> v) else m)"
| "write_map ix (DeleteIndex ix' k) m = (if ix' = ix then m(k := None) else m)"
| "write_map ix _ m = m"

lemma map_of_commit:
  "map_of (tables (fold apply_write ws db) ix) = fold (write_map ix) ws (map_of (tables db ix))"
proof (induction ws arbitrary: db)
  case (Cons w ws)
  then show ?case by (cases w) (simp_all add: update_conv' delete_conv' fun_upd_def)
qed simp

definition other_index :: "index \<Rightarrow> lwrite \<Rightarrow> bool" where
  "other_index ix w = (case w of PutIndex ix' k v \<Rightarrow> ix' \<noteq> ix | DeleteIndex ix' k \<Rightarrow> ix' \<noteq> ix | _ \<Rightarrow> True)"

lemma other_index_simps [simp]:
  "other_index ix (PutIndex ix' k v) \<longleftrightarrow> ix' \<noteq> ix"
  "other_index ix (DeleteIndex ix' k) \<longleftrightarrow> ix' \<noteq> ix"
  "other_index ix (PutBinID p x)" "other_index ix (PutGCSize x)"
  by (simp_all add: other_index_def)

lemma fold_other_index: "list_all (other_index ix) ws \<Longrightarrow> fold (write_map ix) ws m = m"
proof (induction ws arbitrary: m)
  case (Cons w ws)
  then show ?case by (cases w) simp_all
qed simp

text \<open>A step that leaves index \<open>ix\<close> alone, in the tables and in the batch.\<close>

definition quiet :: "index \<Rightarrow> 'k txn \<Rightarrow> 'k txn \<Rightarrow> bool" where
  "quiet ix t t' \<longleftrightarrow> tables (tdb t') ix = tables (tdb t) ix \<and>
     (\<exists>ws. tbatch t' = tbatch t @ ws \<and> list_all (other_index ix) ws)"

lemma quiet_refl [simp, intro]: "quiet ix t t"
  by (simp add: quiet_def)

lemma quiet_trans [trans]: "quiet ix t t' \<Longrightarrow> quiet ix t' t'' \<Longrightarrow> quiet ix t t''"
  by (auto simp: quiet_def)

lemma quiet_writes [simp]:
  "ix' \<noteq> ix \<Longrightarrow> quiet ix t (PutInBatch ix' i t)"
  "ix' \<noteq> ix \<Longrightarrow> quiet ix t (DeleteInBatch ix' i t)"
  "quiet ix t (add_write (PutBinID p x) t)"
  "quiet ix t (add_write (PutGCSize x) t)"
  by (simp_all add: quiet_def PutInBatch_def DeleteInBatch_def add_write_def)

lemma quiet_tables: "quiet ix t t' \<Longrightarrow> Index_Get ix (tables (tdb t')) i = Index_Get ix (tables (tdb t)) i"
  by (simp add: quiet_def Index_Get_def)

lemma quiet_read_now: "read_now E t = (n, t') \<Longrightarrow> quiet ix t t'"
  by (auto simp: read_now_def quiet_def)

lemma quiet_incBinID: "incBinID p t = (v, t') \<Longrightarrow> quiet ix t t'"
  by (auto simp: incBinID_def quiet_def Let_def)

lemma quiet_put_bins: "quiet ix t (put_bins bs t)"
proof (induction bs t rule: put_bins.induct)
  case (2 p v bs t)
  show ?case by simp (rule quiet_trans [OF _ 2], simp)
qed simp

lemma quiet_db: "quiet ix t t' \<Longrightarrow> tables db = tables (tdb t') \<Longrightarrow> quiet ix t (t'\<lparr>tdb := db\<rparr>)"
  by (simp add: quiet_def)

lemma quiet_incGCSize: "quiet ix t (incGCSizeInBatch E c t)"
proof -
  have "quiet ix t (add_write (PutGCSize x) t)" for x by simp
  then show ?thesis
    unfolding incGCSizeInBatch_def Let_def triggerGarbageCollection_def triggerGarbageMemoryCollection_def
    by (auto simp: quiet_def)
qed

lemma setPin_quiet:
  assumes "setPin i root t = (r, t')" "ix \<noteq> PinIndex" "ix \<noteq> GcIndex"
  shows "quiet ix t t'"
proof -
  have direct: "quiet ix t (t\<lparr>tdb := (tdb t)\<lparr>tables := Index_Put GcIndex g (tables (tdb t))\<rparr>\<rparr>)" for g
    using assms(3) by (simp add: quiet_def Index_Put_def)
  have q: "quiet ix t s \<Longrightarrow> quiet ix t (PutInBatch PinIndex x s)" for s x
    using assms(2) by (intro quiet_trans [of ix t s "PutInBatch PinIndex x s"]) simp_all
  have d: "quiet ix t (DeleteInBatch GcIndex g t)" for g using assms(3) by simp
  show ?thesis
    using assms(1) q [OF quiet_refl] q [OF direct] q [OF d] unfolding setPin_def Let_def
    by (auto split: if_splits option.splits)
qed

lemma setGC_quiet:
  assumes "setGC E i t = (c, t')" "ix \<noteq> AccessIndex" "ix \<noteq> GcIndex"
  shows "quiet ix t t'"
proof -
  have q: "quiet ix t s \<Longrightarrow> quiet ix t (PutInBatch GcIndex x s)" for s x
    using assms(3) by (intro quiet_trans [of ix t s "PutInBatch GcIndex x s"]) simp_all
  have r: "quiet ix t (PutInBatch AccessIndex x s)" if "read_now E t = (n, s)" for s n x
    using assms(2) by (intro quiet_trans [OF quiet_read_now [OF that]]) simp
  show ?thesis
    using assms(1) q [OF quiet_refl] q [OF r] unfolding setGC_def Let_def
    by (auto split: if_splits option.splits prod.splits)
qed

section \<open>Chunks that were put are read back\<close>

text \<open>The data and the type of what is stored under an address.\<close>

definition stored :: "'k localdb \<Rightarrow> bytes \<rightharpoonup> bytes" where
  "stored db k = map_option (drop 32) (map_of (tables db DataIndex) k)"

definition stored_type :: "'k localdb \<Rightarrow> bytes \<rightharpoonup> 64 word" where
  "stored_type db k = map_option (\<lambda>v. of_be64 (drop 16 v)) (map_of (tables db DataIndex) k)"

text \<open>What one chunk writes to the data index: the old data if there is some, and the bit of its type.\<close>

definition value_for :: "'k localdb \<Rightarrow> 64 word \<Rightarrow> chunk \<Rightarrow> bytes \<Rightarrow> bool" where
  "value_for db ty c v \<longleftrightarrow>
     drop 32 v = (case stored db (Bytes (addr c)) of None \<Rightarrow> sdata c | Some d \<Rightarrow> d) \<and>
     and (of_be64 (drop 16 v)) (type_bit ty) \<noteq> 0 \<and>
     (\<forall>x. stored_type db (Bytes (addr c)) = Some x \<longrightarrow> and (of_be64 (drop 16 v)) x = x)"

definition puts_data :: "'k localdb \<Rightarrow> 64 word \<Rightarrow> chunk list \<Rightarrow> 'k txn \<Rightarrow> 'k txn \<Rightarrow> bool" where
  "puts_data db ty cs t t' \<longleftrightarrow> tables (tdb t') DataIndex = tables (tdb t) DataIndex \<and>
     (\<exists>ws vs. tbatch t' = tbatch t @ ws \<and> list_all2 (value_for db ty) cs vs \<and>
        (\<forall>m. fold (write_map DataIndex) ws m = fold (\<lambda>(c, v) m. m(Bytes (addr c) \<mapsto> v)) (zip cs vs) m))"

lemma slice_addr_slice [simp]: "slice (addr_slice a) = Bytes a"
  by (simp add: addr_slice_def)

lemma Get_data:
  "Index_Get DataIndex ts i = map_option (\<lambda>v. Merge (DecodeValue DataIndex v) i) (map_of (ts DataIndex) (slice (iAddress i)))"
  by (simp add: Index_Get_def)

declare DecodeValue.simps [simp del] EncodeValue.simps [simp del]

lemma Merge_data [simp]:
  "iData (Merge (DecodeValue DataIndex v) i) = Some (drop 32 v)"
  "iType (Merge (DecodeValue DataIndex v) i) = of_be64 (drop 16 v)"
  "iAddress (Merge (DecodeValue DataIndex v) i) = iAddress i"
  by (simp_all add: Merge_def zero_item_def DecodeValue.simps)

lemma EncodeValue_data [simp]:
  "drop 32 (EncodeValue DataIndex i) = slice (iData i)"
  "of_be64 (drop 16 (EncodeValue DataIndex i)) = iType i"
  by (simp_all add: EncodeValue.simps)

lemma puts_data_quiet:
  assumes "puts_data db ty cs t t'" "quiet DataIndex t' t''"
  shows "puts_data db ty cs t t''"
proof -
  obtain ws vs where w: "tbatch t' = tbatch t @ ws" "list_all2 (value_for db ty) cs vs"
      "\<And>m. fold (write_map DataIndex) ws m = fold (\<lambda>(c, v) m. m(Bytes (addr c) \<mapsto> v)) (zip cs vs) m"
    using assms(1) by (auto simp: puts_data_def)
  obtain us where u: "tbatch t'' = tbatch t' @ us" "list_all (other_index DataIndex) us" using assms(2) by (auto simp: quiet_def)
  then show ?thesis using w assms fold_other_index [OF u(2)]
    by (auto simp: puts_data_def quiet_def intro!: exI [of _ "ws @ us"] exI [of _ vs])
qed

lemma puts_data_append:
  assumes "puts_data db ty cs t t'" "puts_data db ty cs' t' t''"
  shows "puts_data db ty (cs @ cs') t t''"
proof -
  obtain ws vs where w: "tbatch t' = tbatch t @ ws" "list_all2 (value_for db ty) cs vs"
      "\<And>m. fold (write_map DataIndex) ws m = fold (\<lambda>(c, v) m. m(Bytes (addr c) \<mapsto> v)) (zip cs vs) m"
    using assms(1) by (auto simp: puts_data_def)
  obtain us xs where u: "tbatch t'' = tbatch t' @ us" "list_all2 (value_for db ty) cs' xs"
      "\<And>m. fold (write_map DataIndex) us m = fold (\<lambda>(c, v) m. m(Bytes (addr c) \<mapsto> v)) (zip cs' xs) m"
    using assms(2) by (auto simp: puts_data_def)
  have "length cs = length vs" using w(2) by (rule list_all2_lengthD)
  then show ?thesis using w u assms
    by (auto simp: puts_data_def list_all2_appendI intro!: exI [of _ "ws @ us"] exI [of _ "vs @ xs"])
qed

lemma and_type_bit: "and (x :: 64 word) (type_bit t) = 0 \<Longrightarrow> and (xor x (type_bit t)) (type_bit t) \<noteq> 0"
proof -
  assume a: "and x (type_bit t) = 0"
  let ?n = "unat ((t - 1) mod 8)"
  have n: "?n < 64" by (simp add: unat_mod order_less_le_trans [of _ 8])
  have "bit (type_bit t) ?n" using n by (simp add: type_bit_def bit_simps)
  moreover have "\<not> bit x ?n" using a \<open>bit (type_bit t) ?n\<close> by (metis bit_and_iff bit_0_eq bot_apply bot_bool_def)
  ultimately have "bit (and (xor x (type_bit t)) (type_bit t)) ?n" by (simp add: bit_simps)
  then show ?thesis by (metis bit_0_eq bot_apply bot_bool_def)
qed

lemma xor_disjoint_keeps: "and (x :: 64 word) y = 0 \<Longrightarrow> and (xor x y) x = x"
  by (rule bit_word_eqI) (metis bit_and_iff bit_xor_iff bit_0_eq bot_apply bot_bool_def)

lemma type_bit_nonzero: "type_bit t \<noteq> 0"
  using and_type_bit [of 0 t] by auto

lemma putUpload_puts:
  assumes "putUpload E ((chunkToItem c)\<lparr>iType := ty\<rparr>) t = ((ex, i), t')" "tables (tdb t) DataIndex = tables db DataIndex"
    and ty: "and ty (type_bit ty) \<noteq> 0"
  shows "puts_data db ty [c] t t'" "ex \<longleftrightarrow> stored db (Bytes (addr c)) \<noteq> None" "slice (iAddress i) = Bytes (addr c)"
proof -
  let ?k = "Bytes (addr c)" and ?i = "(chunkToItem c)\<lparr>iType := ty\<rparr>"
  have k: "slice (iAddress ?i) = ?k" by (simp add: chunkToItem_def)
  have one: "puts_data db ty [c] s (PutInBatch DataIndex j s)"
    if "slice (iAddress j) = ?k" "value_for db ty c (EncodeValue DataIndex j)" for j s
    using that unfolding puts_data_def
    by (auto simp: PutInBatch_def add_write_def
        intro!: exI [of _ "[PutIndex DataIndex ?k (EncodeValue DataIndex j)]"] exI [of _ "[EncodeValue DataIndex j]"])
  have "puts_data db ty [c] t t' \<and> (ex \<longleftrightarrow> stored db ?k \<noteq> None) \<and> slice (iAddress i) = ?k"
  proof (cases "map_of (tables db DataIndex) ?k")
    case None
    then have s: "stored db ?k = None" "stored_type db ?k = None" by (simp_all add: stored_def stored_type_def)
    obtain n t1 where n: "read_now E t = (n, t1)" by force
    obtain b t2 where b: "incBinID (po (tdb t1) (slice (iAddress ?i))) t1 = (b, t2)" by force
    let ?j = "?i\<lparr>Counter := 1, StoreTimestamp := n, BinID := b\<rparr>"
    have r: "ex = False" "i = ?j" "t' = PutInBatch DataIndex ?j t2"
      using assms None n b k by (auto simp: putUpload_def Get_data Let_def)
    have q: "quiet DataIndex t t2" by (rule quiet_trans [OF quiet_read_now [OF n] quiet_incBinID [OF b]])
    have v: "value_for db ty c (EncodeValue DataIndex ?j)"
      using s ty unfolding value_for_def EncodeValue_data by (simp add: chunkToItem_def)
    have "puts_data db ty [] t t2" using q by (auto simp: puts_data_def quiet_def fold_other_index)
    from puts_data_append [OF this one [of ?j t2]] show ?thesis using v r s k by simp
  next
    case (Some v)
    then have s: "stored db ?k = Some (drop 32 v)" "stored_type db ?k = Some (of_be64 (drop 16 v))"
      by (simp_all add: stored_def stored_type_def)
    let ?o = "Merge (DecodeValue DataIndex v) ?i"
    let ?p = "if and (iType ?o) (type_bit ty) = 0 then ?o\<lparr>iType := xor (iType ?o) (type_bit ty)\<rparr> else ?o"
    let ?j = "?p\<lparr>Counter := Counter ?p + 1\<rparr>"
    have r: "ex = True" "i = ?j" "t' = PutInBatch DataIndex ?j t"
      using assms Some k by (auto simp: putUpload_def Get_data Let_def)
    have a: "slice (iAddress ?j) = ?k" using k by simp
    have "value_for db ty c (EncodeValue DataIndex ?j)"
      using s and_type_bit xor_disjoint_keeps unfolding value_for_def EncodeValue_data by simp
    then show ?thesis using one [OF a] r s a by blast
  qed
  then show "puts_data db ty [c] t t'" "ex \<longleftrightarrow> stored db ?k \<noteq> None" "slice (iAddress i) = ?k" by blast+
qed

lemma type_bits [simp]: "type_bit 1 = 1" "type_bit 2 = 2"
  by (simp_all add: type_bit_def)

definition mode_type :: "ModePut \<Rightarrow> 64 word" where
  "mode_type mode = (if mode = ModePutChain then 2 else 1)"

lemma mode_type_bit: "and (mode_type mode) (type_bit (mode_type mode)) \<noteq> 0"
  by (simp add: mode_type_def)

lemma putRequest_puts:
  assumes "putRequest E ((chunkToItem c)\<lparr>iType := ty\<rparr>) root pin t = (Ok (ex, n), t')"
    "tables (tdb t) DataIndex = tables db DataIndex" "and ty (type_bit ty) \<noteq> 0"
  shows "puts_data db ty [c] t t' \<and> (ex \<longleftrightarrow> stored db (Bytes (addr c)) \<noteq> None)"
proof -
  obtain e i t1 where u: "putUpload E ((chunkToItem c)\<lparr>iType := ty\<rparr>) t = ((e, i), t1)" by (metis surj_pair)
  note p = putUpload_puts [OF u assms(2,3)]
  show ?thesis
  proof (cases e)
    case True
    then show ?thesis using assms(1) u p by (simp add: putRequest_def)
  next
    case False
    define root1 where "root1 = (if slice (iAddress i) = slice (iAddress root) then root\<lparr>BinID := BinID i\<rparr> else root)"
    obtain r t2 where c: "preserveOrCache E i root1 pin t1 = (r, t2)" by force
    have "quiet DataIndex t1 t2"
      using c setPin_quiet [of i root1 t1 r t2 DataIndex] setGC_quiet [of E root1 t1 _ _ DataIndex]
      by (auto simp: preserveOrCache_def split: if_splits prod.splits)
    moreover have "putRequest E ((chunkToItem c)\<lparr>iType := ty\<rparr>) root pin t = (andthen r (\<lambda>n. Ok (False, n)), t2)"
      using False by (simp only: putRequest_def u prod.case Let_def root1_def [symmetric] c if_False)
    then have "t' = t2" "ex = False" using assms(1) by (cases r; simp)+
    ultimately show ?thesis using p False puts_data_quiet [OF p(1)] by simp
  qed
qed

lemma put_one_puts:
  assumes "put_one E mode root c t = (Ok (ex, n), t')" "tables (tdb t) DataIndex = tables db DataIndex"
  shows "puts_data db (mode_type mode) [c] t t' \<and> (ex \<longleftrightarrow> stored db (Bytes (addr c)) \<noteq> None)"
proof -
  note u = putUpload_puts [OF _ assms(2) mode_type_bit [of mode]]
  note r = putRequest_puts [OF _ assms(2) mode_type_bit [of mode]]
  have tr: "quiet DataIndex s (putTransfer root [addr c] s)" for s :: "'a txn"
    by (simp add: putTransfer_def Let_def)
  show ?thesis
  proof (cases mode)
    case ModePutUpload
    then show ?thesis using assms(1) u by (auto simp: put_one_def mode_type_def Let_def split: prod.splits)
  next
    case ModePutUploadPin
    obtain e i t1 where u1: "putUpload E ((chunkToItem c)\<lparr>iType := mode_type mode\<rparr>) t = ((e, i), t1)" by (metis surj_pair)
    obtain x t2 where s: "setPin ((chunkToItem c)\<lparr>iType := mode_type mode\<rparr>) (addressToItem root) t1 = (x, t2)" by force
    have "t' = t2" "e = ex"
      using assms(1) u1 s ModePutUploadPin by (cases x; simp add: put_one_def mode_type_def Let_def)+
    then show ?thesis using u [OF u1] puts_data_quiet [OF _ setPin_quiet [OF s]] by simp
  next
    case ModePutChain
    then show ?thesis using assms(1) r by (auto simp: put_one_def mode_type_def Let_def)
  qed (use assms(1) r puts_data_quiet [OF _ tr] in
      \<open>auto simp: put_one_def mode_type_def Let_def split: prod.splits outcome.splits\<close>)
qed

end
