(* ===== verification/LocalPut.thy ===== *)
theory LocalPut
  imports Localstore
begin

text \<open>
  What a \<open>put\<close> of the local chunk store does to the chunks that are read back
  (\<^verbatim>\<open>src/pkg/localstore/mode_put.go\<close> and \<^verbatim>\<open>mode_get.go\<close>).
\<close>

section \<open>The data index after a put\<close>

lemma put_all_puts:
  "put_all E mode root cs t = (Ok (exs, n), t') \<Longrightarrow> tables (tdb t) DataIndex = tables db DataIndex \<Longrightarrow>
   puts_data db (mode_type mode) cs t t' \<and> exs = map (\<lambda>c. stored db (Bytes (addr c)) \<noteq> None) cs"
proof (induction cs arbitrary: t exs n t')
  case Nil
  then show ?case by (auto simp: puts_data_def)
next
  case (Cons c cs)
  obtain r t1 where o: "put_one E mode root c t = (r, t1)" by force
  then obtain ex m where r: "r = Ok (ex, m)" using Cons(2) by (cases r) auto
  note p = put_one_puts [OF o [unfolded r] Cons(3)]
  obtain r2 t2 where a: "put_all E mode root cs t1 = (r2, t2)" by force
  then obtain exs2 m2 where r2: "r2 = Ok (exs2, m2)" using Cons(2) o r by (cases r2) auto
  have "tables (tdb t1) DataIndex = tables db DataIndex" using p Cons(3) by (simp add: puts_data_def)
  from Cons(1) [OF a [unfolded r2] this] show ?case
    using Cons(2) o r a r2 p puts_data_append [of db _ "[c]" t t1 cs t2] by auto
qed

text \<open>The last of the chunks with an address.\<close>

definition chunk_data :: "chunk list \<Rightarrow> bytes \<rightharpoonup> bytes" where
  "chunk_data cs = map_of (rev (map (\<lambda>c. (Bytes (addr c), sdata c)) cs))"

lemma chunk_data_Cons: "chunk_data (c # cs) = [Bytes (addr c) \<mapsto> sdata c] ++ chunk_data cs"
  by (simp add: chunk_data_def map_add_def fun_eq_iff split: option.splits)

abbreviation put_values :: "chunk list \<Rightarrow> bytes list \<Rightarrow> (bytes \<rightharpoonup> bytes) \<Rightarrow> bytes \<rightharpoonup> bytes" where
  "put_values cs vs \<equiv> fold (\<lambda>(c, v) m. m(Bytes (addr c) \<mapsto> v)) (zip cs vs)"

lemma put_values_data:
  assumes "list_all2 (value_for db ty) cs vs"
  shows "map_option (drop 32) (put_values cs vs m k) =
      (case chunk_data cs k of
         None \<Rightarrow> map_option (drop 32) (m k)
       | Some d \<Rightarrow> Some (case stored db k of None \<Rightarrow> d | Some x \<Rightarrow> x))"
  using assms
proof (induction arbitrary: m rule: list_all2_induct)
  case (Cons c cs v vs)
  then show ?case
    by (cases "chunk_data cs k") (simp_all add: chunk_data_Cons map_add_def value_for_def)
qed (simp add: chunk_data_def)

lemma put_values_lookup:
  assumes "list_all2 P cs vs" "k \<in> Bytes ` addr ` set cs \<or> (\<exists>c v. Bytes (addr c) = k \<and> P c v \<and> m k = Some v)"
  shows "\<exists>c v. Bytes (addr c) = k \<and> P c v \<and> put_values cs vs m k = Some v"
  using assms
proof (induction arbitrary: m rule: list_all2_induct)
  case (Cons c cs v vs)
  have "k \<in> Bytes ` addr ` set cs \<or> (\<exists>c' v'. Bytes (addr c') = k \<and> P c' v' \<and> (m(Bytes (addr c) \<mapsto> v)) k = Some v')"
    using Cons(1,4) by auto
  from Cons(3) [of "m(Bytes (addr c) \<mapsto> v)", OF this] show ?case by simp
qed auto

text \<open>The tables after a successful \<open>put\<close>.\<close>

lemma tables_mark_dirty [simp]: "tables (mark_dirty as db) = tables db"
  by (simp add: mark_dirty_def)

lemma db_put_tables:
  assumes "db_put E mode root cs db = (Ok exs, db')"
  obtains vs where "list_all2 (value_for db (mode_type mode)) cs vs"
    "map_of (tables db' DataIndex) = put_values cs vs (map_of (tables db DataIndex))"
    "exs = map (\<lambda>c. stored db (Bytes (addr c)) \<noteq> None) cs"
proof -
  let ?db = "mark_dirty (map addr cs) db"
  obtain r t where a: "put_all E mode root cs (NewBatch ?db) = (r, t)" by force
  have m: "mode \<noteq> ModePutUnknown" using assms by (auto simp: db_put_def Let_def)
  then obtain n where r: "r = Ok (exs, n)" "db' = Commit (incGCSizeInBatch E n (put_bins (tbins t) t))"
    using assms a by (cases r) (auto simp: db_put_def Let_def)
  have p: "puts_data db (mode_type mode) cs (NewBatch ?db) t" "exs = map (\<lambda>c. stored db (Bytes (addr c)) \<noteq> None) cs"
    using put_all_puts [OF a [unfolded r(1)], of db] by (simp_all add: NewBatch_def)
  have "quiet DataIndex t (incGCSizeInBatch E n (put_bins (tbins t) t))"
    by (rule quiet_trans [OF quiet_put_bins quiet_incGCSize])
  from puts_data_quiet [OF p(1) this] show thesis
    using that p(2) r(2) by (auto simp: puts_data_def NewBatch_def Commit_def map_of_commit)
qed

lemma stored_put:
  assumes "db_put E mode root cs db = (Ok exs, db')"
  shows "stored db' k = (case stored db k of None \<Rightarrow> chunk_data cs k | Some d \<Rightarrow> Some d)"
proof -
  obtain vs where v: "list_all2 (value_for db (mode_type mode)) cs vs"
    "map_of (tables db' DataIndex) = put_values cs vs (map_of (tables db DataIndex))"
    using db_put_tables [OF assms] .
  show ?thesis
    using put_values_data [OF v(1), of "map_of (tables db DataIndex)" k] v(2)
    by (auto simp: stored_def split: option.splits)
qed

lemma stored_type_put:
  assumes "db_put E mode root cs db = (Ok exs, db')" "c \<in> set cs"
  shows "\<exists>x. stored_type db' (Bytes (addr c)) = Some x \<and> and x (mode_type mode) \<noteq> 0"
proof -
  obtain vs where v: "list_all2 (value_for db (mode_type mode)) cs vs"
    "map_of (tables db' DataIndex) = put_values cs vs (map_of (tables db DataIndex))"
    using db_put_tables [OF assms(1)] .
  have "type_bit (mode_type mode) = mode_type mode" by (simp add: mode_type_def)
  moreover obtain c' w where "value_for db (mode_type mode) c' w" "put_values cs vs (map_of (tables db DataIndex)) (Bytes (addr c)) = Some w"
    using put_values_lookup [OF v(1), of "Bytes (addr c)" "map_of (tables db DataIndex)"] assms(2) by auto
  ultimately show ?thesis using v(2) by (simp add: stored_type_def value_for_def)
qed

lemma stored_type_stored: "stored_type db k = None \<longleftrightarrow> stored db k = None"
  by (simp add: stored_type_def stored_def)

lemma item_chunk_data: "item_chunk (Merge (DecodeValue DataIndex v) (addressToItem a)) = NewChunk a (drop 32 v)"
  by (simp add: item_chunk_def addressToItem_def NewAddress_def)

lemma Get_addressToItem:
  "Index_Get DataIndex ts (addressToItem a) =
     map_option (\<lambda>v. Merge (DecodeValue DataIndex v) (addressToItem a)) (map_of (ts DataIndex) (Bytes a))"
  by (simp add: Get_data addressToItem_def)

lemma Get_lookup:
  "db_Get ModeGetLookup root a ix db =
     (case stored db (Bytes a) of None \<Rightarrow> Fail ferror.ErrNotFound | Some d \<Rightarrow> Ok (NewChunk a d))"
  by (cases "map_of (tables db DataIndex) (Bytes a)")
    (simp_all add: db_Get_def db_get_def Get_addressToItem stored_def not_found_def item_chunk_data)

lemma Get_request:
  "db_Get ModeGetRequest ZeroAddress a ix db =
     (case stored_type db (Bytes a) of
        None \<Rightarrow> Fail ferror.ErrNotFound
      | Some x \<Rightarrow> if and x 1 = 0 then Fail ferror.ErrNotFound else db_Get ModeGetLookup ZeroAddress a ix db)"
  by (cases "map_of (tables db DataIndex) (Bytes a)")
    (simp_all add: db_Get_def db_get_def Get_addressToItem stored_type_def not_found_def IsZero_def Equal_def item_chunk_data Let_def)

lemma Has_stored: "db_Has ModeHasChunk a db = Ok (stored db (Bytes a) \<noteq> None)"
  by (simp add: db_Has_def Index_Has_Get Get_addressToItem stored_def)

text \<open>An upload without pinning cannot fail.\<close>

lemma put_all_upload: "\<exists>exs t'. put_all E ModePutUpload root cs t = (Ok (exs, 0), t')"
proof (induction cs arbitrary: t)
  case (Cons c cs)
  obtain ex i t1 where "putUpload E ((chunkToItem c)\<lparr>iType := 1\<rparr>) t = ((ex, i), t1)" by (metis surj_pair)
  moreover obtain exs t2 where "put_all E ModePutUpload root cs t1 = (Ok (exs, 0), t2)" using Cons by blast
  ultimately show ?case by (simp add: put_one_def Let_def)
qed simp

lemma db_put_upload: "\<exists>exs db'. db_put E ModePutUpload root cs db = (Ok exs, db')"
proof -
  obtain exs t where "put_all E ModePutUpload root cs (NewBatch (mark_dirty (map addr cs) db)) = (Ok (exs, 0), t)"
    using put_all_upload by blast
  then show ?thesis by (simp add: db_put_def Let_def)
qed

section \<open>Reading over writing\<close>


definition fresh_db :: "unit localdb" where
  "fresh_db = \<lparr>tables = (\<lambda>_. []), binIDs = (\<lambda>_. 0), gcSize = 0, chunkstore = chunkStore_New (), capacity = 100, baseKey = [0],
     fullNode = False, gcMemory = 0, collectGarbageTrigger = False, collectMemoryGarbageTrigger = False, gcRunning = False,
     dirtyAddresses = [], readings = 0\<rparr>"


end
