(* ===== verification/HashTrie.thy ===== *)
theory HashTrie
  imports Feeder
begin

text \<open>
  The hash trie writer (\<^verbatim>\<open>src/pkg/file/pipeline/hashtrie/hashtrie.go\<close>): it collects the references of
  the chunks of a file level by level, in one buffer with a cursor per level, and wraps a full
  level into a chunk whose reference goes to the level above. The short pipeline that stores a
  chunk and returns its reference with the key is the parameter \<open>save\<close>.
\<close>

section \<open>Hash trie writer\<close>

definition maxLevel :: nat where
  "maxLevel = 8"

record hashtrie =
  branching :: nat
  refSize :: nat
  cursors :: "nat list"
  hbuffer :: bytes
  full :: bool

definition fullChunk :: "hashtrie \<Rightarrow> nat" where
  "fullChunk h = (refSize h + SpanSize) * branching h"

definition NewHashTrieWriter :: "nat \<Rightarrow> nat \<Rightarrow> nat \<Rightarrow> hashtrie" where
  "NewHashTrieWriter chunkSize br refLen =
     \<lparr>branching = br, refSize = refLen, cursors = replicate 9 0,
      hbuffer = replicate ((chunkSize + SpanSize) * 9 * 2) 0, full = False\<rparr>"

text \<open>The three copies of \<open>writeToLevel\<close>, of consecutive fields at the cursor; the slice bounds are checked.\<close>

definition append_level :: "nat \<Rightarrow> bytes \<Rightarrow> hashtrie \<Rightarrow> hashtrie outcome" where
  "append_level level e h =
     (if level < length (cursors h) \<and> cursors h ! level + length e \<le> length (hbuffer h)
      then Ok (h\<lparr>hbuffer := copy_at (cursors h ! level) e (hbuffer h),
                 cursors := (cursors h)[level := cursors h ! level + length e]\<rparr>)
      else Panic)"

definition levelSize :: "nat \<Rightarrow> hashtrie \<Rightarrow> int" where
  "levelSize level h =
     (if level = 8 then int (cursors h ! level) else int (cursors h ! level) - int (cursors h ! (level + 1)))"

text \<open>The loop of \<open>wrapFullLevel\<close> over the entries of a level: the sum of the spans and the references.\<close>

function wrap_scan :: "nat \<Rightarrow> bytes \<Rightarrow> nat \<Rightarrow> bytes \<Rightarrow> (nat \<times> bytes) outcome" where
  "wrap_scan rs data sp hashes =
     (if data = [] then Ok (sp, hashes)
      else if length data < rs + 8 then Panic
      else wrap_scan rs (drop (rs + 8) data) ((sp + Uint64 (take 8 data)) mod 2 ^ 64)
             (hashes @ take rs (drop 8 data)))"
  by auto
termination
  by (relation "measure (\<lambda>(rs, data, sp, hashes). length data)") auto

declare wrap_scan.simps [simp del]

text \<open>
  \<open>writeToLevel\<close> and \<open>wrapFullLevel\<close> call each other, one level up each time; the cursors have
  nine entries, so level 9 is an index out of range.
\<close>

function (sequential) writeToLevel ::
    "(bytes \<Rightarrow> 's \<Rightarrow> (bytes \<times> 's) outcome) \<Rightarrow> nat \<Rightarrow> bytes \<Rightarrow> bytes \<Rightarrow> hashtrie \<Rightarrow> 's \<Rightarrow> (hashtrie \<times> 's) outcome"
  and wrapFullLevel ::
    "(bytes \<Rightarrow> 's \<Rightarrow> (bytes \<times> 's) outcome) \<Rightarrow> nat \<Rightarrow> hashtrie \<Rightarrow> 's \<Rightarrow> (hashtrie \<times> 's) outcome" where
  "writeToLevel save level sp ref h s =
     (if level < 9 then
        andthen (append_level level (sp @ ref) h) (\<lambda>h1.
          if levelSize level h1 = int (fullChunk h1) then wrapFullLevel save level h1 s else Ok (h1, s))
      else Panic)"
| "wrapFullLevel save level h s =
     (if level < 8 \<and> cursors h ! (level + 1) \<le> cursors h ! level \<and> cursors h ! level \<le> length (hbuffer h) then
        andthen (wrap_scan (refSize h) (drop (cursors h ! (level + 1)) (take (cursors h ! level) (hbuffer h))) 0 [])
          (\<lambda>(sp, hashes).
             andthen (save (PutUint64 sp @ hashes) s) (\<lambda>(ref, s1).
               andthen (writeToLevel save (level + 1) (PutUint64 sp) ref h s1) (\<lambda>(h1, s2).
                 Ok (h1\<lparr>cursors := (cursors h1)[level := cursors h1 ! (level + 1)],
                        full := (full h1 \<or> level + 1 = 8)\<rparr>, s2))))
      else Panic)"
  by pat_completeness auto
termination
  by (relation "measure (\<lambda>x. case x of
        Inl (save, level, sp, ref, h, s) \<Rightarrow> 2 * (10 - level)
      | Inr (save, level, h, s) \<Rightarrow> 2 * (10 - level) - 1)") auto

declare writeToLevel.simps [simp del] wrapFullLevel.simps [simp del]

text \<open>The argument's span, and its reference and key in one piece.\<close>

definition trie_ChainWrite ::
  "(bytes \<Rightarrow> 's \<Rightarrow> (bytes \<times> 's) outcome) \<Rightarrow> bytes \<Rightarrow> bytes \<Rightarrow> hashtrie \<Rightarrow> 's \<Rightarrow> (hashtrie \<times> 's) outcome" where
  "trie_ChainWrite save sp ref h s =
     (if (length sp + length ref) mod (refSize h + SpanSize) \<noteq> 0 then Fail ErrInconsistentRefs
      else if full h then Fail ErrTrieFull
      else writeToLevel save 1 sp ref h s)"

definition sum_level ::
  "(bytes \<Rightarrow> 's \<Rightarrow> (bytes \<times> 's) outcome) \<Rightarrow> nat \<Rightarrow> hashtrie \<times> 's \<Rightarrow> (hashtrie \<times> 's) outcome" where
  "sum_level save i hs =
     (case hs of (h, s) \<Rightarrow>
        let oneRef = int (refSize h + SpanSize); l = levelSize i h in
        if tmod l oneRef \<noteq> 0 then Fail ErrInconsistentRefs
        else if l = 0 then Ok (h, s)
        else if l = int (fullChunk h) then wrapFullLevel save i h s
        else if l = oneRef then Ok (h\<lparr>cursors := (cursors h)[i + 1 := cursors h ! i]\<rparr>, s)
        else wrapFullLevel save i h s)"

fun sum_levels ::
  "(bytes \<Rightarrow> 's \<Rightarrow> (bytes \<times> 's) outcome) \<Rightarrow> nat list \<Rightarrow> hashtrie \<times> 's \<Rightarrow> (hashtrie \<times> 's) outcome" where
  "sum_levels save [] hs = Ok hs"
| "sum_levels save (i # is) hs = andthen (sum_level save i hs) (sum_levels save is)"

definition trie_Sum ::
  "(bytes \<Rightarrow> 's \<Rightarrow> (bytes \<times> 's) outcome) \<Rightarrow> hashtrie \<Rightarrow> 's \<Rightarrow> (bytes \<times> hashtrie \<times> 's) outcome" where
  "trie_Sum save h s =
     andthen (sum_levels save [1..<maxLevel] (h, s)) (\<lambda>(h1, s1).
       if levelSize 8 h1 \<noteq> int (refSize h1 + SpanSize) then Fail ErrInconsistentRefs
       else Ok (drop 8 (take (cursors h1 ! 8) (hbuffer h1)), h1, s1))"


section \<open>What a reference stands for\<close>

text \<open>
  \<open>repr ld cs b rs k r dat\<close>: with \<open>ld\<close> as the store, the reference \<open>r\<close> leads to the data \<open>dat\<close>
  over a trie of height \<open>k\<close>. All children of a node but the last are full tries of one height; the
  last one may be lower and shorter. The span of a node is the length of its data.
\<close>

definition trie_size :: "nat \<Rightarrow> nat \<Rightarrow> nat \<Rightarrow> nat" where
  "trie_size cs b k = cs * b ^ k"

inductive repr :: "(bytes \<Rightarrow> bytes option) \<Rightarrow> nat \<Rightarrow> nat \<Rightarrow> nat \<Rightarrow> nat \<Rightarrow> bytes \<Rightarrow> bytes \<Rightarrow> bool"
  for ld cs b rs where
  repr_leaf: "ld r = Some (chunk_of dat) \<Longrightarrow> length dat \<le> cs \<Longrightarrow> repr ld cs b rs 0 r dat"
| repr_node: "ld r = Some (PutUint64 (length dat) @ concat (map fst es @ [r'])) \<Longrightarrow>
    dat = concat (map snd es) @ d' \<Longrightarrow> es \<noteq> [] \<Longrightarrow> length es < b \<Longrightarrow>
    (\<forall>(x, d) \<in> set es. repr ld cs b rs k x d \<and> length d = trie_size cs b k \<and> length x = rs) \<Longrightarrow>
    repr ld cs b rs k' r' d' \<Longrightarrow> k' \<le> k \<Longrightarrow> 0 < length d' \<Longrightarrow> length d' \<le> trie_size cs b k \<Longrightarrow> length r' = rs \<Longrightarrow>
    repr ld cs b rs (Suc k) r dat"

inductive_cases repr_nodeE: "repr ld cs b rs (Suc k) r dat"
inductive_cases repr_leafE: "repr ld cs b rs 0 r dat"

text \<open>The chunks that the pipeline stores.\<close>

definition chunk_shape :: "nat \<Rightarrow> nat \<Rightarrow> nat \<Rightarrow> bytes \<Rightarrow> bool" where
  "chunk_shape cs b rs d \<longleftrightarrow>
     (\<exists>dat. length dat \<le> cs \<and> d = chunk_of dat) \<or>
     (\<exists>n refs k. d = PutUint64 n @ refs \<and> (\<exists>m. 2 \<le> m \<and> m \<le> b \<and> length refs = m * rs \<and>
        (m - 1) * trie_size cs b k < n \<and> n \<le> m * trie_size cs b k) \<and> n < 2 ^ 63)"

text \<open>
  The contract of the store behind the pipeline. A state that is \<open>ok\<close> has kept apart all that was
  saved to it; only chunks that it \<open>takes\<close> are saved.
\<close>

locale chunk_store =
  fixes save :: "bytes \<Rightarrow> 's \<Rightarrow> (bytes \<times> 's) outcome"
    and load :: "'s \<Rightarrow> bytes \<Rightarrow> bytes option"
    and ok :: "'s \<Rightarrow> bool"
    and takes :: "bytes \<Rightarrow> bool"
  assumes save_total: "takes d \<Longrightarrow> \<exists>r s'. save d s = Ok (r, s')"
    and save_load: "takes d \<Longrightarrow> save d s = Ok (r, s') \<Longrightarrow> ok s' \<Longrightarrow> load s' r = Some d"
    and save_keeps: "save d s = Ok (r, s') \<Longrightarrow> ok s' \<Longrightarrow> load s x = Some y \<Longrightarrow> load s' x = Some y"
    and ok_before: "save d s = Ok (r, s') \<Longrightarrow> ok s' \<Longrightarrow> ok s"

definition trie_conf :: "(bytes \<Rightarrow> 's \<Rightarrow> (bytes \<times> 's) outcome) \<Rightarrow> (bytes \<Rightarrow> bool) \<Rightarrow> nat \<Rightarrow> nat \<Rightarrow> nat \<Rightarrow> bool" where
  "trie_conf save takes cs b rs \<longleftrightarrow>
     0 < rs \<and> 2 \<le> b \<and> cs = rs * b \<and>
     (\<forall>d s r s'. save d s = Ok (r, s') \<longrightarrow> length r = rs) \<and> (\<forall>d. chunk_shape cs b rs d \<longrightarrow> takes d)"

section \<open>The levels in the buffer\<close>

type_synonym entry = "bytes \<times> bytes"
type_synonym levels = "nat \<Rightarrow> entry list"

definition entry_bytes :: "entry \<Rightarrow> bytes" where
  "entry_bytes e = PutUint64 (length (snd e)) @ fst e"

definition row_bytes :: "entry list \<Rightarrow> bytes" where
  "row_bytes row = concat (map entry_bytes row)"

definition upper_bytes :: "levels \<Rightarrow> nat \<Rightarrow> bytes" where
  "upper_bytes lv l = concat (map (\<lambda>m. row_bytes (lv m)) (rev [l..<9]))"

definition upper_data :: "levels \<Rightarrow> nat \<Rightarrow> bytes" where
  "upper_data lv l = concat (map (\<lambda>m. concat (map snd (lv m))) (rev [l..<9]))"

lemma upper_Suc:
  "l < 9 \<Longrightarrow> upper_bytes lv l = upper_bytes lv (Suc l) @ row_bytes (lv l)"
  "l < 9 \<Longrightarrow> upper_data lv l = upper_data lv (Suc l) @ concat (map snd (lv l))"
  by (simp_all add: upper_bytes_def upper_data_def upt_conv_Cons)

lemma upper_9 [simp]: "upper_bytes lv 9 = []" "upper_data lv 9 = []"
  by (simp_all add: upper_bytes_def upper_data_def)

lemma upper_cong:
  assumes "\<And>m. l \<le> m \<Longrightarrow> lv m = lv' m"
  shows "upper_bytes lv l = upper_bytes lv' l" "upper_data lv l = upper_data lv' l"
  using assms by (auto simp: upper_bytes_def upper_data_def intro!: arg_cong [where f = concat])

lemma upper_update [simp]:
  "m < l \<Longrightarrow> upper_bytes (lv(m := row)) l = upper_bytes lv l" "m < l \<Longrightarrow> upper_data (lv(m := row)) l = upper_data lv l"
  by (rule upper_cong; simp)+

lemma length_row_bytes: "(\<And>e. e \<in> set row \<Longrightarrow> length (fst e) = rs) \<Longrightarrow> length (row_bytes row) = length row * (rs + 8)"
  by (induction row) (simp_all add: row_bytes_def entry_bytes_def)

definition refs_ok :: "nat \<Rightarrow> nat \<Rightarrow> levels \<Rightarrow> bool" where
  "refs_ok rs l lv \<longleftrightarrow> (\<forall>m. l \<le> m \<longrightarrow> m \<le> 8 \<longrightarrow> list_all (\<lambda>e. length (fst e) = rs) (lv m))"

lemma refs_okD: "refs_ok rs l lv \<Longrightarrow> l \<le> m \<Longrightarrow> m \<le> 8 \<Longrightarrow> e \<in> set (lv m) \<Longrightarrow> length (fst e) = rs"
  unfolding refs_ok_def list_all_iff by blast

lemma upper_data_le: "l \<le> m \<Longrightarrow> m \<le> 9 \<Longrightarrow> length (upper_data lv m) \<le> length (upper_data lv l)"
proof (induction "m - l" arbitrary: l)
  case (Suc n)
  then have "l < 9" "length (upper_data lv m) \<le> length (upper_data lv (Suc l))" by simp_all
  then show ?case by (simp add: upper_Suc(2) [of l])
qed simp

text \<open>The cursors and the buffer hold the levels from \<open>l\<close> upwards, the highest first.\<close>

definition holds :: "nat \<Rightarrow> nat \<Rightarrow> nat \<Rightarrow> hashtrie \<Rightarrow> levels \<Rightarrow> bool" where
  "holds b rs l h lv \<longleftrightarrow>
     branching h = b \<and> refSize h = rs \<and> 8 * b * (rs + 8) \<le> length (hbuffer h) \<and> length (cursors h) = 9 \<and>
     (\<forall>m. l \<le> m \<and> m \<le> 8 \<longrightarrow> cursors h ! m = length (upper_bytes lv m)) \<and>
     take (cursors h ! l) (hbuffer h) = upper_bytes lv l \<and>
     refs_ok rs l lv"

lemma length_upper:
  assumes "refs_ok rs l lv" "\<forall>m. l \<le> m \<and> m \<le> 8 \<longrightarrow> length (lv m) \<le> b" "l \<le> 9"
  shows "length (upper_bytes lv l) \<le> (9 - l) * b * (rs + 8)"
  using assms
proof (induction "9 - l" arbitrary: l)
  case 0
  then show ?case by simp
next
  case (Suc n)
  then have l: "l < 9" by simp
  have "length (upper_bytes lv (Suc l)) \<le> (9 - Suc l) * b * (rs + 8)"
    by (rule Suc.hyps) (use Suc.hyps(2) Suc.prems l in \<open>auto simp: refs_ok_def\<close>)
  moreover have "length (row_bytes (lv l)) \<le> b * (rs + 8)"
    using Suc.prems l refs_okD [OF Suc.prems(1), of l] by (subst length_row_bytes [of _ rs]) simp_all
  moreover have "(9 - l) * b * (rs + 8) = b * (rs + 8) + (9 - Suc l) * b * (rs + 8)"
    using Suc_diff_Suc [OF l] by (metis mult_Suc add_mult_distrib)
  ultimately show ?case using l by (simp add: upper_Suc(1))
qed

lemma levelSize_holds:
  assumes "holds b rs l h lv" "1 \<le> l" "l \<le> 8"
  shows "levelSize l h = int (length (lv l) * (rs + 8))"
proof -
  have r: "length (row_bytes (lv l)) = length (lv l) * (rs + 8)"
    using assms refs_okD [of rs l lv l] by (intro length_row_bytes) (simp add: holds_def)
  have "cursors h ! l = length (upper_bytes lv (Suc l)) + length (row_bytes (lv l))"
    using assms upper_Suc(1) [of l lv] by (simp add: holds_def)
  moreover have "l \<noteq> 8 \<Longrightarrow> cursors h ! (l + 1) = length (upper_bytes lv (Suc l))" using assms by (simp add: holds_def)
  ultimately show ?thesis using r by (auto simp: levelSize_def)
qed

text \<open>Appending an entry to the lowest level held.\<close>

lemma holds_cong:
  assumes "holds b rs l h lv" "\<And>m. l \<le> m \<Longrightarrow> lv m = lv' m"
  shows "holds b rs l h lv'"
proof -
  have "upper_bytes lv m = upper_bytes lv' m" if "l \<le> m" for m using that assms(2) by (intro upper_cong(1)) simp
  then show ?thesis using assms by (simp add: holds_def refs_ok_def)
qed

lemma append_level_holds:
  assumes h: "holds b rs l h lv" and l: "1 \<le> l" "l \<le> 8" and len: "\<forall>m. l \<le> m \<and> m \<le> 8 \<longrightarrow> length (lv m) < b"
    and r: "length r = rs"
  shows "\<exists>h'. append_level l (PutUint64 (length d) @ r) h = Ok h' \<and>
    holds b rs l h' (lv(l := lv l @ [(r, d)])) \<and> full h' = full h"
proof -
  let ?lv = "lv(l := lv l @ [(r, d)])" and ?e = "PutUint64 (length d) @ r"
  have refs: "refs_ok rs l ?lv" using h r by (auto simp: holds_def refs_ok_def)
  have up: "upper_bytes ?lv l = upper_bytes lv l @ ?e"
    using l by (simp add: upper_Suc(1) [of l] row_bytes_def entry_bytes_def)
  have "length (upper_bytes ?lv l) \<le> (9 - l) * b * (rs + 8)"
    using len l by (intro length_upper [OF refs]) (auto simp: Suc_le_eq less_imp_le)
  also have "\<dots> \<le> 8 * b * (rs + 8)" using l by (intro mult_le_mono1) simp
  finally have fits: "cursors h ! l + length ?e \<le> length (hbuffer h)"
    using h l up by (simp add: holds_def)
  let ?h = "h\<lparr>hbuffer := copy_at (cursors h ! l) ?e (hbuffer h), cursors := (cursors h)[l := cursors h ! l + length ?e]\<rparr>"
  have "append_level l ?e h = Ok ?h" using fits h l by (simp add: append_level_def holds_def)
  moreover have "take (cursors ?h ! l) (hbuffer ?h) = upper_bytes ?lv l"
  proof -
    have "take (cursors h ! l) (hbuffer h) = upper_bytes lv l" "length (cursors h) = 9" using h by (simp_all add: holds_def)
    then show ?thesis using copy_at_take [OF fits] up l by simp
  qed
  moreover have "cursors ?h ! m = length (upper_bytes ?lv m)" if "l \<le> m" "m \<le> 8" for m
    using h l that up by (cases "m = l") (auto simp: holds_def)
  ultimately show ?thesis using h refs by (auto simp: holds_def)
qed

text \<open>Reading a level back.\<close>

lemma PutUint64_not_Nil [simp]: "PutUint64 v \<noteq> []"
  by (metis length_PutUint64 list.size(3) zero_neq_numeral)

lemma wrap_scan_row:
  assumes "\<And>e. e \<in> set row \<Longrightarrow> length (fst e) = rs" and "sp + length (concat (map snd row)) < 2 ^ 64"
  shows "wrap_scan rs (row_bytes row) sp hashes = Ok (sp + length (concat (map snd row)), hashes @ concat (map fst row))"
  using assms
proof (induction row arbitrary: sp hashes)
  case Nil
  then show ?case by (simp add: wrap_scan.simps row_bytes_def)
next
  case (Cons e row)
  have len: "length (fst e) = rs" and small: "length (snd e) < 2 ^ 64" "sp + length (snd e) < 2 ^ 64"
    using Cons.prems by auto
  have u: "Uint64 (PutUint64 (length (snd e))) = length (snd e)" using Uint64_PutUint64 [OF small(1), of "[]"] by simp
  have "wrap_scan rs (row_bytes (e # row)) sp hashes = wrap_scan rs (row_bytes row) (sp + length (snd e)) (hashes @ fst e)"
    using len small(2) by (subst wrap_scan.simps) (simp add: row_bytes_def entry_bytes_def u)
  also have "\<dots> = Ok (sp + length (concat (map snd (e # row))), hashes @ concat (map fst (e # row)))"
    by (subst Cons.IH) (use Cons.prems in \<open>simp_all add: add.assoc\<close>)
  finally show ?case .
qed

section \<open>Full and partial tries\<close>

definition full_entry :: "(bytes \<Rightarrow> bytes option) \<Rightarrow> bool \<Rightarrow> nat \<Rightarrow> nat \<Rightarrow> nat \<Rightarrow> nat \<Rightarrow> entry \<Rightarrow> bool" where
  "full_entry ld good cs b rs k e \<longleftrightarrow>
     length (fst e) = rs \<and> length (snd e) = trie_size cs b k \<and> (good \<longrightarrow> repr ld cs b rs k (fst e) (snd e))"

definition part_entry :: "(bytes \<Rightarrow> bytes option) \<Rightarrow> bool \<Rightarrow> nat \<Rightarrow> nat \<Rightarrow> nat \<Rightarrow> nat \<Rightarrow> entry \<Rightarrow> bool" where
  "part_entry ld good cs b rs k e \<longleftrightarrow>
     length (fst e) = rs \<and> 0 < length (snd e) \<and> length (snd e) \<le> trie_size cs b k \<and>
     (good \<longrightarrow> (\<exists>k'\<le>k. repr ld cs b rs k' (fst e) (snd e)))"

lemma trie_size_pos: "0 < cs \<Longrightarrow> 2 \<le> b \<Longrightarrow> 0 < trie_size cs b k"
  by (simp add: trie_size_def)

lemma trie_size_mono: "2 \<le> b \<Longrightarrow> trie_size cs b k \<le> trie_size cs b (Suc k)"
  by (simp add: trie_size_def)

lemma trie_size_Suc: "trie_size cs b (Suc k) = b * trie_size cs b k"
  by (simp add: trie_size_def)

lemma full_part: "0 < cs \<Longrightarrow> 2 \<le> b \<Longrightarrow> full_entry ld good cs b rs k e \<Longrightarrow> part_entry ld good cs b rs k e"
  using trie_size_pos [of cs b k] by (auto simp: full_entry_def part_entry_def)

lemma part_Suc: "2 \<le> b \<Longrightarrow> part_entry ld good cs b rs k e \<Longrightarrow> part_entry ld good cs b rs (Suc k) e"
  using trie_size_mono [of b cs k] by (auto simp: part_entry_def intro: le_SucI)

lemma repr_grow:
  "repr ld cs b rs k r d \<Longrightarrow> (\<And>x y. ld x = Some y \<Longrightarrow> ld' x = Some y) \<Longrightarrow> repr ld' cs b rs k r d"
proof (induction rule: repr.induct)
  case (repr_node r dat es r' d' k k')
  show ?case
    by (rule repr.repr_node [where es = es and r' = r' and d' = d' and k' = k']) (use repr_node in auto)
qed (auto intro: repr.repr_leaf)

lemma entry_grow:
  assumes "good' \<longrightarrow> good \<and> (\<forall>x y. ld x = Some y \<longrightarrow> ld' x = Some y)"
  shows "full_entry ld good cs b rs k e \<Longrightarrow> full_entry ld' good' cs b rs k e"
    "part_entry ld good cs b rs k e \<Longrightarrow> part_entry ld' good' cs b rs k e"
  using assms by (auto simp: full_entry_def part_entry_def intro: repr_grow)

lemma length_full_row:
  "list_all (full_entry ld good cs b rs k) es \<Longrightarrow> length (concat (map snd es)) = length es * trie_size cs b k"
  by (induction es) (simp_all add: full_entry_def)

text \<open>The entry for a wrapped row.\<close>

lemma node_entry:
  assumes es: "list_all (full_entry ld good cs b rs k) es" "es \<noteq> []" "length es < b"
    and e: "part_entry ld good cs b rs k e" and cs: "0 < cs" and b: "2 \<le> b"
    and g: "good' \<longrightarrow> good \<and> (\<forall>x y. ld x = Some y \<longrightarrow> ld' x = Some y)" and r: "length r = rs"
    and dat: "dat = concat (map snd (es @ [e]))"
    and ld: "good' \<longrightarrow> ld' r = Some (PutUint64 (length dat) @ concat (map fst (es @ [e])))"
  shows "part_entry ld' good' cs b rs (Suc k) (r, dat)"
    and "full_entry ld good cs b rs k e \<Longrightarrow> Suc (length es) = b \<Longrightarrow> full_entry ld' good' cs b rs (Suc k) (r, dat)"
proof -
  have len: "length dat = length es * trie_size cs b k + length (snd e)"
    using length_full_row [OF es(1)] by (simp add: dat)
  have es': "list_all (full_entry ld' good' cs b rs k) es"
    using es(1) entry_grow(1) [OF g] by (auto simp: list_all_iff)
  have e': "part_entry ld' good' cs b rs k e" by (rule entry_grow(2) [OF g e])
  have rep: "repr ld' cs b rs (Suc k) r dat" if gd: "good'"
  proof -
    obtain k' where "k' \<le> k" "repr ld' cs b rs k' (fst e) (snd e)" using e' gd by (auto simp: part_entry_def)
    moreover have "\<forall>(x, d) \<in> set es. repr ld' cs b rs k x d \<and> length d = trie_size cs b k \<and> length x = rs"
      using es' gd by (auto simp: list_all_iff full_entry_def)
    ultimately show ?thesis
      using ld gd es(2,3) e'
      by (intro repr.repr_node [where es = es and r' = "fst e" and d' = "snd e" and k' = k']) (auto simp: dat part_entry_def)
  qed
  have "Suc (length es) * trie_size cs b k \<le> b * trie_size cs b k" using es(3) by (intro mult_le_mono1) simp
  then have "length dat \<le> trie_size cs b (Suc k)" using len e by (simp add: part_entry_def trie_size_Suc)
  then show "part_entry ld' good' cs b rs (Suc k) (r, dat)"
    using rep r len e by (auto simp: part_entry_def)
  show "full_entry ld' good' cs b rs (Suc k) (r, dat)" if "full_entry ld good cs b rs k e" "Suc (length es) = b"
  proof -
    have "length dat = Suc (length es) * trie_size cs b k" using that(1) len by (simp add: full_entry_def)
    then show ?thesis using rep r that(2) by (simp add: full_entry_def trie_size_Suc)
  qed
qed

text \<open>The rows from level \<open>l\<close> on: all entries full, or all but the last entry of the lowest row in use.\<close>

definition rows_full :: "(bytes \<Rightarrow> bytes option) \<Rightarrow> bool \<Rightarrow> nat \<Rightarrow> nat \<Rightarrow> nat \<Rightarrow> nat \<Rightarrow> levels \<Rightarrow> bool" where
  "rows_full ld good cs b rs l lv \<longleftrightarrow>
     (\<forall>m. l \<le> m \<longrightarrow> m \<le> 8 \<longrightarrow> list_all (full_entry ld good cs b rs (m - 1)) (lv m) \<and> length (lv m) < b)"

definition row_part :: "(bytes \<Rightarrow> bytes option) \<Rightarrow> bool \<Rightarrow> nat \<Rightarrow> nat \<Rightarrow> nat \<Rightarrow> nat \<Rightarrow> entry list \<Rightarrow> bool" where
  "row_part ld good cs b rs m row \<longleftrightarrow>
     list_all (full_entry ld good cs b rs (m - 1)) (butlast row) \<and>
     (row \<noteq> [] \<longrightarrow> part_entry ld good cs b rs (m - 1) (last row))"

fun rows_part :: "(bytes \<Rightarrow> bytes option) \<Rightarrow> bool \<Rightarrow> nat \<Rightarrow> nat \<Rightarrow> nat \<Rightarrow> nat \<Rightarrow> levels \<Rightarrow> nat \<Rightarrow> bool" where
  "rows_part ld good cs b rs l lv 0 = True"
| "rows_part ld good cs b rs l lv (Suc n) =
     (row_part ld good cs b rs l (lv l) \<and> length (lv l) \<le> b \<and>
      (if lv l = [] then rows_part ld good cs b rs (Suc l) lv n else rows_full ld good cs b rs (Suc l) lv))"

lemma rows_part_level:
  assumes "l \<le> 8"
  shows "rows_part ld good cs b rs l lv (9 - l) \<longleftrightarrow>
     row_part ld good cs b rs l (lv l) \<and> length (lv l) \<le> b \<and>
     (if lv l = [] then rows_part ld good cs b rs (Suc l) lv (8 - l) else rows_full ld good cs b rs (Suc l) lv)"
proof -
  have "9 - l = Suc (8 - l)" using assms by simp
  then show ?thesis by (simp only: rows_part.simps)
qed

lemma rows_part_update: "m < l \<Longrightarrow> rows_part ld good cs b rs l (lv(m := row)) n = rows_part ld good cs b rs l lv n"
  by (induction n arbitrary: l) (simp_all add: rows_full_def)

lemma holds_Suc:
  assumes h: "holds b rs l h lv" and l: "1 \<le> l" "l < 8"
  shows "holds b rs (Suc l) h lv \<and> drop (cursors h ! (l + 1)) (take (cursors h ! l) (hbuffer h)) = row_bytes (lv l) \<and>
    cursors h ! (l + 1) \<le> cursors h ! l \<and> cursors h ! l \<le> length (hbuffer h)"
proof -
  have c: "cursors h ! Suc l = length (upper_bytes lv (Suc l))" "cursors h ! l = length (upper_bytes lv l)"
    using h l by (simp_all add: holds_def)
  have "take (cursors h ! l) (hbuffer h) = upper_bytes lv l" using h by (simp add: holds_def)
  then have t: "take (cursors h ! l) (hbuffer h) = upper_bytes lv (Suc l) @ row_bytes (lv l)"
    using l upper_Suc(1) [of l lv] by simp
  have "take (cursors h ! Suc l) (take (cursors h ! l) (hbuffer h)) = upper_bytes lv (Suc l)" by (simp add: t c(1))
  moreover have le: "cursors h ! Suc l \<le> cursors h ! l" using c l upper_Suc(1) [of l lv] by simp
  ultimately have "take (cursors h ! Suc l) (hbuffer h) = upper_bytes lv (Suc l)" by (simp add: min_def)
  moreover have "refs_ok rs (Suc l) lv" using h by (simp add: holds_def refs_ok_def)
  ultimately have "holds b rs (Suc l) h lv" using h by (simp add: holds_def)
  moreover have "cursors h ! l \<le> length (hbuffer h)"
    using arg_cong [OF t, of length] c(2) upper_Suc(1) [of l lv] l by (simp add: min_def split: if_splits)
  ultimately show ?thesis using le t c(1) by simp
qed

lemma holds_wrapped:
  assumes h: "holds b rs (Suc l) h lv" and l: "1 \<le> l" "l < 8"
  shows "holds b rs l (h\<lparr>cursors := (cursors h)[l := cursors h ! (l + 1)], full := f\<rparr>) (lv(l := []))"
proof -
  have "upper_bytes (lv(l := [])) l = upper_bytes lv (Suc l)" using l by (simp add: upper_Suc(1) [of l] row_bytes_def)
  moreover have "refs_ok rs l (lv(l := []))" using h by (auto simp: holds_def refs_ok_def)
  moreover have "(cursors h)[l := cursors h ! (l + 1)] ! m = length (upper_bytes (lv(l := [])) m)" if "l \<le> m" "m \<le> 8" for m
    using h l that calculation(1) by (cases "m = l") (auto simp: holds_def)
  ultimately show ?thesis using h l by (auto simp: holds_def)
qed

text \<open>A single entry is carried over to the level above by moving a cursor.\<close>

lemma sum_level_size:
  assumes h: "holds b rs l h lv" and l: "1 \<le> l" "l < 8" and b: "2 \<le> b"
  shows "sum_level save l (h, s) =
    (if lv l = [] then Ok (h, s)
     else if length (lv l) = 1 then Ok (h\<lparr>cursors := (cursors h)[l + 1 := cursors h ! l]\<rparr>, s)
     else wrapFullLevel save l h s)"
proof -
  have sz: "levelSize l h = int (length (lv l) * (rs + 8))" using levelSize_holds [OF h] l by simp
  have c: "refSize h = rs" "fullChunk h = b * (rs + 8)" using h by (simp_all add: holds_def fullChunk_def SpanSize_def)
  have m: "tmod (levelSize l h) (int (rs + 8)) = 0" using sz by (simp add: tmod_nonneg flip: of_nat_add)
  have one: "levelSize l h = int (rs + 8) \<longleftrightarrow> length (lv l) = 1"
    unfolding sz of_nat_eq_iff using mult_cancel2 [of "length (lv l)" "rs + 8" 1] by simp
  have full: "levelSize l h = int (fullChunk h) \<longleftrightarrow> length (lv l) = b"
    unfolding sz c(2) of_nat_eq_iff mult_cancel2 by simp
  have zero: "levelSize l h = 0 \<longleftrightarrow> lv l = []" unfolding sz by simp
  show ?thesis
    using b m one by (auto simp: sum_level_def Let_def c(1) full zero SpanSize_def)
qed

lemma carry_holds:
  assumes h: "holds b rs l h lv" and l: "1 \<le> l" "l < 8" and e: "lv l = [e]"
  shows "holds b rs (Suc l) (h\<lparr>cursors := (cursors h)[l + 1 := cursors h ! l]\<rparr>) (lv(Suc l := lv (Suc l) @ [e]))"
proof -
  let ?lv = "lv(Suc l := lv (Suc l) @ [e])"
  have up: "upper_bytes ?lv (Suc l) = upper_bytes lv l"
    using l e by (simp add: upper_Suc(1) [of l] upper_Suc(1) [of "Suc l"] row_bytes_def)
  have c: "cursors h ! l = length (upper_bytes lv l)" "take (cursors h ! l) (hbuffer h) = upper_bytes lv l" "length (cursors h) = 9"
    using h l unfolding holds_def by auto
  have "refs_ok rs (Suc l) ?lv" using h e l by (auto simp: holds_def refs_ok_def dest!: spec [of _ l])
  moreover have "(cursors h)[l + 1 := cursors h ! l] ! m = length (upper_bytes ?lv m)" if "Suc l \<le> m" "m \<le> 8" for m
    using h l that up c by (cases "m = Suc l") (auto simp: holds_def)
  ultimately show ?thesis using h l c up by (simp add: holds_def)
qed

definition grows :: "('s \<Rightarrow> bytes \<Rightarrow> bytes option) \<Rightarrow> ('s \<Rightarrow> bool) \<Rightarrow> 's \<Rightarrow> 's \<Rightarrow> bool" where
  "grows load ok s s' \<longleftrightarrow> (ok s' \<longrightarrow> ok s \<and> (\<forall>x y. load s x = Some y \<longrightarrow> load s' x = Some y))"

lemma grows_refl: "grows load ok s s"
  by (simp add: grows_def)

lemma grows_trans: "grows load ok s s' \<Longrightarrow> grows load ok s' s'' \<Longrightarrow> grows load ok s s''"
  by (auto simp: grows_def)

lemma rows_full_grow:
  "grows load ok s s' \<Longrightarrow> rows_full (load s) (ok s) cs b rs l lv \<Longrightarrow> rows_full (load s') (ok s') cs b rs l lv"
  using entry_grow(1) [of "ok s'" "ok s" "load s" "load s'"]
  by (simp add: rows_full_def list_all_iff grows_def)

definition write_spec ::
  "(bytes \<Rightarrow> 's \<Rightarrow> (bytes \<times> 's) outcome) \<Rightarrow> ('s \<Rightarrow> bytes \<Rightarrow> bytes option) \<Rightarrow> ('s \<Rightarrow> bool) \<Rightarrow> nat \<Rightarrow> nat \<Rightarrow> nat \<Rightarrow> nat \<Rightarrow> bool" where
  "write_spec save load ok cs b rs l \<longleftrightarrow>
     (\<forall>h lv s r d. holds b rs l h lv \<longrightarrow> rows_full (load s) (ok s) cs b rs l lv \<longrightarrow>
        part_entry (load s) (ok s) cs b rs (l - 1) (r, d) \<longrightarrow>
        length (upper_data lv l) + length d \<le> trie_size cs b 7 \<longrightarrow> length (upper_data lv l) + length d < 2 ^ 63 \<longrightarrow>
        (\<exists>h' s' lv'. writeToLevel save l (PutUint64 (length d)) r h s = Ok (h', s') \<and> holds b rs l h' lv' \<and>
           grows load ok s s' \<and> rows_part (load s') (ok s') cs b rs l lv' (9 - l) \<and> length (lv' l) < b \<and>
           (full_entry (load s) (ok s) cs b rs (l - 1) (r, d) \<longrightarrow> rows_full (load s') (ok s') cs b rs l lv') \<and>
           upper_data lv' l = upper_data lv l @ d \<and> (full h' \<longrightarrow> full h \<or> lv' 8 \<noteq> [])))"

context chunk_store
begin

lemma save_grows: "save d s = Ok (r, s') \<Longrightarrow> grows load ok s s'"
  using save_keeps ok_before by (auto simp: grows_def)

text \<open>A row of at least two entries is wrapped into one entry of the level above.\<close>

lemma wrap_ok:
  assumes conf: "trie_conf save takes cs b rs" and spec: "write_spec save load ok cs b rs (Suc l)"
    and l: "1 \<le> l" "l < 8" and h: "holds b rs l h lv" and row: "lv l = es @ [e]" "es \<noteq> []" "length es < b"
    and es: "list_all (full_entry (load s) (ok s) cs b rs (l - 1)) es" and e: "part_entry (load s) (ok s) cs b rs (l - 1) e"
    and up: "rows_full (load s) (ok s) cs b rs (Suc l) lv"
    and cap: "length (upper_data lv l) \<le> trie_size cs b 7" "length (upper_data lv l) < 2 ^ 63"
  shows "\<exists>h' s' lv'. wrapFullLevel save l h s = Ok (h', s') \<and> holds b rs l h' lv' \<and> lv' l = [] \<and>
    grows load ok s s' \<and> rows_part (load s') (ok s') cs b rs (Suc l) lv' (8 - l) \<and> length (lv' (Suc l)) < b \<and>
    (full_entry (load s) (ok s) cs b rs (l - 1) e \<and> Suc (length es) = b \<longrightarrow> rows_full (load s') (ok s') cs b rs (Suc l) lv') \<and>
    upper_data lv' l = upper_data lv l \<and> (full h' \<longrightarrow> full h \<or> lv' 8 \<noteq> [])"
proof -
  have c: "0 < rs" "2 \<le> b" "cs = rs * b" "\<And>d s r s'. save d s = Ok (r, s') \<Longrightarrow> length r = rs"
    "\<And>d. chunk_shape cs b rs d \<Longrightarrow> takes d"
    using conf unfolding trie_conf_def by blast+
  have cs: "0 < cs" using c by simp
  define dat where "dat = concat (map snd (es @ [e]))"
  define ch where "ch = PutUint64 (length dat) @ concat (map fst (es @ [e]))"
  have data: "upper_data lv l = upper_data lv (Suc l) @ dat" using l row by (simp add: upper_Suc(2) dat_def)
  have dl: "length dat = length es * trie_size cs b (l - 1) + length (snd e)"
    using length_full_row [OF es] by (simp add: dat_def)
  have refl: "\<And>x. x \<in> set (lv l) \<Longrightarrow> length (fst x) = rs" using h l by (auto simp: holds_def dest: refs_okD)
  have shape: "chunk_shape cs b rs ch"
  proof -
    have "length (concat (map fst xs)) = length xs * rs" if "\<And>x. x \<in> set xs \<Longrightarrow> length (fst x) = rs" for xs :: "entry list"
      using that by (induction xs) simp_all
    then have "length (concat (map fst (es @ [e]))) = Suc (length es) * rs" using refl row(1) by fastforce
    moreover have "0 < length (snd e)" "length (snd e) \<le> trie_size cs b (l - 1)" using e by (simp_all add: part_entry_def)
    ultimately show ?thesis
      unfolding chunk_shape_def ch_def using row(2,3) dl cap(2) data
      by (intro disjI2 exI [of _ "length dat"] exI [of _ "concat (map fst (es @ [e]))"] exI [of _ "l - 1"] conjI refl
          exI [of _ "Suc (length es)"]) (auto simp: Suc_le_eq)
  qed
  obtain r s1 where sv: "save ch s = Ok (r, s1)" using save_total c(5) shape by blast
  have g1: "grows load ok s s1" by (rule save_grows [OF sv])
  have r: "length r = rs" by (rule c(4) [OF sv])
  have ld: "ok s1 \<longrightarrow> load s1 r = Some ch" using save_load c(5) shape sv by blast
  note node = node_entry [OF es row(2,3) e cs c(2) g1 [unfolded grows_def] r dat_def ld [unfolded ch_def]]
  have h1: "holds b rs (Suc l) h lv" and slice: "drop (cursors h ! (l + 1)) (take (cursors h ! l) (hbuffer h)) = row_bytes (lv l)"
      and cur: "cursors h ! (l + 1) \<le> cursors h ! l" "cursors h ! l \<le> length (hbuffer h)"
    using holds_Suc [OF h l] by blast+
  obtain h2 s2 lv2 where w: "writeToLevel save (Suc l) (PutUint64 (length dat)) r h s1 = Ok (h2, s2)"
      "holds b rs (Suc l) h2 lv2" "grows load ok s1 s2" "rows_part (load s2) (ok s2) cs b rs (Suc l) lv2 (9 - Suc l)"
      "length (lv2 (Suc l)) < b"
      "full_entry (load s1) (ok s1) cs b rs (Suc l - 1) (r, dat) \<longrightarrow> rows_full (load s2) (ok s2) cs b rs (Suc l) lv2"
      "upper_data lv2 (Suc l) = upper_data lv (Suc l) @ dat" "full h2 \<longrightarrow> full h \<or> lv2 8 \<noteq> []"
    using spec [unfolded write_spec_def, rule_format, OF h1 rows_full_grow [OF g1 up], of r dat] node(1) l cap data by auto
  let ?h = "h2\<lparr>cursors := (cursors h2)[l := cursors h2 ! (l + 1)], full := (full h2 \<or> l + 1 = 8)\<rparr>" and ?lv = "lv2(l := [])"
  have "wrap_scan (refSize h) (row_bytes (lv l)) 0 [] = Ok (length dat, concat (map fst (es @ [e])))"
    using wrap_scan_row [of "lv l" rs 0 "[]"] refl row(1) h cap(2) data by (simp add: holds_def dat_def)
  then have "wrapFullLevel save l h s = Ok (?h, s2)"
    using l cur sv w(1) slice by (subst wrapFullLevel.simps) (simp add: ch_def)
  moreover have "holds b rs l ?h ?lv" by (rule holds_wrapped [OF w(2) l])
  moreover have "rows_part (load s2) (ok s2) cs b rs (Suc l) ?lv (8 - l)"
    using w(4) rows_part_update [of l "Suc l"] by simp
  moreover have "full_entry (load s) (ok s) cs b rs (l - 1) e \<and> Suc (length es) = b \<longrightarrow> rows_full (load s2) (ok s2) cs b rs (Suc l) ?lv"
    using w(6) node(2) l by (simp add: rows_full_def)
  moreover have "upper_data ?lv l = upper_data lv l" using w(7) l data by (simp add: upper_Suc(2) [of l])
  moreover have "full ?h \<longrightarrow> full h \<or> ?lv 8 \<noteq> []"
  proof -
    have "Suc l = 8 \<Longrightarrow> lv2 8 \<noteq> []" using w(7) dl e by (auto simp: part_entry_def upper_Suc(2) [of 8])
    then show ?thesis using w(8) l by auto
  qed
  ultimately show ?thesis using grows_trans [OF g1 w(3)] w(5) by (intro exI [of _ ?h] exI [of _ s2] exI [of _ ?lv]) simp
qed

lemma write_step:
  assumes conf: "trie_conf save takes cs b rs" and spec: "l < 8 \<Longrightarrow> write_spec save load ok cs b rs (Suc l)" and l: "1 \<le> l" "l \<le> 8"
  shows "write_spec save load ok cs b rs l"
  unfolding write_spec_def
proof (intro allI impI)
  fix h lv s r d
  assume h: "holds b rs l h lv" and rows: "rows_full (load s) (ok s) cs b rs l lv"
    and e: "part_entry (load s) (ok s) cs b rs (l - 1) (r, d)"
    and cap: "length (upper_data lv l) + length d \<le> trie_size cs b 7" "length (upper_data lv l) + length d < 2 ^ 63"
  have c: "0 < rs" "2 \<le> b" using conf unfolding trie_conf_def by blast+
  have len: "length (lv l) < b" and es: "list_all (full_entry (load s) (ok s) cs b rs (l - 1)) (lv l)"
    and up: "rows_full (load s) (ok s) cs b rs (Suc l) lv"
    using rows l by (simp_all add: rows_full_def)
  let ?lv = "lv(l := lv l @ [(r, d)])"
  have r: "length r = rs" using e by (simp add: part_entry_def)
  obtain h1 where h1: "append_level l (PutUint64 (length d) @ r) h = Ok h1" "holds b rs l h1 ?lv" "full h1 = full h"
    using append_level_holds [OF h l _ r, of d] rows by (auto simp: rows_full_def)
  have data: "upper_data ?lv l = upper_data lv l @ d" using l by (simp add: upper_Suc(2) [of l])
  have up': "rows_full (load s) (ok s) cs b rs (Suc l) ?lv" using up by (simp add: rows_full_def)
  have size: "levelSize l h1 = int (fullChunk h1) \<longleftrightarrow> Suc (length (lv l)) = b"
  proof -
    have "levelSize l h1 = int (Suc (length (lv l)) * (rs + 8))" using levelSize_holds [OF h1(2) l] by simp
    moreover have "fullChunk h1 = b * (rs + 8)" using h1(2) by (simp add: fullChunk_def holds_def SpanSize_def mult.commute)
    ultimately show ?thesis by (simp only: of_nat_eq_iff mult_cancel2) simp
  qed
  show "\<exists>h' s' lv'. writeToLevel save l (PutUint64 (length d)) r h s = Ok (h', s') \<and> holds b rs l h' lv' \<and>
      grows load ok s s' \<and> rows_part (load s') (ok s') cs b rs l lv' (9 - l) \<and> length (lv' l) < b \<and>
      (full_entry (load s) (ok s) cs b rs (l - 1) (r, d) \<longrightarrow> rows_full (load s') (ok s') cs b rs l lv') \<and>
      upper_data lv' l = upper_data lv l @ d \<and> (full h' \<longrightarrow> full h \<or> lv' 8 \<noteq> [])"
  proof (cases "Suc (length (lv l)) = b")
    case False
    have "writeToLevel save l (PutUint64 (length d)) r h s = Ok (h1, s)"
      using h1(1) l False size by (subst writeToLevel.simps) simp
    moreover have "rows_part (load s) (ok s) cs b rs l ?lv (9 - l)"
      unfolding rows_part_level [OF l(2)] using es e up' len False by (simp add: row_part_def)
    moreover have "full_entry (load s) (ok s) cs b rs (l - 1) (r, d) \<longrightarrow> rows_full (load s) (ok s) cs b rs l ?lv"
      using rows len False by (auto simp: rows_full_def)
    ultimately show ?thesis using h1(2,3) data len False grows_refl by (intro exI [of _ h1] exI [of _ s] exI [of _ ?lv]) simp
  next
    case True
    have l8: "l < 8"
    proof (rule ccontr)
      assume "\<not> l < 8"
      then have l: "l = 8" using l by simp
      have "length (upper_data lv 8) = length (lv 8) * trie_size cs b 7"
        using length_full_row es by (simp add: l upper_Suc(2) [of 8])
      moreover have "1 * trie_size cs b 7 \<le> length (lv 8) * trie_size cs b 7" using True c(2) l by (intro mult_le_mono1) simp
      moreover have "0 < length d" using e by (simp add: part_entry_def)
      ultimately show False using cap(1) unfolding l by linarith
    qed
    obtain h' s' lv' where w: "wrapFullLevel save l h1 s = Ok (h', s')" "holds b rs l h' lv'" "lv' l = []"
      "grows load ok s s'" "rows_part (load s') (ok s') cs b rs (Suc l) lv' (8 - l)" "length (lv' (Suc l)) < b"
      "full_entry (load s) (ok s) cs b rs (l - 1) (r, d) \<and> Suc (length (lv l)) = b \<longrightarrow> rows_full (load s') (ok s') cs b rs (Suc l) lv'"
      "upper_data lv' l = upper_data ?lv l" "full h' \<longrightarrow> full h1 \<or> lv' 8 \<noteq> []"
    proof -
      have ne: "lv l \<noteq> []" using True c(2) by auto
      have "length (upper_data ?lv l) \<le> trie_size cs b 7" "length (upper_data ?lv l) < 2 ^ 63" using cap data by simp_all
      from wrap_ok [OF conf spec [OF l8] l(1) l8 h1(2) _ ne len es e up' this]
      show thesis using that by auto
    qed
    have "writeToLevel save l (PutUint64 (length d)) r h s = Ok (h', s')"
      using h1(1) l True size w(1) by (subst writeToLevel.simps) simp
    moreover have "rows_part (load s') (ok s') cs b rs l lv' (9 - l)"
      unfolding rows_part_level [OF l(2)] using w(3,5) by (simp add: row_part_def)
    moreover have "full_entry (load s) (ok s) cs b rs (l - 1) (r, d) \<longrightarrow> rows_full (load s') (ok s') cs b rs l lv'"
    proof
      assume "full_entry (load s) (ok s) cs b rs (l - 1) (r, d)"
      then have "rows_full (load s') (ok s') cs b rs (Suc l) lv'" using w(7) True by blast
      then show "rows_full (load s') (ok s') cs b rs l lv'"
        using w(3) c(2) unfolding rows_full_def by (metis le_antisym list.pred_inject(1) list.size(3) not_less_eq_eq order_less_le_trans zero_less_numeral)
    qed
    ultimately show ?thesis
      using w(2-4,8,9) h1(3) data c(2) by (intro exI [of _ h'] exI [of _ s'] exI [of _ lv']) simp
  qed
qed

lemma write_all:
  assumes conf: "trie_conf save takes cs b rs"
  shows "1 \<le> l \<Longrightarrow> l \<le> 8 \<Longrightarrow> write_spec save load ok cs b rs l"
proof (induction "8 - l" arbitrary: l)
  case 0
  show ?case by (rule write_step [OF conf _ 0(2,3)]) (use 0(1) in linarith)
next
  case (Suc n)
  have "n = 8 - Suc l" using Suc(2) by simp
  then show ?case using Suc(1) [of "Suc l"] by (intro write_step [OF conf _ Suc(3,4)]) simp
qed

lemma sum_level_ok:
  assumes conf: "trie_conf save takes cs b rs" and l: "1 \<le> l" "l < 8" and h: "holds b rs l h lv"
    and rows: "rows_part (load s) (ok s) cs b rs l lv (9 - l)"
    and cap: "length (upper_data lv l) \<le> trie_size cs b 7" "length (upper_data lv l) < 2 ^ 63"
  shows "\<exists>h' s' lv'. sum_level save l (h, s) = Ok (h', s') \<and> holds b rs (Suc l) h' lv' \<and> grows load ok s s' \<and>
    rows_part (load s') (ok s') cs b rs (Suc l) lv' (9 - Suc l) \<and> upper_data lv' (Suc l) = upper_data lv l"
proof -
  have c: "2 \<le> b" using conf unfolding trie_conf_def by blast
  note size = sum_level_size [OF h l c, of save s]
  have r: "row_part (load s) (ok s) cs b rs l (lv l)" "length (lv l) \<le> b"
    "lv l \<noteq> [] \<Longrightarrow> rows_full (load s) (ok s) cs b rs (Suc l) lv"
    "lv l = [] \<Longrightarrow> rows_part (load s) (ok s) cs b rs (Suc l) lv (9 - Suc l)"
    using rows l rows_part_level [of l] by (auto split: if_splits)
  consider "lv l = []" | e where "lv l = [e]" | es e where "lv l = es @ [e]" "es \<noteq> []"
    by (metis append_butlast_last_id append_self_conv2)
  then show ?thesis
  proof cases
    case 1
    then show ?thesis
      using size holds_Suc [OF h l] r(4) grows_refl l by (intro exI [of _ h] exI [of _ s] exI [of _ lv]) (simp add: upper_Suc(2) [of l])
  next
    case (2 e)
    let ?h = "h\<lparr>cursors := (cursors h)[l + 1 := cursors h ! l]\<rparr>" and ?lv = "lv(Suc l := lv (Suc l) @ [e])"
    have full: "rows_full (load s) (ok s) cs b rs (Suc l) lv" using r(3) 2 by simp
    then have row: "list_all (full_entry (load s) (ok s) cs b rs l) (lv (Suc l))" "length (lv (Suc l)) < b"
      "rows_full (load s) (ok s) cs b rs (Suc (Suc l)) ?lv"
      using l by (auto simp: rows_full_def dest!: spec [of _ "Suc l"])
    have "part_entry (load s) (ok s) cs b rs l e"
      using r(1) 2 part_Suc [OF c, of _ _ cs rs "l - 1" e] l by (simp add: row_part_def)
    then have "rows_part (load s) (ok s) cs b rs (Suc l) ?lv (9 - Suc l)"
      using row l by (subst rows_part_level) (simp_all add: row_part_def)
    moreover have "upper_data ?lv (Suc l) = upper_data lv l"
      using l 2 by (simp add: upper_Suc(2) [of l] upper_Suc(2) [of "Suc l"])
    ultimately show ?thesis
      using size 2 carry_holds [OF h l 2] grows_refl by (intro exI [of _ ?h] exI [of _ s] exI [of _ ?lv]) simp
  next
    case (3 es e)
    have "list_all (full_entry (load s) (ok s) cs b rs (l - 1)) es" "part_entry (load s) (ok s) cs b rs (l - 1) e"
      "length es < b" "rows_full (load s) (ok s) cs b rs (Suc l) lv"
      using r(1-3) 3 by (simp_all add: row_part_def)
    from wrap_ok [OF conf write_all [OF conf] l h 3(1,2) this(3,1,2,4) cap] l
    obtain h' s' lv' where w: "wrapFullLevel save l h s = Ok (h', s')" "holds b rs l h' lv'" "lv' l = []" "grows load ok s s'"
      "rows_part (load s') (ok s') cs b rs (Suc l) lv' (8 - l)" "upper_data lv' l = upper_data lv l"
      by auto
    have "upper_data lv' (Suc l) = upper_data lv l" using w(3,6) l by (simp add: upper_Suc(2) [of l lv'])
    then show ?thesis
      using size 3 w holds_Suc [OF w(2) l] by (intro exI [of _ h'] exI [of _ s'] exI [of _ lv']) simp
  qed
qed

lemma sum_levels_ok:
  assumes conf: "trie_conf save takes cs b rs"
  shows "1 \<le> l \<Longrightarrow> l \<le> 8 \<Longrightarrow> holds b rs l h lv \<Longrightarrow> rows_part (load s) (ok s) cs b rs l lv (9 - l) \<Longrightarrow>
    length (upper_data lv l) \<le> trie_size cs b 7 \<Longrightarrow> length (upper_data lv l) < 2 ^ 63 \<Longrightarrow>
    \<exists>h' s' lv'. sum_levels save [l..<8] (h, s) = Ok (h', s') \<and> holds b rs 8 h' lv' \<and> grows load ok s s' \<and>
      rows_part (load s') (ok s') cs b rs 8 lv' 1 \<and> upper_data lv' 8 = upper_data lv l"
proof (induction "8 - l" arbitrary: l h lv s)
  case 0
  then have "l = 8" by simp
  moreover have "9 - l = 1" using calculation by simp
  ultimately show ?case using 0(4,5) grows_refl by (intro exI [of _ h] exI [of _ s] exI [of _ lv]) (auto simp del: rows_part.simps)
next
  case (Suc n)
  then have l: "l < 8" "n = 8 - Suc l" "[l..<8] = l # [Suc l..<8]" by (simp_all add: upt_conv_Cons)
  obtain h1 s1 lv1 where s1: "sum_level save l (h, s) = Ok (h1, s1)" "holds b rs (Suc l) h1 lv1" "grows load ok s s1"
    "rows_part (load s1) (ok s1) cs b rs (Suc l) lv1 (9 - Suc l)" "upper_data lv1 (Suc l) = upper_data lv l"
    using sum_level_ok [OF conf Suc(3) l(1) Suc(5-8)] by blast
  obtain h' s' lv' where "sum_levels save [Suc l..<8] (h1, s1) = Ok (h', s')" "holds b rs 8 h' lv'" "grows load ok s1 s'"
      "rows_part (load s') (ok s') cs b rs 8 lv' 1" "upper_data lv' 8 = upper_data lv1 (Suc l)"
    using Suc(1) [OF l(2) _ _ s1(2,4)] s1(5) Suc(7,8) l by auto
  then show ?case using s1 grows_trans [OF s1(3)] l(3)
    by (intro exI [of _ h'] exI [of _ s'] exI [of _ lv']) (simp del: rows_part.simps)
qed

lemma top_entry: "holds b rs 8 h lv \<Longrightarrow> lv 8 = [e] \<Longrightarrow>
  levelSize 8 h = int (refSize h + SpanSize) \<and> drop 8 (take (cursors h ! 8) (hbuffer h)) = fst e"
  using levelSize_holds [of b rs 8 h lv]
  by (auto simp: holds_def upper_Suc(1) [of 8] row_bytes_def entry_bytes_def SpanSize_def)

text \<open>\<open>Sum\<close> gives a reference for all the data of the levels.\<close>

lemma Sum_ok:
  assumes conf: "trie_conf save takes cs b rs" and h: "holds b rs 1 h lv"
    and rows: "rows_part (load s) (ok s) cs b rs 1 lv 8"
    and cap: "length (upper_data lv 1) \<le> trie_size cs b 7" "length (upper_data lv 1) < 2 ^ 63" and ne: "upper_data lv 1 \<noteq> []"
  shows "\<exists>r h' s'. trie_Sum save h s = Ok (r, h', s') \<and> grows load ok s s' \<and> length r = rs \<and>
    (ok s' \<longrightarrow> (\<exists>k\<le>7. repr (load s') cs b rs k r (upper_data lv 1)))"
proof -
  have "rows_part (load s) (ok s) cs b rs 1 lv (9 - 1)" using rows by simp
  from sum_levels_ok [OF conf _ _ h this cap] obtain h' s' lv' where
    w: "sum_levels save [1..<8] (h, s) = Ok (h', s')" "holds b rs 8 h' lv'" "grows load ok s s'"
      "rows_part (load s') (ok s') cs b rs 8 lv' 1" "upper_data lv' 8 = upper_data lv 1"
    by auto
  have data: "concat (map snd (lv' 8)) = upper_data lv 1" using w(5) by (simp add: upper_Suc(2) [of 8])
  have row: "row_part (load s') (ok s') cs b rs 8 (lv' 8)" using w(4) by simp
  have "lv' 8 \<noteq> []" using data ne by auto
  then obtain es e where r: "lv' 8 = es @ [e]" by (metis append_butlast_last_id)
  have e: "part_entry (load s') (ok s') cs b rs 7 e" and es: "list_all (full_entry (load s') (ok s') cs b rs 7) es"
    using row r by (simp_all add: row_part_def)
  have "es = []"
  proof (rule ccontr)
    assume "es \<noteq> []"
    then have "1 * trie_size cs b 7 \<le> length es * trie_size cs b 7" by (intro mult_le_mono1) (simp add: Suc_le_eq)
    moreover have "length (upper_data lv 1) = length es * trie_size cs b 7 + length (snd e)"
      using arg_cong [OF data, of length] length_full_row [OF es] by (simp add: r)
    moreover have "0 < length (snd e)" using e by (simp add: part_entry_def)
    ultimately show False using cap(1) by linarith
  qed
  then have "lv' 8 = [e]" "snd e = upper_data lv 1" using r data by simp_all
  then show ?thesis
    using w(1-3) top_entry [OF w(2)] e
    by (intro exI [of _ "fst e"] exI [of _ h'] exI [of _ s']) (auto simp: trie_Sum_def maxLevel_def part_entry_def)
qed

end

section \<open>The pipeline behind the feeder\<close>

text \<open>The writers store the chunk and pass its span and its reference with the key to the trie writer.\<close>

definition pipeline_next ::
  "(bytes \<Rightarrow> 's \<Rightarrow> (bytes \<times> 's) outcome) \<Rightarrow> bytes \<Rightarrow> hashtrie \<times> 's \<Rightarrow> (hashtrie \<times> 's) outcome" where
  "pipeline_next save data hs =
     (case hs of (h, s) \<Rightarrow>
        andthen (save data s) (\<lambda>(ref, s1). trie_ChainWrite save (take SpanSize data) ref h s1))"

context chunk_store
begin

text \<open>One chunk of data; \<open>t\<close> is the data before it.\<close>

lemma next_ok:
  assumes conf: "trie_conf save takes cs b rs" and h: "holds b rs 1 h lv"
    and rows: "rows_full (load s) (ok s) cs b rs 1 lv" and f: "full h \<longrightarrow> lv 8 \<noteq> []"
    and x: "0 < length x" "length x \<le> cs"
    and cap: "length (upper_data lv 1) + length x \<le> trie_size cs b 7" "length (upper_data lv 1) + length x < 2 ^ 63"
  shows "\<exists>h' s' lv'. pipeline_next save (chunk_of x) (h, s) = Ok (h', s') \<and> holds b rs 1 h' lv' \<and> grows load ok s s' \<and>
    rows_part (load s') (ok s') cs b rs 1 lv' 8 \<and> (length x = cs \<longrightarrow> rows_full (load s') (ok s') cs b rs 1 lv') \<and>
    upper_data lv' 1 = upper_data lv 1 @ x \<and> (full h' \<longrightarrow> lv' 8 \<noteq> [])"
proof -
  have c: "0 < rs" "2 \<le> b" "\<And>d s r s'. save d s = Ok (r, s') \<Longrightarrow> length r = rs" "\<And>d. chunk_shape cs b rs d \<Longrightarrow> takes d"
    using conf unfolding trie_conf_def by blast+
  have takes: "takes (chunk_of x)" using x(2) c(4) by (auto simp: chunk_shape_def)
  obtain r s1 where sv: "save (chunk_of x) s = Ok (r, s1)" using save_total [OF takes] by blast
  have r: "length r = rs" by (rule c(3) [OF sv])
  have ld: "ok s1 \<longrightarrow> load s1 r = Some (chunk_of x)" using save_load [OF takes sv] by blast
  have nf: "\<not> full h"
  proof
    assume "full h"
    then have "lv 8 \<noteq> []" using f by blast
    then have "1 * trie_size cs b 7 \<le> length (lv 8) * trie_size cs b 7" by (intro mult_le_mono1) (simp add: Suc_le_eq)
    moreover have "list_all (full_entry (load s) (ok s) cs b rs 7) (lv 8)" using rows by (auto simp: rows_full_def dest!: spec [of _ 8])
    ultimately have "trie_size cs b 7 \<le> length (upper_data lv 8)"
      using length_full_row by (fastforce simp: upper_Suc(2) [of 8])
    also have "\<dots> \<le> length (upper_data lv 1)" by (rule upper_data_le) simp_all
    finally show False using cap(1) x(1) by linarith
  qed
  have leaf: "part_entry (load s1) (ok s1) cs b rs (1 - 1) (r, x)" "length x = cs \<longrightarrow> full_entry (load s1) (ok s1) cs b rs (1 - 1) (r, x)"
    using x r ld by (auto simp: part_entry_def full_entry_def trie_size_def intro: repr.repr_leaf)
  obtain h' s' lv' where w: "writeToLevel save 1 (PutUint64 (length x)) r h s1 = Ok (h', s')" "holds b rs 1 h' lv'"
      "grows load ok s1 s'" "rows_part (load s') (ok s') cs b rs 1 lv' (9 - 1)"
      "full_entry (load s1) (ok s1) cs b rs (1 - 1) (r, x) \<longrightarrow> rows_full (load s') (ok s') cs b rs 1 lv'"
      "upper_data lv' 1 = upper_data lv 1 @ x" "full h' \<longrightarrow> full h \<or> lv' 8 \<noteq> []"
  proof -
    have "write_spec save load ok cs b rs 1" by (rule write_all [OF conf]) simp_all
    note sp = this [unfolded write_spec_def, rule_format, OF h rows_full_grow [OF save_grows [OF sv] rows] leaf(1) cap]
    show thesis using sp that by blast
  qed
  have "trie_ChainWrite save (take SpanSize (chunk_of x)) r h s1 = Ok (h', s')"
    using w(1) nf r h by (simp add: trie_ChainWrite_def chunk_of_def SpanSize_def holds_def add.commute)
  then have "pipeline_next save (chunk_of x) (h, s) = Ok (h', s')" by (simp add: pipeline_next_def sv)
  then show ?thesis
    using w(2-7) leaf(2) nf grows_trans [OF save_grows [OF sv] w(3)] by (intro exI [of _ h'] exI [of _ s'] exI [of _ lv']) simp
qed

lemma rows_full_part:
  assumes "0 < cs" "2 \<le> b"
  shows "rows_full ld good cs b rs l lv \<Longrightarrow> 9 \<le> l + n \<Longrightarrow> l + n \<le> 9 \<Longrightarrow> rows_part ld good cs b rs l lv n"
proof (induction n arbitrary: l)
  case (Suc n)
  have "list_all (full_entry ld good cs b rs (l - 1)) (lv l)" "length (lv l) < b" using Suc.prems by (simp_all add: rows_full_def)
  moreover from this(1) have "list_all (full_entry ld good cs b rs (l - 1)) (butlast (lv l))"
      "lv l \<noteq> [] \<Longrightarrow> part_entry ld good cs b rs (l - 1) (last (lv l))"
    using full_part [OF assms] by (auto simp: list_all_iff dest: in_set_butlastD)
  moreover have "rows_full ld good cs b rs (Suc l) lv" using Suc.prems(1) by (simp add: rows_full_def)
  ultimately show ?case using Suc.IH [of "Suc l"] Suc.prems by (simp add: row_part_def)
qed simp

lemma pushes_full_ok:
  assumes conf: "trie_conf save takes cs b rs"
  shows "holds b rs 1 h lv \<Longrightarrow> rows_full (load s) (ok s) cs b rs 1 lv \<Longrightarrow> full h \<longrightarrow> lv 8 \<noteq> [] \<Longrightarrow>
    list_all (\<lambda>x. length x = cs) xs \<Longrightarrow> length (upper_data lv 1) + length (concat xs) \<le> trie_size cs b 7 \<Longrightarrow>
    length (upper_data lv 1) + length (concat xs) < 2 ^ 63 \<Longrightarrow>
    \<exists>h' s' lv'. pushes (pipeline_next save) xs (h, s) = Ok (h', s') \<and> holds b rs 1 h' lv' \<and> grows load ok s s' \<and>
      rows_full (load s') (ok s') cs b rs 1 lv' \<and> upper_data lv' 1 = upper_data lv 1 @ concat xs \<and> (full h' \<longrightarrow> lv' 8 \<noteq> [])"
proof (induction xs arbitrary: h lv s)
  case Nil
  then show ?case using grows_refl by (intro exI [of _ h] exI [of _ s] exI [of _ lv]) simp
next
  case (Cons x xs)
  have cs: "0 < cs" using conf by (simp add: trie_conf_def)
  have "length x = cs" using Cons.prems by simp
  with cs Cons.prems obtain h1 s1 lv1 where n: "pipeline_next save (chunk_of x) (h, s) = Ok (h1, s1)" "holds b rs 1 h1 lv1"
      "grows load ok s s1" "rows_full (load s1) (ok s1) cs b rs 1 lv1" "upper_data lv1 1 = upper_data lv 1 @ x" "full h1 \<longrightarrow> lv1 8 \<noteq> []"
    using next_ok [OF conf Cons.prems(1-3), of x] by auto
  obtain h' s' lv' where "pushes (pipeline_next save) xs (h1, s1) = Ok (h', s')" "holds b rs 1 h' lv'" "grows load ok s1 s'"
      "rows_full (load s') (ok s') cs b rs 1 lv'" "upper_data lv' 1 = upper_data lv1 1 @ concat xs" "full h' \<longrightarrow> lv' 8 \<noteq> []"
    using Cons.IH [OF n(2,4,6)] Cons.prems n(5) by auto
  then show ?case using n grows_trans [OF n(3)] by (intro exI [of _ h'] exI [of _ s'] exI [of _ lv']) simp
qed

end

lemma full_blocks_length: "list_all (\<lambda>x. length x = n) (full_blocks n xs)"
proof (induction n xs rule: full_blocks.induct)
  case (1 n xs)
  then show ?case by (subst full_blocks.simps) simp
qed

lemma blocks_concat: "concat (full_blocks n xs) @ rest_block n xs = xs"
proof (induction n xs rule: full_blocks.induct)
  case (1 n xs)
  then show ?case by (subst full_blocks.simps, subst rest_block.simps) simp
qed

lemma lin64:
  fixes b p :: nat
  assumes "7 * b \<le> p"
  shows "64 * b \<le> 10 * p + 144"
  using assms by linarith

lemma New_holds:
  assumes "7 \<le> rs" "cs = rs * b"
  shows "holds b rs 1 (NewHashTrieWriter cs b rs) (\<lambda>_. [])"
proof -
  have u: "upper_bytes (\<lambda>_. []) l = []" for l by (simp add: upper_bytes_def row_bytes_def)
  have "7 * b \<le> rs * b" using assms(1) by (rule mult_le_mono1)
  then have "64 * b \<le> 10 * (rs * b) + 144" by (rule lin64)
  then have "8 * b * (rs + 8) \<le> (cs + 8) * 9 * 2" unfolding assms(2) by (simp add: algebra_simps)
  moreover have "replicate 9 (0 :: nat) ! m = 0" if "m \<le> 8" for m using that by (simp add: nth_replicate)
  ultimately show ?thesis using u by (auto simp: holds_def NewHashTrieWriter_def SpanSize_def refs_ok_def)
qed

context chunk_store
begin

lemma pipeline_blocks_ok:
  assumes conf: "trie_conf save takes cs b rs" and rs: "7 \<le> rs" and data: "data \<noteq> []"
    and cap: "length data \<le> trie_size cs b 7" "length data < 2 ^ 63"
  shows "\<exists>h s r h' s'. pushes (pipeline_next save) (leaf_blocks cs data) (NewHashTrieWriter cs b rs, s0) = Ok (h, s) \<and>
     trie_Sum save h s = Ok (r, h', s') \<and> length r = rs \<and> grows load ok s0 s' \<and>
     (ok s' \<longrightarrow> (\<exists>k\<le>7. repr (load s') cs b rs k r data))"
proof -
  have c: "0 < cs" "2 \<le> b" "cs = rs * b" using conf by (simp_all add: trie_conf_def)
  let ?xs = "full_blocks cs data" and ?x = "rest_block cs data" and ?h = "NewHashTrieWriter cs b rs"
  have d: "concat ?xs @ ?x = data" by (rule blocks_concat)
  have l: "length (concat ?xs) + length ?x = length data" using arg_cong [OF d, of length] by simp
  have u: "upper_data (\<lambda>_. []) m = []" for m by (simp add: upper_data_def)
  have "rows_full (load s0) (ok s0) cs b rs 1 (\<lambda>_. [])" using c(2) by (simp add: rows_full_def)
  note pf = pushes_full_ok [OF conf New_holds [OF rs c(3)] this, of ?xs]
  have "length (upper_data (\<lambda>_. []) 1 @ concat ?xs) \<le> length data" using l u by simp
  then obtain h1 s1 lv1 where p: "pushes (pipeline_next save) ?xs (?h, s0) = Ok (h1, s1)" "holds b rs 1 h1 lv1" "grows load ok s0 s1"
      "rows_full (load s1) (ok s1) cs b rs 1 lv1" "upper_data lv1 1 = concat ?xs" "full h1 \<longrightarrow> lv1 8 \<noteq> []"
    using pf [OF _ full_blocks_length] cap unfolding u append_Nil by (auto simp: NewHashTrieWriter_def simp del: One_nat_def length_concat)
  have "\<exists>h s lv. pushes (pipeline_next save) (leaf_blocks cs data) (?h, s0) = Ok (h, s) \<and> holds b rs 1 h lv \<and>
      grows load ok s0 s \<and> rows_part (load s) (ok s) cs b rs 1 lv 8 \<and> upper_data lv 1 = data"
  proof (cases "?x = []")
    case True
    then show ?thesis
      using p rows_full_part [OF c(1,2) p(4), of 8] d data
      by (intro exI [of _ h1] exI [of _ s1] exI [of _ lv1]) (simp add: leaf_blocks_def)
  next
    case False
    have "length ?x < cs" by (rule length_rest_block [OF c(1)])
    then obtain h s lv where "pipeline_next save (chunk_of ?x) (h1, s1) = Ok (h, s)" "holds b rs 1 h lv" "grows load ok s1 s"
        "rows_part (load s) (ok s) cs b rs 1 lv 8" "upper_data lv 1 = upper_data lv1 1 @ ?x"
      using next_ok [OF conf p(2,4,6), of ?x] False cap l p(5) by auto
    then show ?thesis
      using p(1,5) False data d grows_trans [OF p(3)]
      by (intro exI [of _ h] exI [of _ s] exI [of _ lv]) (simp add: leaf_blocks_def pushes_append)
  qed
  then obtain h s lv where q: "pushes (pipeline_next save) (leaf_blocks cs data) (?h, s0) = Ok (h, s)" "holds b rs 1 h lv"
      "grows load ok s0 s" "rows_part (load s) (ok s) cs b rs 1 lv 8" "upper_data lv 1 = data"
    by blast
  then show ?thesis using Sum_ok [OF conf q(2,4)] cap data grows_trans [OF q(3)] by fastforce
qed

lemma sum_single:
  assumes conf: "trie_conf save takes cs b rs"
  shows "1 \<le> l \<Longrightarrow> l \<le> 8 \<Longrightarrow> holds b rs l h ((\<lambda>_. [])(l := [e])) \<Longrightarrow>
    \<exists>h'. sum_levels save [l..<8] (h, s) = Ok (h', s) \<and> holds b rs 8 h' ((\<lambda>_. [])(8 := [e]))"
proof (induction "8 - l" arbitrary: l h)
  case 0
  then have "l = 8" by simp
  then show ?case using 0 by simp
next
  case (Suc n)
  then have l: "l < 8" "n = 8 - Suc l" "[l..<8] = l # [Suc l..<8]" by (simp_all add: upt_conv_Cons)
  let ?h = "h\<lparr>cursors := (cursors h)[l + 1 := cursors h ! l]\<rparr>"
  have b: "2 \<le> b" using conf by (simp add: trie_conf_def)
  have "holds b rs (Suc l) ?h (((\<lambda>_. [])(l := [e]))(Suc l := ((\<lambda>_. [])(l := [e])) (Suc l) @ [e]))"
    using carry_holds [OF Suc(5,3) l(1)] by simp
  then have "holds b rs (Suc l) ?h ((\<lambda>_. [])(Suc l := [e]))" by (rule holds_cong) simp
  from Suc(1) [OF l(2) _ _ this] obtain h' where "sum_levels save [Suc l..<8] (?h, s) = Ok (h', s)" "holds b rs 8 h' ((\<lambda>_. [])(8 := [e]))"
    using l by auto
  moreover have "sum_level save l (h, s) = Ok (?h, s)" using sum_level_size [OF Suc(5,3) l(1) b] by simp
  ultimately show ?case using l(3) by auto
qed

text \<open>A file of one chunk has no other chunk.\<close>

lemma pipeline_single:
  assumes conf: "trie_conf save takes cs b rs" and rs: "7 \<le> rs" and small: "leaf_blocks cs data = [data]" "length data \<le> cs"
  shows "\<exists>h s r h'. save (chunk_of data) s0 = Ok (r, s) \<and> length r = rs \<and>
     pushes (pipeline_next save) (leaf_blocks cs data) (NewHashTrieWriter cs b rs, s0) = Ok (h, s) \<and>
     trie_Sum save h s = Ok (r, h', s)"
proof -
  have c: "2 \<le> b" "cs = rs * b" "\<And>d s r s'. save d s = Ok (r, s') \<Longrightarrow> length r = rs" "\<And>d. chunk_shape cs b rs d \<Longrightarrow> takes d"
    using conf unfolding trie_conf_def by blast+
  let ?h = "NewHashTrieWriter cs b rs"
  have takes: "takes (chunk_of data)" by (rule c(4)) (use small(2) in \<open>auto simp: chunk_shape_def\<close>)
  obtain r s1 where sv: "save (chunk_of data) s0 = Ok (r, s1)" using save_total [OF takes] by blast
  have r: "length r = rs" by (rule c(3) [OF sv])
  note h0 = New_holds [OF rs c(2)]
  obtain h1 where h1: "append_level 1 (PutUint64 (length data) @ r) ?h = Ok h1" "holds b rs 1 h1 ((\<lambda>_. [])(1 := [(r, data)]))"
    using append_level_holds [OF h0 _ _ _ r, of data] c(1) by auto
  have "int (rs + 8) \<noteq> int ((rs + 8) * b)"
    unfolding of_nat_eq_iff using mult_eq_self_implies_10 [of "rs + 8" b] c(1) by auto
  then have "levelSize 1 h1 \<noteq> int (fullChunk h1)"
    using levelSize_holds [OF h1(2)] h1(2) by (simp add: fullChunk_def holds_def SpanSize_def del: of_nat_mult)
  then have "writeToLevel save 1 (PutUint64 (length data)) r ?h s1 = Ok (h1, s1)" using h1(1) by (subst writeToLevel.simps) simp
  then have push: "pushes (pipeline_next save) (leaf_blocks cs data) (?h, s0) = Ok (h1, s1)"
    using sv r small(1) by (simp add: pipeline_next_def trie_ChainWrite_def chunk_of_def SpanSize_def NewHashTrieWriter_def add.commute)
  obtain h2 where "sum_levels save [1..<8] (h1, s1) = Ok (h2, s1)" "holds b rs 8 h2 ((\<lambda>_. [])(8 := [(r, data)]))"
    using sum_single [OF conf _ _ h1(2)] by auto
  then have "trie_Sum save h1 s1 = Ok (r, h2, s1)"
    using top_entry [of b rs h2 "(\<lambda>_. [])(8 := [(r, data)])" "(r, data)"] by (simp add: trie_Sum_def maxLevel_def)
  then show ?thesis using sv r push by blast
qed

lemma pipeline_empty_ok:
  assumes conf: "trie_conf save takes cs b rs" and rs: "7 \<le> rs"
  shows "\<exists>h s r h' s'. pushes (pipeline_next save) (leaf_blocks cs []) (NewHashTrieWriter cs b rs, s0) = Ok (h, s) \<and>
     trie_Sum save h s = Ok (r, h', s') \<and> length r = rs \<and> grows load ok s0 s' \<and>
     (ok s' \<longrightarrow> (\<exists>k\<le>7. repr (load s') cs b rs k r []))"
proof -
  obtain h s r h' where p: "save (chunk_of []) s0 = Ok (r, s)" "length r = rs"
      "pushes (pipeline_next save) (leaf_blocks cs []) (NewHashTrieWriter cs b rs, s0) = Ok (h, s)" "trie_Sum save h s = Ok (r, h', s)"
    using pipeline_single [OF conf rs, of "[]" s0] by (auto simp: leaf_blocks_def)
  have "chunk_shape cs b rs (chunk_of [])" by (auto simp: chunk_shape_def intro!: exI [of _ "[]"])
  then have "takes (chunk_of [])" using conf unfolding trie_conf_def by blast
  then have "ok s \<longrightarrow> repr (load s) cs b rs 0 r []" using save_load [OF _ p(1)] by (auto intro: repr.repr_leaf)
  then show ?thesis using p save_grows [OF p(1)] by blast
qed

end

end
