(* ===== verification/Joiner.thy ===== *)
theory Joiner
  imports HashTrie "HOL-Library.Multiset"
begin

text \<open>
  The joiner (\<^verbatim>\<open>src/pkg/file/joiner/joiner.go\<close>): it reads a byte range of a file from the trie of
  its chunks. The getter is a parameter; it is given the reference and the index of the chunk.
  Every child of an intermediate chunk is read by a goroutine of its own, so a read is a list of
  events, and what \<open>ReadAt\<close> returns is stated for every order in which they happen.
\<close>

section \<open>Model\<close>

definition ChunkSize :: nat where
  "ChunkSize = 262144"

definition Branches :: int where
  "Branches = 8192"

definition HashSize :: nat where
  "HashSize = 32"

text \<open>The int64 loop of \<open>subtrieSection\<close>; a loop that does not end is \<open>None\<close>.\<close>

partial_function (option) branch_loop :: "int \<Rightarrow> int \<Rightarrow> int \<Rightarrow> int \<Rightarrow> int option" where
  "branch_loop refs br subtrieSize branchSize =
     (if wrap64 (subtrieSize - wrap64 (branchSize * (refs - 1))) \<le> branchSize then Some branchSize
      else branch_loop refs br subtrieSize (wrap64 (branchSize * br)))"

definition subtrieSection :: "bytes \<Rightarrow> nat \<Rightarrow> nat \<Rightarrow> int \<Rightarrow> int option" where
  "subtrieSection data startIdx refLen subtrieSize =
     (let refs = int (length data div refLen) in
      map_option
        (\<lambda>branchSize.
           if int startIdx = (refs - 1) * int refLen
           then wrap64 (subtrieSize - wrap64 ((refs - 1) * branchSize)) else branchSize)
        (branch_loop refs (int (ChunkSize div refLen)) subtrieSize (int ChunkSize)))"

text \<open>What a goroutine of a read does: it writes to the buffer, or fails, or panics, or does not end.\<close>

datatype read_event = Wrote nat bytes | Failed ferror | Crashed | Hung

definition read_leaf :: "nat \<Rightarrow> bytes \<Rightarrow> int \<Rightarrow> int \<Rightarrow> int \<Rightarrow> int \<Rightarrow> read_event" where
  "read_leaf cap data cur off bufferOffset bytesToRead =
     (let dataOffsetStart = wrap64 (off - cur);
          lenDataToCopy = wrap64 (int (length data) - dataOffsetStart);
          dataOffsetEnd = (if bytesToRead > lenDataToCopy then wrap64 (dataOffsetStart + lenDataToCopy)
                           else wrap64 (dataOffsetStart + bytesToRead))
      in if 0 \<le> dataOffsetStart \<and> dataOffsetStart \<le> dataOffsetEnd \<and> dataOffsetEnd \<le> int (length data) \<and>
            0 \<le> bufferOffset \<and> wrap64 (bufferOffset + (dataOffsetEnd - dataOffsetStart)) \<le> int cap \<and>
            bufferOffset \<le> wrap64 (bufferOffset + (dataOffsetEnd - dataOffsetStart))
         then Wrote (nat bufferOffset) (take (nat (dataOffsetEnd - dataOffsetStart)) (drop (nat dataOffsetStart) data))
         else Crashed)"

text \<open>
  The loop over the references of an intermediate chunk. \<open>descend\<close> is the goroutine that is
  started for a reference, with the values that it captures.
\<close>

function read_loop ::
    "(bytes \<Rightarrow> nat \<Rightarrow> int \<Rightarrow> int \<Rightarrow> int \<Rightarrow> int \<Rightarrow> int \<Rightarrow> read_event list) \<Rightarrow> nat \<Rightarrow> bytes \<Rightarrow> int \<Rightarrow>
     nat \<Rightarrow> int \<Rightarrow> int \<Rightarrow> int \<Rightarrow> int \<Rightarrow> read_event list" where
  "read_loop descend refLen data subTrieSize cursor cur off bufferOffset bytesToRead =
     (if length data \<le> cursor \<or> bytesToRead = 0 then []
      else if refLen = 0 then [Crashed]
      else case subtrieSection data cursor refLen subTrieSize of
        None \<Rightarrow> [Hung]
      | Some sec \<Rightarrow>
          if wrap64 (cur + sec) < off
          then read_loop descend refLen data subTrieSize (cursor + refLen) (wrap64 (cur + sec)) off bufferOffset bytesToRead
          else if length data < cursor + refLen then [Crashed]
          else
            (let rest = wrap64 (sec - wrap64 (off - cur));
                 currentReadSize = min (min rest bytesToRead) sec
             in descend (take refLen (drop cursor data)) cursor cur sec off bufferOffset currentReadSize @
                read_loop descend refLen data subTrieSize (cursor + refLen) (wrap64 (cur + sec)) (wrap64 (cur + sec))
                  (wrap64 (bufferOffset + currentReadSize)) (wrap64 (bytesToRead - currentReadSize))))"
  by auto
termination
  by (relation "measure (\<lambda>(_, refLen, data, _, cursor, _). length data - cursor)") auto

declare read_loop.simps [simp del]

record joiner =
  jaddr :: bytes
  rootData :: bytes
  jspan :: int
  joff :: int
  jindex :: int
  refLength :: nat

text \<open>The depth of the recursion is bounded by fuel; a read that goes deeper is not ended.\<close>

fun readAtOffset ::
    "nat \<Rightarrow> (bytes \<Rightarrow> int \<Rightarrow> bytes outcome) \<Rightarrow> joiner \<Rightarrow> nat \<Rightarrow> bytes \<Rightarrow> int \<Rightarrow> int \<Rightarrow> int \<Rightarrow> int \<Rightarrow> int \<Rightarrow> int \<Rightarrow> int \<Rightarrow>
     read_event list" where
  "readAtOffset 0 getter j cap data index lastIndex cur subTrieSize off bufferOffset bytesToRead = [Hung]"
| "readAtOffset (Suc fuel) getter j cap data index lastIndex cur subTrieSize off bufferOffset bytesToRead =
     (if subTrieSize \<le> int (length data) then [read_leaf cap data cur off bufferOffset bytesToRead]
      else read_loop
        (\<lambda>address cursor cur sec off bufferOffset bytesToRead.
           let index' = wrap64 (lastIndex + 1 + index * Branches + int (cursor div refLength j)) in
           case getter address (wrap64 (index' + jindex j)) of
             Panic \<Rightarrow> [Crashed]
           | Fail e \<Rightarrow> [Failed e]
           | Ok ch \<Rightarrow>
               if length ch < 8 then [Crashed]
               else if wrap64 (int (Uint64 ch)) > sec then [Failed ErrMalformedTrie]
               else readAtOffset fuel getter j cap (drop 8 ch) index' (int (length data div refLength j)) cur
                      (wrap64 (int (Uint64 ch))) off bufferOffset bytesToRead)
        (refLength j) data subTrieSize 0 cur off bufferOffset bytesToRead)"

text \<open>The root chunk has the address without the key of an encrypted reference.\<close>

definition joiner_New :: "(bytes \<Rightarrow> int \<Rightarrow> bytes outcome) \<Rightarrow> bytes \<Rightarrow> int \<Rightarrow> joiner outcome" where
  "joiner_New getter address index =
     andthen (getter address index) (\<lambda>ch.
       if length ch < SpanSize then Panic
       else Ok \<lparr>jaddr = take HashSize address, rootData = drop SpanSize ch, jspan = wrap64 (int (Uint64 ch)), joff = 0,
                jindex = index, refLength = length address\<rparr>)"

fun apply_event :: "read_event \<Rightarrow> bytes \<Rightarrow> bytes" where
  "apply_event (Wrote i bs) b = copy_at i bs b"
| "apply_event _ b = b"

fun event_bytes :: "read_event \<Rightarrow> nat" where
  "event_bytes (Wrote i bs) = length bs"
| "event_bytes _ = 0"

fun first_error :: "read_event list \<Rightarrow> ferror option" where
  "first_error [] = None"
| "first_error (Failed e # evs) = Some e"
| "first_error (_ # evs) = first_error evs"

text \<open>
  The end of a read, from its events in the order in which they happen: a panic in a goroutine
  ends the program, \<open>Wait\<close> waits for every goroutine and returns the first error.
\<close>

definition read_result :: "read_event list \<Rightarrow> bytes \<Rightarrow> (nat \<times> bytes) outcome option" where
  "read_result evs buf =
     (if Crashed \<in> set evs then Some Panic
      else if Hung \<in> set evs then None
      else case first_error evs of
        Some e \<Rightarrow> Some (Fail e)
      | None \<Rightarrow> Some (Ok (sum_list (map event_bytes evs), fold apply_event evs buf)))"

definition ReadAt ::
  "nat \<Rightarrow> (read_event list \<Rightarrow> read_event list) \<Rightarrow> (bytes \<Rightarrow> int \<Rightarrow> bytes outcome) \<Rightarrow> joiner \<Rightarrow> bytes \<Rightarrow> int \<Rightarrow>
   (nat \<times> bytes) outcome option" where
  "ReadAt fuel order getter j buf off =
     (if jspan j \<le> off then Some (Fail EOF)
      else
        (let left = wrap64 (jspan j - off);
             readLen = (if int (length buf) > left then left else int (length buf))
         in read_result
              (order (readAtOffset fuel getter j (length buf) (rootData j) 0 0 0 (jspan j) off 0 readLen)) buf))"

text \<open>\<open>Read\<close> returns the count and the error; the offset moves by the count.\<close>

definition joiner_Read ::
  "nat \<Rightarrow> (read_event list \<Rightarrow> read_event list) \<Rightarrow> (bytes \<Rightarrow> int \<Rightarrow> bytes outcome) \<Rightarrow> joiner \<Rightarrow> bytes \<Rightarrow>
   ((nat \<times> bytes) outcome \<times> joiner) option" where
  "joiner_Read fuel order getter j buf =
     map_option
       (\<lambda>r. case r of
          Ok (n, b) \<Rightarrow> (Ok (n, b), j\<lparr>joff := wrap64 (joff j + int n)\<rparr>)
        | Fail e \<Rightarrow> (Fail e, j)
        | Panic \<Rightarrow> (Panic, j))
       (ReadAt fuel order getter j buf (joff j))"

definition Seek :: "int \<Rightarrow> int \<Rightarrow> joiner \<Rightarrow> int outcome \<times> joiner" where
  "Seek offset whence j =
     (if whence \<notin> {0, 1, 2} then (Fail ErrWhence, j)
      else
        (let o' = (if whence = 0 then offset else if whence = 1 then wrap64 (offset + joff j)
                   else wrap64 (jspan j - offset))
         in if whence = 2 \<and> o' < 0 then (Fail EOF, j)
            else if o' < 0 then (Fail ErrOffset, j)
            else if o' > jspan j then (Fail EOF, j)
            else (Ok o', j\<lparr>joff := o'\<rparr>)))"

section \<open>The size of a subtrie\<close>

lemma wrap64_nat: "x < 2 ^ 63 \<Longrightarrow> wrap64 (int x) = int x"
  by (rule wrap64_id) (simp add: in_int64_def)

lemma wrap64_diff: "x < 2 ^ 63 \<Longrightarrow> y < 2 ^ 63 \<Longrightarrow> wrap64 (int x - int y) = int x - int y"
  by (rule wrap64_id) (simp add: in_int64_def)

lemma branch_loop_finds:
  fixes n m b c :: nat
  assumes "2 \<le> m" "2 \<le> b" "(m - 1) * (c * b ^ k) < n" "n \<le> m * (c * b ^ k)" "n < 2 ^ 63"
  shows "i \<le> k \<Longrightarrow> branch_loop (int m) (int b) (int n) (int (c * b ^ i)) = Some (int (c * b ^ k))"
proof (induction "k - i" arbitrary: i)
  have small: "x * (m - 1) < 2 ^ 63" "x < 2 ^ 63" if "x \<le> c * b ^ k" for x
  proof -
    have "x * (m - 1) \<le> (m - 1) * (c * b ^ k)" using that by (simp add: mult.commute)
    then show *: "x * (m - 1) < 2 ^ 63" using assms(3,5) by linarith
    have "x * 1 \<le> x * (m - 1)" using assms(1) by (intro mult_le_mono2) simp
    then show "x < 2 ^ 63" using * by linarith
  qed
  have left: "wrap64 (int n - wrap64 (int x * (int m - 1))) = int n - int (x * (m - 1))" if "x \<le> c * b ^ k" for x
  proof -
    have "int x * (int m - 1) = int (x * (m - 1))" using assms(1) by (simp add: of_nat_diff)
    then show ?thesis using small(1) [OF that] assms(5) by (simp only: wrap64_nat wrap64_diff)
  qed
  {
    case (0 i)
    then have "i = k" by simp
    moreover have "int n - int (c * b ^ k * (m - 1)) \<le> int (c * b ^ k)"
    proof -
      have "m * (c * b ^ k) = (m - 1) * (c * b ^ k) + c * b ^ k" using assms(1) by (cases m) simp_all
      then have "n \<le> c * b ^ k * (m - 1) + c * b ^ k" using assms(4) by (simp add: mult.commute)
      then show ?thesis by linarith
    qed
    ultimately show ?case using left [of "c * b ^ k"] by (subst branch_loop.simps) simp
  next
    case (Suc d i)
    let ?x = "c * b ^ i"
    have "b ^ Suc i \<le> b ^ k" using Suc(2) assms(2) by (intro power_increasing) auto
    then have le: "?x * b \<le> c * b ^ k" by (simp add: mult.assoc mult.commute [of b])
    then have le': "?x \<le> c * b ^ k" using assms(2) by (metis dvd_triv_left le_trans mult_le_mono2 nat_mult_1_right one_le_numeral)
    have "\<not> int n - int (?x * (m - 1)) \<le> int ?x"
    proof
      assume "int n - int (?x * (m - 1)) \<le> int ?x"
      then have "n \<le> ?x * (m - 1) + ?x" by linarith
      also have "\<dots> = ?x * m" using assms(1) by (cases m) simp_all
      also have "\<dots> \<le> ?x * (b * (m - 1))"
      proof (rule mult_le_mono2)
        have "2 * (m - 1) \<le> b * (m - 1)" using assms(2) by (rule mult_le_mono1)
        then show "m \<le> b * (m - 1)" using assms(1) by linarith
      qed
      also have "\<dots> \<le> (m - 1) * (c * b ^ k)" using mult_le_mono1 [OF le, of "m - 1"] by (simp add: ac_simps)
      finally show False using assms(3) by simp
    qed
    then have "branch_loop (int m) (int b) (int n) (int ?x) = branch_loop (int m) (int b) (int n) (wrap64 (int ?x * int b))"
      using left [OF le'] by (subst branch_loop.simps) simp
    also have "wrap64 (int ?x * int b) = int (c * b ^ Suc i)"
    proof -
      have "wrap64 (int (?x * b)) = int (?x * b)" using small(2) [OF le] by (rule wrap64_nat)
      then show ?thesis by (simp add: ac_simps)
    qed
    finally show ?case using Suc(1) [of "Suc i"] Suc(2) by simp
  }
qed


lemma subtrieSection_ok:
  assumes "0 < rs" "2 \<le> b" "ChunkSize = rs * b" "length data = m * rs" "2 \<le> m"
    and "(m - 1) * trie_size ChunkSize b k < n" "n \<le> m * trie_size ChunkSize b k" "n < 2 ^ 63"
  shows "subtrieSection data (i * rs) rs (int n) =
    Some (int (if i = m - 1 then n - (m - 1) * trie_size ChunkSize b k else trie_size ChunkSize b k))"
proof -
  let ?S = "trie_size ChunkSize b k"
  have "length data div rs = m" "ChunkSize div rs = b" using assms(1) by (simp_all add: assms(3,4))
  moreover have "branch_loop (int m) (int b) (int n) (int ChunkSize) = Some (int ?S)"
    using branch_loop_finds [OF assms(5,2) assms(6-8) [unfolded trie_size_def], of 0] by (simp add: trie_size_def)
  moreover have "int (i * rs) = (int m - 1) * int rs \<longleftrightarrow> i = m - 1"
  proof -
    have "(int m - 1) * int rs = int ((m - 1) * rs)" using assms(5) by (simp add: of_nat_diff)
    then show ?thesis using assms(1) by (simp only: of_nat_eq_iff mult_cancel2) auto
  qed
  moreover have "wrap64 (int n - wrap64 ((int m - 1) * int ?S)) = int (n - (m - 1) * ?S)"
  proof -
    have e: "(int m - 1) * int ?S = int ((m - 1) * ?S)" using assms(5) by (simp add: of_nat_diff)
    have "(m - 1) * ?S < 2 ^ 63" using assms(6,8) by linarith
    then show ?thesis using assms(6,8) unfolding e by (simp only: wrap64_nat wrap64_diff of_nat_diff less_imp_le)
  qed
  ultimately show ?thesis by (simp add: subtrieSection_def)
qed

section \<open>A read of a stored file\<close>

text \<open>The events of a successful read: pieces of the data, one after the other in the buffer.\<close>

fun tiles :: "read_event list \<Rightarrow> nat \<Rightarrow> bytes \<Rightarrow> bool" where
  "tiles [] i bs \<longleftrightarrow> bs = []"
| "tiles (Wrote p x # evs) i bs \<longleftrightarrow>
     p = i \<and> length x \<le> length bs \<and> take (length x) bs = x \<and> tiles evs (i + length x) (drop (length x) bs)"
| "tiles (_ # evs) i bs \<longleftrightarrow> False"

lemma tiles_append: "tiles xs i x \<Longrightarrow> tiles ys (i + length x) y \<Longrightarrow> tiles (xs @ ys) i (x @ y)"
proof (induction xs i x rule: tiles.induct)
  case (2 p x evs i bs)
  then have "i + length x + length (drop (length x) bs) = i + length bs" by simp
  then show ?case using 2 by simp
qed auto

lemma read_leaf_ok:
  assumes "cur \<le> off" "off - cur + rd \<le> length dat" "cur + length dat < 2 ^ 63" "bo + rd \<le> cap" "cap < 2 ^ 63"
  shows "read_leaf cap dat (int cur) (int off) (int bo) (int rd) = Wrote bo (take rd (drop (off - cur) dat))"
proof -
  have "off < 2 ^ 63" "cur < 2 ^ 63" "off - cur < 2 ^ 63" "length dat < 2 ^ 63" "off - cur + rd < 2 ^ 63" "bo + rd < 2 ^ 63"
    using assms by simp_all
  then have w: "wrap64 (int off - int cur) = int (off - cur)"
      "wrap64 (int (length dat) - int (off - cur)) = int (length dat - (off - cur))"
      "wrap64 (int (off - cur) + int rd) = int (off - cur + rd)" "wrap64 (int bo + int rd) = int (bo + rd)"
    using assms wrap64_diff [of off cur] wrap64_nat [of "length dat - (off - cur)"] wrap64_nat [of "off - cur + rd"] wrap64_nat [of "bo + rd"]
    by (simp_all only: of_nat_add [symmetric]) (simp_all only: of_nat_diff)
  have c: "int (off - cur + rd) - int (off - cur) = int rd" "int rd > int (length dat - (off - cur)) \<longleftrightarrow> False"
    using assms(2) by auto
  show ?thesis using assms(2,4) unfolding read_leaf_def Let_def w c if_False by simp
qed

lemma concat_refs: "(\<And>e. e \<in> set es \<Longrightarrow> length (fst e) = rs) \<Longrightarrow> length (concat (map fst es)) = length es * rs"
  by (induction es) auto

lemma nth_ref:
  "(\<And>e. e \<in> set es \<Longrightarrow> length (fst e) = rs) \<Longrightarrow> i < length es \<Longrightarrow>
     take rs (drop (i * rs) (concat (map fst es))) = fst (es ! i)"
proof (induction es arbitrary: i)
  case (Cons e es)
  then show ?case by (cases i) auto
qed simp

lemma node_size:
  assumes "length es = m" "2 \<le> m" "\<And>i. i < m - 1 \<Longrightarrow> length (snd (es ! i)) = S"
  shows "length (concat (map snd es)) = (m - 1) * S + length (snd (es ! (m - 1)))"
proof -
  obtain xs e where es: "es = xs @ [e]" using assms(1,2) by (cases es rule: rev_cases) auto
  have "length (snd x) = S" if x: "x \<in> set xs" for x
  proof -
    obtain i where "i < length xs" "xs ! i = x" using x by (auto simp: in_set_conv_nth)
    then show ?thesis using assms(3) [of i] assms(1) es by (simp add: nth_append)
  qed
  then have "length (concat (map snd xs)) = length xs * S" by (induction xs) auto
  then show ?thesis using assms(1) es by auto
qed

text \<open>An intermediate chunk: the references of its children, all but the last one full.\<close>

definition trie_node :: "nat \<Rightarrow> nat \<Rightarrow> nat \<Rightarrow> (bytes \<times> bytes) list \<Rightarrow> bytes \<Rightarrow> bool" where
  "trie_node b rs k es refs \<longleftrightarrow>
     refs = concat (map fst es) \<and> (\<forall>e\<in>set es. length (fst e) = rs) \<and> 2 \<le> length es \<and> length es \<le> b \<and>
     (\<forall>i<length es - 1. length (snd (es ! i)) = trie_size ChunkSize b k) \<and>
     0 < length (snd (es ! (length es - 1))) \<and> length (snd (es ! (length es - 1))) \<le> trie_size ChunkSize b k"

lemma trie_node_length: "trie_node b rs k es refs \<Longrightarrow> length refs = length es * rs"
  by (simp add: trie_node_def concat_refs)

lemma trie_node_size:
  assumes "trie_node b rs k es refs"
  shows "length (concat (map snd es)) = (length es - 1) * trie_size ChunkSize b k + length (snd (es ! (length es - 1)))"
  using assms by (intro node_size) (auto simp: trie_node_def)

lemma trie_node_cursor:
  assumes conf: "0 < rs" "2 \<le> b" "ChunkSize = rs * b" and node: "trie_node b rs k es refs"
    and n: "n = length (concat (map snd es))" "n < 2 ^ 63" and i: "i < length es"
  shows "subtrieSection refs (i * rs) rs (int n) = Some (int (length (snd (es ! i))))"
    "\<not> length refs \<le> i * rs" "\<not> length refs < i * rs + rs" "take rs (drop (i * rs) refs) = fst (es ! i)"
proof -
  let ?S = "trie_size ChunkSize b k" and ?m = "length es"
  have m: "2 \<le> ?m" "\<And>i. i < ?m - 1 \<Longrightarrow> length (snd (es ! i)) = ?S" "length (snd (es ! (?m - 1))) \<le> ?S"
      "0 < length (snd (es ! (?m - 1)))"
    using node by (auto simp: trie_node_def)
  have "?m * ?S = (?m - 1) * ?S + ?S" using m(1) by (cases ?m) simp_all
  then show "subtrieSection refs (i * rs) rs (int n) = Some (int (length (snd (es ! i))))"
    using subtrieSection_ok [OF conf trie_node_length [OF node] m(1) _ _ n(2), of k i] trie_node_size [OF node] n(1) m i by auto
  have "Suc i * rs \<le> ?m * rs" using i by (intro mult_le_mono1) simp
  then show "\<not> length refs \<le> i * rs" "\<not> length refs < i * rs + rs"
    using conf(1) trie_node_length [OF node] i by simp_all
  show "take rs (drop (i * rs) refs) = fst (es ! i)" using nth_ref [of es rs i] i node by (simp add: trie_node_def)
qed

lemma trie_node_big:
  assumes conf: "0 < rs" "2 \<le> b" "ChunkSize = rs * b" and node: "trie_node b rs k es refs"
  shows "\<not> int (length (concat (map snd es))) \<le> int (length refs)"
proof -
  let ?S = "trie_size ChunkSize b k" and ?m = "length es"
  have m: "2 \<le> ?m" "0 < length (snd (es ! (?m - 1)))" using node by (auto simp: trie_node_def)
  have "?m \<le> (?m - 1) * b" using mult_le_mono2 [OF conf(2), of "?m - 1"] m(1) by linarith
  then have "?m * rs \<le> (?m - 1) * ChunkSize" using mult_le_mono1 [of ?m "(?m - 1) * b" rs] by (simp add: conf(3) ac_simps)
  moreover have "ChunkSize \<le> ?S" using conf(2) by (simp add: trie_size_def)
  ultimately show ?thesis
    using mult_le_mono2 [of ChunkSize ?S "?m - 1"] trie_node_size [OF node] trie_node_length [OF node] m(2) by linarith
qed

lemma repr_induct [consumes 1, case_names leaf node]:
  assumes "repr ld ChunkSize b rs k r dat"
    and "\<And>r dat. ld r = Some (chunk_of dat) \<Longrightarrow> length dat \<le> ChunkSize \<Longrightarrow> P 0 r dat"
    and "\<And>r refs es k. trie_node b rs k es refs \<Longrightarrow> ld r = Some (PutUint64 (length (concat (map snd es))) @ refs) \<Longrightarrow>
      (\<And>i. i < length es \<Longrightarrow> \<exists>k'\<le>k. (i < length es - 1 \<longrightarrow> k' = k) \<and>
        repr ld ChunkSize b rs k' (fst (es ! i)) (snd (es ! i)) \<and> P k' (fst (es ! i)) (snd (es ! i))) \<Longrightarrow>
      P (Suc k) r (concat (map snd es))"
  shows "P k r dat"
  using assms(1)
proof (induction rule: repr.induct)
  case (repr_leaf r dat)
  then show ?case by (rule assms(2))
next
  case (repr_node r dat es r' d' k k')
  let ?all = "es @ [(r', d')]"
  have es: "e \<in> set es \<Longrightarrow> length (fst e) = rs \<and> length (snd e) = trie_size ChunkSize b k \<and>
      repr ld ChunkSize b rs k (fst e) (snd e) \<and> P k (fst e) (snd e)" for e
    using repr_node(10) by fastforce
  have "2 \<le> Suc (length es)" using repr_node(3) by (cases es) simp_all
  then have node: "trie_node b rs k ?all (concat (map fst ?all))"
    using es repr_node(4,7-9) by (auto simp: trie_node_def nth_append)
  have "P (Suc k) r (concat (map snd ?all))"
  proof (rule assms(3) [OF node])
    show "ld r = Some (PutUint64 (length (concat (map snd ?all))) @ concat (map fst ?all))" using repr_node(1,2) by simp
    show "\<exists>k''\<le>k. (i < length ?all - 1 \<longrightarrow> k'' = k) \<and> repr ld ChunkSize b rs k'' (fst (?all ! i)) (snd (?all ! i)) \<and>
        P k'' (fst (?all ! i)) (snd (?all ! i))" if "i < length ?all" for i
      using that es repr_node(5,6,11) by (cases "i < length es") (auto simp: nth_append intro: exI [of _ k'])
  qed
  then show ?case using repr_node(2) by simp
qed

lemma read_loop_ok:
  assumes conf: "0 < rs" "2 \<le> b" "ChunkSize = rs * b" and node: "trie_node b rs k es data"
    and n: "n = length (concat (map snd es))" "n < 2 ^ 63" and cap: "cap < 2 ^ 63"
    and desc: "\<And>i cur off bo rd. i < length es \<Longrightarrow> cur \<le> off \<Longrightarrow> off - cur + rd \<le> length (snd (es ! i)) \<Longrightarrow>
      cur + length (snd (es ! i)) < 2 ^ 63 \<Longrightarrow> bo + rd \<le> cap \<Longrightarrow>
      tiles (descend (fst (es ! i)) (i * rs) (int cur) (int (length (snd (es ! i)))) (int off) (int bo) (int rd))
        bo (take rd (drop (off - cur) (snd (es ! i))))"
  shows "i \<le> length es \<Longrightarrow> cur \<le> off \<Longrightarrow> off - cur + btr \<le> length (concat (map snd (drop i es))) \<Longrightarrow>
    cur + length (concat (map snd (drop i es))) < 2 ^ 63 \<Longrightarrow> bo + btr \<le> cap \<Longrightarrow>
    tiles (read_loop descend rs data (int n) (i * rs) (int cur) (int off) (int bo) (int btr)) bo
      (take btr (drop (off - cur) (concat (map snd (drop i es)))))"
proof (induction "length es - i" arbitrary: i cur off btr bo)
  case 0
  then have "drop i es = []" "length data \<le> i * rs" using trie_node_length [OF node] by simp_all
  then show ?case by (simp add: read_loop.simps)
next
  case (Suc d)
  let ?d = "snd (es ! i)" and ?r = "concat (map snd (drop (Suc i) es))"
  have i: "i < length es" "d = length es - Suc i" "Suc i \<le> length es" using Suc(2) by simp_all
  have dr: "concat (map snd (drop i es)) = ?d @ ?r" using i(1) by (simp add: Cons_nth_drop_Suc [symmetric])
  note sec = trie_node_cursor(1) [OF conf node n i(1)] and in_data = trie_node_cursor(2,3) [OF conf node n i(1)]
    and ref = trie_node_cursor(4) [OF conf node n i(1)]
  have w: "wrap64 (int cur + int (length ?d)) = int (cur + length ?d)"
    using Suc(6) by (simp add: dr wrap64_nat of_nat_add [symmetric] del: of_nat_add)
  show ?case
  proof (cases "btr = 0")
    case True
    then show ?thesis by (simp add: read_loop.simps)
  next
    case btr: False
    show ?thesis
    proof (cases "cur + length ?d < off")
      case True
      have "tiles (read_loop descend rs data (int n) (Suc i * rs) (int (cur + length ?d)) (int off) (int bo) (int btr)) bo
          (take btr (drop (off - (cur + length ?d)) ?r))"
        by (rule Suc(1) [OF i(2,3)]) (use Suc(4-7) True dr in simp_all)
      moreover have "drop (off - cur) (?d @ ?r) = drop (off - (cur + length ?d)) ?r" using True by simp
      ultimately show ?thesis using btr conf(1) True in_data(1) sec w
        by (subst read_loop.simps) (simp add: dr add.commute)
    next
      case False
      define rd where "rd = min (length ?d - (off - cur)) btr"
      have rd: "off - cur + rd \<le> length ?d" "rd \<le> btr" using False Suc(4) by (simp_all add: rd_def)
      have "off < 2 ^ 63" "cur < 2 ^ 63" "off - cur < 2 ^ 63" "length ?d < 2 ^ 63" "off - cur \<le> length ?d"
        using False Suc(4,6) dr by simp_all
      then have "wrap64 (int off - int cur) = int (off - cur)"
          "wrap64 (int (length ?d) - int (off - cur)) = int (length ?d - (off - cur))"
        using Suc(4) wrap64_diff [of off cur] wrap64_diff [of "length ?d" "off - cur"] by (simp_all only: of_nat_diff)
      then have w2: "min (min (wrap64 (int (length ?d) - wrap64 (int off - int cur))) (int btr)) (int (length ?d)) = int rd"
        by (simp add: rd_def of_nat_min [symmetric] del: of_nat_min of_nat_diff)
      have w3: "wrap64 (int bo + int rd) = int (bo + rd)" "wrap64 (int btr - int rd) = int (btr - rd)"
        using rd(2) Suc(7) cap wrap64_nat [of "bo + rd"] wrap64_nat [of "btr - rd"] by simp_all
      let ?here = "descend (fst (es ! i)) (i * rs) (int cur) (int (length ?d)) (int off) (int bo) (int rd)"
        and ?later = "read_loop descend rs data (int n) (Suc i * rs) (int (cur + length ?d)) (int (cur + length ?d))
            (int (bo + rd)) (int (btr - rd))"
      have "tiles ?later (bo + rd) (take (btr - rd) (drop (cur + length ?d - (cur + length ?d)) ?r))"
        by (rule Suc(1) [OF i(2,3)]) (use Suc(4-7) rd dr rd_def in auto)
      moreover have "tiles ?here bo (take rd (drop (off - cur) ?d))"
        by (rule desc) (use i(1) Suc(4-7) rd dr in simp_all)
      moreover have "take btr (drop (off - cur) (?d @ ?r)) = take rd (drop (off - cur) ?d) @ take (btr - rd) ?r"
        using False Suc(4) by (simp add: rd_def min_def)
      moreover have "length (take rd (drop (off - cur) ?d)) = rd" using rd(1) by simp
      ultimately have "tiles (?here @ ?later) bo (take btr (drop (off - cur) (?d @ ?r)))"
        using tiles_append by (metis diff_self_eq_0 drop_0)
      moreover have "read_loop descend rs data (int n) (i * rs) (int cur) (int off) (int bo) (int btr) = ?here @ ?later"
        using btr conf(1) False in_data sec ref
        by (subst read_loop.simps) (simp only: Let_def w w2 w3 option.case if_False, simp add: add.commute)
      ultimately show ?thesis by (simp only: dr)
    qed
  qed
qed


lemma repr_chunk:
  assumes "repr ld cs b rs k r dat" "length dat < 2 ^ 63"
  obtains ch where "ld r = Some ch" "Uint64 ch = length dat" "8 \<le> length ch"
  using assms(1)
proof cases
  case repr_leaf
  then show thesis using that [of "chunk_of dat"] assms(2) by (simp add: chunk_of_def Uint64_PutUint64)
next
  case (repr_node es r' d' k k')
  then show thesis using that [OF repr_node(2)] assms(2) by (simp add: Uint64_PutUint64 del: concat_append)
qed

lemma child_read:
  assumes "\<And>ch. ld r = Some ch \<Longrightarrow> tiles (readAtOffset fuel getter j cap (drop 8 ch) ix li (int cur) (int (length dat)) (int off) (int bo) (int rd))
      bo (take rd (drop (off - cur) dat))"
    and "repr ld cs b rs k r dat" "length dat < 2 ^ 63" "\<And>r d i. ld r = Some d \<Longrightarrow> getter r i = Ok d"
  shows "tiles (case getter r i of
             Panic \<Rightarrow> [Crashed]
           | Fail e \<Rightarrow> [Failed e]
           | Ok ch \<Rightarrow>
               if length ch < 8 then [Crashed]
               else if wrap64 (int (Uint64 ch)) > int (length dat) then [Failed ErrMalformedTrie]
               else readAtOffset fuel getter j cap (drop 8 ch) ix li (int cur)
                      (wrap64 (int (Uint64 ch))) (int off) (int bo) (int rd)) bo (take rd (drop (off - cur) dat))"
proof -
  obtain ch where "ld r = Some ch" "Uint64 ch = length dat" "8 \<le> length ch" using repr_chunk [OF assms(2,3)] by blast
  then show ?thesis using assms(1) [of ch] assms(3,4) wrap64_nat [of "length dat"] by simp
qed

lemma readAtOffset_ok:
  assumes conf: "0 < rs" "2 \<le> b" "ChunkSize = rs * b" and get: "\<And>r d i. ld r = Some d \<Longrightarrow> getter r i = Ok d"
    and j: "refLength j = rs" and cap: "cap < 2 ^ 63"
  shows "repr ld ChunkSize b rs k r dat \<Longrightarrow> k < fuel \<Longrightarrow> ld r = Some ch \<Longrightarrow> cur \<le> off \<Longrightarrow> off - cur + rd \<le> length dat \<Longrightarrow>
    cur + length dat < 2 ^ 63 \<Longrightarrow> bo + rd \<le> cap \<Longrightarrow>
    tiles (readAtOffset fuel getter j cap (drop 8 ch) index lastIndex (int cur) (int (length dat)) (int off) (int bo) (int rd))
      bo (take rd (drop (off - cur) dat))"
proof (induction arbitrary: fuel ch index lastIndex cur off rd bo rule: repr_induct)
  case (leaf r dat)
  then obtain f where "fuel = Suc f" by (cases fuel) auto
  moreover have "drop 8 ch = dat" using leaf by (auto simp: chunk_of_def)
  ultimately show ?case using read_leaf_ok [OF leaf(5-8) cap] leaf(6) by simp
next
  case (node r refs es k)
  obtain f where f: "fuel = Suc f" "k < f" using node by (cases fuel) auto
  have ch: "drop 8 ch = refs" using node(2,5) by auto
  let ?desc = "\<lambda>address cursor cur sec off bufferOffset bytesToRead.
           let index' = wrap64 (lastIndex + 1 + index * Branches + int (cursor div refLength j)) in
           case getter address (wrap64 (index' + jindex j)) of
             Panic \<Rightarrow> [Crashed]
           | Fail e \<Rightarrow> [Failed e]
           | Ok c \<Rightarrow>
               if length c < 8 then [Crashed]
               else if wrap64 (int (Uint64 c)) > sec then [Failed ErrMalformedTrie]
               else readAtOffset f getter j cap (drop 8 c) index' (int (length refs div refLength j)) cur
                      (wrap64 (int (Uint64 c))) off bufferOffset bytesToRead"
  have desc: "tiles (?desc (fst (es ! i)) (i * rs) (int cur) (int (length (snd (es ! i)))) (int off) (int bo) (int rd))
        bo (take rd (drop (off - cur) (snd (es ! i))))"
    if c: "i < length es" "cur \<le> off" "off - cur + rd \<le> length (snd (es ! i))"
      "cur + length (snd (es ! i)) < 2 ^ 63" "bo + rd \<le> cap" for i cur off bo rd
  proof -
    obtain k' where k': "k' \<le> k" "repr ld ChunkSize b rs k' (fst (es ! i)) (snd (es ! i))"
      and ih: "\<And>ch index lastIndex. ld (fst (es ! i)) = Some ch \<Longrightarrow>
        tiles (readAtOffset f getter j cap (drop 8 ch) index lastIndex (int cur) (int (length (snd (es ! i)))) (int off) (int bo) (int rd))
          bo (take rd (drop (off - cur) (snd (es ! i))))"
      using node(3) [OF c(1)] c(2-) f(2) by (meson le_less_trans)
    show ?thesis unfolding Let_def by (rule child_read [OF ih k'(2) _ get]) (use c(4) in simp_all)
  qed
  have "tiles (read_loop ?desc rs refs (int (length (concat (map snd es)))) (0 * rs) (int cur) (int off) (int bo) (int rd)) bo
      (take rd (drop (off - cur) (concat (map snd (drop 0 es)))))"
    by (rule read_loop_ok [OF conf node(1) refl _ cap desc]) (use node(6-9) in auto)
  then show ?case using trie_node_big [OF conf node(1)] f(1) j ch by simp
qed

section \<open>The order of the goroutines\<close>

lemma nth_copy_at_any:
  "k < length dst \<Longrightarrow> copy_at i src dst ! k = (if i \<le> k \<and> k < i + length src then src ! (k - i) else dst ! k)"
  by (auto simp: copy_at_def nth_append min_def)

lemma copy_at_commute:
  "i + length x \<le> k \<Longrightarrow> copy_at i x (copy_at k y b) = copy_at k y (copy_at i x b)"
  by (rule nth_equalityI) (auto simp: nth_copy_at_any)

lemma copy_at_split:
  "length x \<le> length bs \<Longrightarrow> take (length x) bs = x \<Longrightarrow>
     copy_at (i + length x) (drop (length x) bs) (copy_at i x b) = copy_at i bs b"
proof (rule nth_equalityI)
  fix k
  assume a: "length x \<le> length bs" "take (length x) bs = x" "k < length (copy_at (i + length x) (drop (length x) bs) (copy_at i x b))"
  have "x ! m = bs ! m" if "m < length x" for m using a(2) that by (metis nth_take)
  then show "copy_at (i + length x) (drop (length x) bs) (copy_at i x b) ! k = copy_at i bs b ! k"
    using a(1,3) by (auto simp: nth_copy_at_any)
qed simp

lemma tiles_events:
  "tiles evs i bs \<Longrightarrow> e \<in> set evs \<Longrightarrow> \<exists>p x. e = Wrote p x \<and> i \<le> p"
  by (induction evs i bs rule: tiles.induct) fastforce+

lemma tiles_disjoint:
  "tiles evs i bs \<Longrightarrow> Wrote p x \<in> set evs \<Longrightarrow> Wrote q y \<in> set evs \<Longrightarrow>
     p = q \<and> x = y \<or> p + length x \<le> q \<or> q + length y \<le> p"
proof (induction evs i bs rule: tiles.induct)
  case (2 p' x' evs i bs)
  then show ?case using tiles_events [of evs "i + length x'" "drop (length x') bs"] by fastforce
qed auto

lemma tiles_in_order:
  "tiles evs i bs \<Longrightarrow> fold apply_event evs b = copy_at i bs b"
proof (induction evs i bs arbitrary: b rule: tiles.induct)
  case (1 i bs)
  then show ?case by (simp add: copy_at_def)
next
  case (2 p x evs i bs)
  then show ?case using copy_at_split [of x bs i b] by simp
qed auto

lemma tiles_count: "tiles evs i bs \<Longrightarrow> sum_list (map event_bytes evs) = length bs"
  by (induction evs i bs rule: tiles.induct) auto

lemma no_error: "(\<And>e. e \<in> set evs \<Longrightarrow> \<exists>p x. e = Wrote p x) \<Longrightarrow> first_error evs = None"
  by (induction evs rule: first_error.induct) auto

lemma tiles_any_order:
  assumes "tiles evs i bs" "mset evs' = mset evs"
  shows "read_result evs' b = Some (Ok (length bs, copy_at i bs b))"
proof -
  have s: "set evs' = set evs" using assms(2) by (rule mset_eq_setD)
  have ev: "\<exists>p x. e = Wrote p x" if "e \<in> set evs'" for e using tiles_events [OF assms(1)] that s by blast
  have "apply_event x \<circ> apply_event y = apply_event y \<circ> apply_event x" if xy: "x \<in> set evs" "y \<in> set evs" for x y
  proof -
    obtain p u q v where "x = Wrote p u" "y = Wrote q v" using ev xy s by metis
    then show ?thesis using tiles_disjoint [OF assms(1), of p u q v] xy
        copy_at_commute [of p u q v] copy_at_commute [of q v p u] by (auto simp: fun_eq_iff)
  qed
  then have "fold apply_event evs = fold apply_event evs'" using assms(2) by (intro fold_multiset_equiv) auto
  moreover have "sum_list (map event_bytes evs') = length bs"
    using tiles_count [OF assms(1)] assms(2) by (metis mset_map sum_mset_sum_list)
  moreover have "Crashed \<notin> set evs'" "Hung \<notin> set evs'" using ev by auto
  ultimately show ?thesis using no_error [of evs'] ev tiles_in_order [OF assms(1), of b] by (simp add: read_result_def)
qed

lemma New_ok:
  assumes "repr ld cs b rs k root dat" "length dat < 2 ^ 63" "\<And>r d i. ld r = Some d \<Longrightarrow> getter r i = Ok d"
  obtains ch where "ld root = Some ch"
    "joiner_New getter root ix = Ok \<lparr>jaddr = take HashSize root, rootData = drop 8 ch, jspan = int (length dat), joff = 0,
       jindex = ix, refLength = length root\<rparr>"
proof -
  obtain ch where "ld root = Some ch" "Uint64 ch = length dat" "8 \<le> length ch" using repr_chunk [OF assms(1,2)] .
  then show thesis using that assms(2,3) wrap64_nat [of "length dat"] by (simp add: joiner_New_def SpanSize_def)
qed

definition joins :: "(bytes \<Rightarrow> bytes option) \<Rightarrow> bytes \<Rightarrow> joiner \<Rightarrow> bytes \<Rightarrow> bool" where
  "joins ld root j dat \<longleftrightarrow>
     (\<exists>ch. ld root = Some ch \<and> rootData j = drop 8 ch) \<and> jspan j = int (length dat) \<and> refLength j = length root"

lemma ReadAt_ok:
  assumes conf: "0 < rs" "2 \<le> b" "ChunkSize = rs * b" and get: "\<And>r d i. ld r = Some d \<Longrightarrow> getter r i = Ok d"
    and stored: "repr ld ChunkSize b rs k root dat" "length root = rs" "length dat < 2 ^ 63"
    and j: "joins ld root j dat"
    and fuel: "k < fuel" and order: "\<And>evs. mset (order evs) = mset evs" and buf: "length buf < 2 ^ 63" and off: "off < length dat"
  shows "ReadAt fuel order getter j buf (int off) =
    Some (Ok (min (length buf) (length dat - off), copy_at 0 (take (length buf) (drop off dat)) buf))"
proof -
  let ?n = "min (length buf) (length dat - off)"
  obtain ch where ch: "ld root = Some ch" "rootData j = drop 8 ch" "jspan j = int (length dat)" "refLength j = rs"
    using j stored(2) by (auto simp: joins_def)
  let ?evs = "readAtOffset fuel getter j (length buf) (drop 8 ch) 0 0 (int 0) (int (length dat)) (int off) (int 0) (int ?n)"
  have t: "tiles ?evs 0 (take ?n (drop (off - 0) dat))"
    by (rule readAtOffset_ok [OF conf get ch(4) buf stored(1) fuel ch(1)]) (use stored(3) off in auto)
  have "wrap64 (int (length dat) - int off) = int (length dat - off)"
    using wrap64_diff [of "length dat" off] stored(3) off by (simp add: of_nat_diff)
  then have "(if int (length buf) > wrap64 (int (length dat) - int off) then wrap64 (int (length dat) - int off) else int (length buf)) = int ?n"
    by (simp add: min_def)
  then have "ReadAt fuel order getter j buf (int off) = read_result (order ?evs) buf"
    using off ch by (simp add: ReadAt_def Let_def)
  also have "\<dots> = Some (Ok (length (take ?n (drop (off - 0) dat)), copy_at 0 (take ?n (drop (off - 0) dat)) buf))"
    by (rule tiles_any_order [OF t order])
  also have "take ?n (drop (off - 0) dat) = take (length buf) (drop off dat)" by (simp add: min_def)
  finally show ?thesis by simp
qed


section \<open>A sequence of reads\<close>

text \<open>
  What a client gets that reads into one buffer after the other and goes on at \<open>io.EOF\<close>, as
  \<open>io.Copy\<close> does up to there.
\<close>

fun Reads ::
  "nat \<Rightarrow> (read_event list \<Rightarrow> read_event list) \<Rightarrow> (bytes \<Rightarrow> int \<Rightarrow> bytes outcome) \<Rightarrow> joiner \<Rightarrow> bytes list \<Rightarrow>
   (bytes outcome \<times> joiner) option" where
  "Reads fuel order getter j [] = Some (Ok [], j)"
| "Reads fuel order getter j (b # bs) =
     Option.bind (joiner_Read fuel order getter j b) (\<lambda>(r, j1).
       case r of
         Panic \<Rightarrow> Some (Panic, j1)
       | Fail e \<Rightarrow> if e = EOF then Reads fuel order getter j1 bs else Some (Fail e, j1)
       | Ok (n, b1) \<Rightarrow>
           map_option (\<lambda>(r2, j2). (andthen r2 (\<lambda>rest. Ok (take n b1 @ rest)), j2)) (Reads fuel order getter j1 bs))"

lemma Reads_ok:
  assumes conf: "0 < rs" "2 \<le> b" "ChunkSize = rs * b" and get: "\<And>r d i. ld r = Some d \<Longrightarrow> getter r i = Ok d"
    and stored: "repr ld ChunkSize b rs k root dat" "length root = rs" "length dat < 2 ^ 63"
    and fuel: "k < fuel" and order: "\<And>evs. mset (order evs) = mset evs"
  shows "joins ld root j dat \<Longrightarrow> joff j = int p \<Longrightarrow> p \<le> length dat \<Longrightarrow> list_all (\<lambda>buf. length buf < 2 ^ 63) bufs \<Longrightarrow>
    \<exists>j'. Reads fuel order getter j bufs = Some (Ok (take (length (concat bufs)) (drop p dat)), j')"
proof (induction bufs arbitrary: j p)
  case Nil
  then show ?case by simp
next
  case (Cons buf bufs)
  show ?case
  proof (cases "p < length dat")
    case True
    let ?n = "min (length buf) (length dat - p)"
    have small: "length buf < 2 ^ 63" using Cons(5) by simp
    have "ReadAt fuel order getter j buf (int p) = Some (Ok (?n, copy_at 0 (take (length buf) (drop p dat)) buf))"
      by (rule ReadAt_ok [OF conf get stored Cons(2) fuel order small True])
    moreover have "wrap64 (int p + int ?n) = int (p + ?n)" using wrap64_nat [of "p + ?n"] Cons(4) stored(3) by simp
    ultimately have rd: "joiner_Read fuel order getter j buf =
        Some (Ok (?n, copy_at 0 (take (length buf) (drop p dat)) buf), j\<lparr>joff := int (p + ?n)\<rparr>)"
      using Cons(3) by (simp add: joiner_Read_def)
    have "joins ld root (j\<lparr>joff := int (p + ?n)\<rparr>) dat" "p + ?n \<le> length dat" "list_all (\<lambda>buf. length buf < 2 ^ 63) bufs"
      using Cons(2,4,5) by (simp_all add: joins_def)
    then obtain j' where "Reads fuel order getter (j\<lparr>joff := int (p + ?n)\<rparr>) bufs =
        Some (Ok (take (length (concat bufs)) (drop (p + ?n) dat)), j')"
      using Cons(1) [of "j\<lparr>joff := int (p + ?n)\<rparr>" "p + ?n"] by auto
    moreover have "take ?n (copy_at 0 (take (length buf) (drop p dat)) buf) = take (length buf) (drop p dat)"
      by (simp add: copy_at_def min_def)
    moreover have "take (length (concat (buf # bufs))) (drop p dat) =
        take (length buf) (drop p dat) @ take (length (concat bufs)) (drop (p + ?n) dat)"
    proof -
      have "drop (p + ?n) dat = drop (length buf) (drop p dat)" by (simp add: min_def add.commute)
      then show ?thesis by (simp only: list.map concat.simps length_append take_add)
    qed
    ultimately show ?thesis using rd by simp
  next
    case False
    then have p: "p = length dat" using Cons(4) by simp
    then have "joiner_Read fuel order getter j buf = Some (Fail EOF, j)"
      using Cons(2,3) by (simp add: joiner_Read_def ReadAt_def joins_def)
    then show ?thesis using Cons(1) [OF Cons(2,3,4)] Cons(5) p by simp
  qed
qed

section \<open>Malformed tries\<close>

lemma branch_loop_never:
  assumes "1 \<le> m" "m * 2 ^ 57 < n" "n < 2 ^ 63" "bs \<in> {2 ^ 18, 2 ^ 31, 2 ^ 44, 2 ^ 57, 0}"
  shows "branch_loop m 8192 n bs = None"
proof (rule ccontr)
  have never: "branch_loop m' br n' bs = Some y \<Longrightarrow> m' = m \<Longrightarrow> br = 8192 \<Longrightarrow> n' = n \<Longrightarrow> bs \<in> {2 ^ 18, 2 ^ 31, 2 ^ 44, 2 ^ 57, 0} \<Longrightarrow> False"
    for m' br n' y bs
  proof (induction rule: branch_loop.raw_induct [rotated, consumes 1])
    case (1 f m' br n' bs y)
    have bs: "0 \<le> bs" "bs \<le> 2 ^ 57" using 1(6) by auto
    have q: "bs * 1 \<le> bs * m" "bs * m \<le> 2 ^ 57 * m" "bs * (m - 1) = bs * m - bs"
      using bs assms(1) mult_left_mono [of 1 m bs] by (auto intro: mult_right_mono simp: right_diff_distrib)
    then have r: "0 \<le> bs * (m - 1)" "bs * (m - 1) < n" "bs < n - bs * (m - 1)" using assms(2) bs by simp_all
    have "wrap64 (bs * (m - 1)) = bs * (m - 1)" "wrap64 (n - bs * (m - 1)) = n - bs * (m - 1)"
      using r assms(3) by (simp_all add: wrap64_id in_int64_def)
    moreover have "wrap64 (bs * 8192) \<in> {2 ^ 18, 2 ^ 31, 2 ^ 44, 2 ^ 57, 0}" using 1(6) by (auto simp: wrap64_def)
    ultimately show False using 1(1) [of m 8192 n "wrap64 (bs * 8192)"] 1(2-5) r(3) by simp
  qed
  assume "branch_loop m 8192 n bs \<noteq> None"
  then obtain y where "branch_loop m 8192 n bs = Some y" by blast
  then show False using assms(4) by (rule never [OF _ refl refl refl])
qed


text \<open>
  A node whose span is more than \<open>2 ^ 57\<close> for each of its references: the branch size is
  multiplied until it wraps around to 0, and the loop does not end.
\<close>

lemma subtrieSection_never:
  assumes "1 \<le> length data div 32" "int (length data div 32) * 2 ^ 57 < n" "n < 2 ^ 63"
  shows "subtrieSection data i 32 n = None"
  using branch_loop_never [OF _ assms(2,3), of "int ChunkSize"] assms(1)
  by (simp add: subtrieSection_def ChunkSize_def)

text \<open>A child that is shorter than its section: a read behind its end slices out of range.\<close>

lemma read_leaf_short:
  assumes "cur + length dat < off" "off < 2 ^ 62" "0 \<le> rd" "rd < 2 ^ 62"
  shows "read_leaf cap dat (int cur) (int off) bo rd = Crashed"
proof -
  have "off - cur < 2 ^ 63" "length dat < 2 ^ 63" "off < 2 ^ 63" "cur < 2 ^ 63" "cur \<le> off" using assms by auto
  then have w: "wrap64 (int off - int cur) = int (off - cur)" "wrap64 (int (length dat) - int (off - cur)) = int (length dat) - int (off - cur)"
    using wrap64_diff [of off cur] wrap64_diff [of "length dat" "off - cur"] assms by (simp_all only: of_nat_diff)
  have "int (off - cur) + (int (length dat) - int (off - cur)) = int (length dat)" by simp
  then show ?thesis using assms unfolding read_leaf_def w Let_def by (auto simp: wrap64_nat)
qed


lemma span_above: "L < 32 * q + 32 \<Longrightarrow> int q * 2 ^ 57 < n \<Longrightarrow> 1 \<le> q \<Longrightarrow> int L < n"
  by simp

text \<open>
  C39. \<open>ReadAt\<close> does not return on a root chunk that claims more than \<open>2 ^ 57\<close> bytes for each of its
  references: the int64 branch size of \<open>subtrieSection\<close> wraps around to 0, and its loop goes on for ever.
\<close>

theorem ReadAt_hangs_on_large_span:
  assumes "refLength j = 32" "32 \<le> length (rootData j)"
    and "int (length (rootData j) div 32) * 2 ^ 57 < jspan j" "jspan j < 2 ^ 63"
    and "0 \<le> off" "off < jspan j" "buf \<noteq> []" "\<And>evs. mset (order evs) = mset evs"
  shows "ReadAt fuel order getter j buf off = None"
proof -
  have "1 \<le> length (rootData j) div 32" using assms(2) by (simp add: less_eq_div_iff_mult_less_eq)
  then have "subtrieSection (rootData j) 0 32 (jspan j) = None" using assms(3,4) by (rule subtrieSection_never)
  moreover have "int (length (rootData j)) < jspan j"
  proof -
    have "length (rootData j) < 32 * (length (rootData j) div 32) + 32" by presburger
    then show ?thesis using assms(3) \<open>1 \<le> length (rootData j) div 32\<close> by (rule span_above)
  qed
  ultimately have hung: "readAtOffset fuel getter j cap (rootData j) 0 0 0 (jspan j) off 0 n = [Hung]" if "n \<noteq> 0" for cap n
    using that assms(1,2) by (cases fuel) (auto simp: read_loop.simps)
  have "order [Hung] = [Hung]" using assms(8) [of "[Hung]"] by simp
  moreover have "wrap64 (jspan j - off) \<noteq> 0" using assms(4-6) wrap64_id [of "jspan j - off"] by (simp add: in_int64_def)
  ultimately show ?thesis using assms(6,7) hung by (simp add: ReadAt_def Let_def read_result_def)
qed

lemma ReadAt_hangs_on_large_span_witness:
  "ReadAt 5 id (\<lambda>r i. Fail ErrNotFound)
     \<lparr>jaddr = [], rootData = replicate 32 0, jspan = 2 ^ 62, joff = 0, jindex = 0, refLength = 32\<rparr> [0] 0 = None"
  by (rule ReadAt_hangs_on_large_span) simp_all

text \<open>
  C40. A child chunk that holds less than its section, which the check of the spans lets pass,
  makes a read behind its end slice out of range: the goroutine panics, whatever the others do.
\<close>

theorem ReadAt_panics_on_short_child:
  assumes "refLength j = 32" "length (rootData j) = m * 32" "2 \<le> m"
    and "(m - 1) * trie_size ChunkSize 8192 k < n" "n \<le> m * trie_size ChunkSize 8192 k" "jspan j = int n" "n < 2 ^ 62"
    and "\<And>i. getter (take 32 (rootData j)) i = Ok (chunk_of dat)"
    and "length dat < off" "off < trie_size ChunkSize 8192 k"
    and "buf \<noteq> []" "length buf < 2 ^ 62" "\<And>evs. mset (order evs) = mset evs"
  shows "ReadAt (Suc (Suc fuel)) order getter j buf (int off) = Some Panic"
proof -
  let ?S = "trie_size ChunkSize 8192 k"
  have "1 * ?S \<le> (m - 1) * ?S" using assms(3) by (intro mult_le_mono1) simp
  then have S: "?S < n" using assms(4) by linarith
  have sec: "subtrieSection (rootData j) 0 32 (int n) = Some (int ?S)"
    using subtrieSection_ok [OF _ _ _ assms(2,3,4,5), of 0] assms(3,7) by (simp add: ChunkSize_def)
  have "32 * 8192 \<le> ?S" by (simp add: trie_size_def ChunkSize_def)
  then have "(m - 1) * (32 * 8192) \<le> (m - 1) * ?S" by (rule mult_le_mono2)
  moreover have "m * 32 \<le> (m - 1) * (32 * 8192)" using assms(3) by arith
  ultimately have "\<not> n \<le> length (rootData j)" using assms(2,4) by linarith
  then have node: "\<not> int n \<le> int (length (rootData j))" unfolding of_nat_le_iff .
  have rest: "wrap64 (int ?S - wrap64 (int off - 0)) = int (?S - off)"
    using wrap64_nat [of off] wrap64_diff [of ?S off] S assms(7,10) by simp
  have w: "wrap64 (int (length dat)) = int (length dat)" using wrap64_nat [of "length dat"] S assms(7,9,10) by simp
  have short: "read_leaf cap dat 0 (int off) 0 rd = Crashed" if "0 \<le> rd" "rd < 2 ^ 62" for cap rd
    using read_leaf_short [of 0 dat off rd] that S assms(7,9,10) by simp
  have crash: "Crashed \<in> set (readAtOffset (Suc (Suc fuel)) getter j cap (rootData j) 0 0 0 (int n) (int off) 0 btr)"
    if "0 < btr" "btr < 2 ^ 62" for cap btr
    using that assms(1-3,8-10) node sec rest w short [of "min (min (int (?S - off)) btr) (int ?S)" cap] S assms(7)
    by (subst readAtOffset.simps(2), subst read_loop.simps)
      (simp add: Let_def wrap64_nat chunk_of_def Uint64_PutUint64 del: readAtOffset.simps(2), simp)
  have "wrap64 (int n - int off) = int n - int off" using wrap64_diff [of n off] S assms(7,10) by simp
  moreover have "set (order evs) = set evs" for evs using assms(13) by (rule mset_eq_setD)
  ultimately show ?thesis using crash S assms(6,7,10-12)
    by (auto simp: ReadAt_def Let_def read_result_def simp del: readAtOffset.simps)
qed


lemma ReadAt_panics_on_short_child_witness:
  "ReadAt (Suc (Suc 0)) rev (\<lambda>r i. Ok (chunk_of [1, 2]))
     \<lparr>jaddr = [], rootData = replicate 64 0, jspan = 262154, joff = 0, jindex = 0, refLength = 32\<rparr> [0] (int 5) = Some Panic"
  by (rule ReadAt_panics_on_short_child [where m = 2 and k = 0 and n = 262154 and dat = "[1, 2]"])
    (simp_all add: trie_size_def ChunkSize_def)

end
