(* ===== verification/ChunkWalk.thy ===== *)
theory ChunkWalk
  imports Joiner
begin

text \<open>
  The walk of the joiner over the chunks of a file (\<^verbatim>\<open>src/pkg/file/joiner/joiner.go\<close>,
  \<open>IterateChunkAddresses\<close> and \<open>processChunkAddresses\<close>), which pinning and the chunk bit vectors
  are built on. The loop waits for each goroutine before it goes on, so the walk is sequential;
  an error of a goroutine is kept, and the context of the later ones is canceled.
\<close>

section \<open>Model\<close>

record 'c walk =
  allowSaveData :: bool
  dataChunks :: "bytes list"
  allowSaveEdge :: bool
  edgeChunks :: "bytes \<rightharpoonup> bytes"
  fnState :: 'c

definition save_data :: "bytes \<Rightarrow> 'c walk \<Rightarrow> 'c walk" where
  "save_data a w = (if allowSaveData w then w\<lparr>dataChunks := dataChunks w @ [a]\<rparr> else w)"

text \<open>\<open>descend\<close> is the goroutine for a reference; its flag tells whether the context is canceled.\<close>

function walk_loop ::
    "(bytes \<Rightarrow> 'c \<Rightarrow> ferror option \<times> 'c) \<Rightarrow> (bytes \<Rightarrow> nat \<Rightarrow> bool \<Rightarrow> 'c walk \<Rightarrow> (unit outcome \<times> 'c walk) option) \<Rightarrow>
     nat \<Rightarrow> bytes \<Rightarrow> int \<Rightarrow> nat \<Rightarrow> ferror option \<Rightarrow> 'c walk \<Rightarrow> (unit outcome \<times> 'c walk) option" where
  "walk_loop fn descend refLen data subTrieSize cursor err w =
     (if length data \<le> cursor then Some (case err of None \<Rightarrow> Ok () | Some e \<Rightarrow> Fail e, w)
      else if refLen = 0 \<or> length data < cursor + refLen then Some (Panic, w)
      else
        (let address = take refLen (drop cursor data) in
         case fn address (fnState w) of
           (Some e, c) \<Rightarrow> Some (Fail e, w\<lparr>fnState := c\<rparr>)
         | (None, c) \<Rightarrow>
             (case subtrieSection data cursor refLen subTrieSize of
                None \<Rightarrow> None
              | Some sec \<Rightarrow>
                  if sec \<le> int ChunkSize
                  then walk_loop fn descend refLen data subTrieSize (cursor + refLen) err (save_data address (w\<lparr>fnState := c\<rparr>))
                  else case descend address cursor (err \<noteq> None) (w\<lparr>fnState := c\<rparr>) of
                    None \<Rightarrow> None
                  | Some (Panic, w1) \<Rightarrow> Some (Panic, w1)
                  | Some (Fail e, w1) \<Rightarrow>
                      walk_loop fn descend refLen data subTrieSize (cursor + refLen) (case err of None \<Rightarrow> Some e | Some _ \<Rightarrow> err) w1
                  | Some (Ok _, w1) \<Rightarrow> walk_loop fn descend refLen data subTrieSize (cursor + refLen) err w1)))"
  by auto
termination
  by (relation "measure (\<lambda>(_, _, refLen, data, _, cursor, _). length data - cursor)") auto

declare walk_loop.simps [simp del]

fun processChunkAddresses ::
    "nat \<Rightarrow> (bytes \<Rightarrow> int \<Rightarrow> bytes outcome) \<Rightarrow> joiner \<Rightarrow> (bytes \<Rightarrow> 'c \<Rightarrow> ferror option \<times> 'c) \<Rightarrow> bool \<Rightarrow> bytes \<Rightarrow>
     int \<Rightarrow> int \<Rightarrow> int \<Rightarrow> 'c walk \<Rightarrow> (unit outcome \<times> 'c walk) option" where
  "processChunkAddresses 0 getter j fn canceled data index lastIndex subTrieSize w = None"
| "processChunkAddresses (Suc fuel) getter j fn canceled data index lastIndex subTrieSize w =
     (if subTrieSize \<le> int (length data) then Some (Ok (), save_data (jaddr j) w)
      else if canceled then Some (Fail ErrCanceled, w)
      else walk_loop fn
        (\<lambda>address cursor canceled w.
           let index' = wrap64 (lastIndex + 1 + index * Branches + int (cursor div refLength j));
               lastIndex' = (if index' = 2 then 0 else int (length data div refLength j))
           in case getter address index' of
                Panic \<Rightarrow> Some (Panic, w)
              | Fail e \<Rightarrow> Some (Fail e, w)
              | Ok ch \<Rightarrow>
                  if length ch < 8 then Some (Panic, w)
                  else
                    (let subtrieSpan = wrap64 (int (Uint64 ch));
                         w1 = (if allowSaveEdge w \<and> subtrieSpan > int (length (drop 8 ch))
                               then w\<lparr>edgeChunks := (edgeChunks w)(address \<mapsto> ch)\<rparr> else w)
                     in processChunkAddresses fuel getter j fn canceled (drop 8 ch) index' lastIndex' subtrieSpan w1))
        (refLength j) data subTrieSize 0 None w)"

definition IterateChunkAddresses ::
  "nat \<Rightarrow> (bytes \<Rightarrow> int \<Rightarrow> bytes outcome) \<Rightarrow> joiner \<Rightarrow> (bytes \<Rightarrow> 'c \<Rightarrow> ferror option \<times> 'c) \<Rightarrow> 'c walk \<Rightarrow>
   (unit outcome \<times> 'c walk) option" where
  "IterateChunkAddresses fuel getter j fn w =
     (case fn (jaddr j) (fnState w) of
        (Some e, c) \<Rightarrow> Some (Fail e, w\<lparr>fnState := c\<rparr>)
      | (None, c) \<Rightarrow>
          processChunkAddresses fuel getter j fn False (rootData j) 0 0 (jspan j) (w\<lparr>fnState := c\<rparr>))"

section \<open>The reported chunks are all that a read needs\<close>

text \<open>The callback that records what it is given.\<close>

definition record_address :: "bytes \<Rightarrow> bytes list \<Rightarrow> ferror option \<times> bytes list" where
  "record_address a l = (None, l @ [a])"

lemma repr_restrict_mono:
  "repr (ld |` A) cs b rs k r dat \<Longrightarrow> A \<subseteq> B \<Longrightarrow> repr (ld |` B) cs b rs k r dat"
  by (erule repr_grow) (auto simp: restrict_map_def split: if_splits)


lemma repr_height:
  assumes "0 < rs" "2 \<le> b" "ChunkSize = rs * b" "repr ld ChunkSize b rs k r dat" "length dat \<le> ChunkSize"
  shows "k = 0"
  using assms(4,5)
proof (induction rule: repr_induct)
  case (node r refs es k)
  let ?S = "trie_size ChunkSize b k" and ?m = "length es"
  have m: "2 \<le> ?m" "0 < length (snd (es ! (?m - 1)))" using node(1) by (auto simp: trie_node_def)
  have "1 * ?S \<le> (?m - 1) * ?S" using m(1) by (intro mult_le_mono1) simp
  moreover have "ChunkSize \<le> ?S" using assms(2) by (simp add: trie_size_def)
  ultimately show ?case using trie_node_size [OF node(1)] m(2) node(4) by linarith
qed simp

text \<open>A node whose children are all found among the chunks \<open>A\<close> is itself.\<close>

lemma repr_node_restrict:
  assumes node: "trie_node b rs k es refs" and r: "ld r = Some (PutUint64 (length (concat (map snd es))) @ refs)" "r \<in> A"
    and ch: "\<And>i. i < length es \<Longrightarrow> \<exists>k'\<le>k. (i < length es - 1 \<longrightarrow> k' = k) \<and>
      repr (ld |` A) ChunkSize b rs k' (fst (es ! i)) (snd (es ! i))"
  shows "repr (ld |` A) ChunkSize b rs (Suc k) r (concat (map snd es))"
proof -
  have m: "2 \<le> length es" "length es \<le> b" using node by (auto simp: trie_node_def)
  then obtain xs x d where es: "es = xs @ [(x, d)]" by (cases es rule: rev_cases) auto
  obtain k' where k': "k' \<le> k" "repr (ld |` A) ChunkSize b rs k' x d" using ch [of "length xs"] es by auto
  have xs: "repr (ld |` A) ChunkSize b rs k y e \<and> length e = trie_size ChunkSize b k \<and> length y = rs" if y: "(y, e) \<in> set xs" for y e
  proof -
    obtain i where "i < length xs" "xs ! i = (y, e)" using y by (auto simp: in_set_conv_nth)
    then show ?thesis using ch [of i] node es y by (fastforce simp: trie_node_def nth_append)
  qed
  show ?thesis
    by (rule repr.repr_node [OF _ _ _ _ _ k'(2,1), where es = xs])
      (use r node es m xs in \<open>auto simp: trie_node_def restrict_map_def nth_append\<close>)
qed

lemma walk_loop_ok:
  assumes conf: "0 < rs" "2 \<le> b" "ChunkSize = rs * b" and node: "trie_node b rs k es data"
    and n: "n = length (concat (map snd es))" "n < 2 ^ 63"
    and mono: "\<And>i A B. Q i A \<Longrightarrow> A \<subseteq> B \<Longrightarrow> Q i B"
    and leaf: "\<And>i. i < length es \<Longrightarrow> length (snd (es ! i)) \<le> ChunkSize \<Longrightarrow> Q i {fst (es ! i)}"
    and desc: "\<And>i w. i < length es \<Longrightarrow> \<not> length (snd (es ! i)) \<le> ChunkSize \<Longrightarrow>
      \<exists>w' l. descend (fst (es ! i)) (i * rs) False w = Some (Ok (), w') \<and> fnState w' = fnState w @ l \<and>
        Q i (insert (fst (es ! i)) (set l))"
  shows "i \<le> length es \<Longrightarrow>
    \<exists>w' l. walk_loop record_address descend rs data (int n) (i * rs) None w = Some (Ok (), w') \<and> fnState w' = fnState w @ l \<and>
      (\<forall>i'. i \<le> i' \<longrightarrow> i' < length es \<longrightarrow> Q i' (set l))"
proof (induction "length es - i" arbitrary: i w)
  case 0
  then show ?case using trie_node_length [OF node] by (simp add: walk_loop.simps)
next
  case (Suc d)
  have i: "i < length es" "d = length es - Suc i" "Suc i \<le> length es" using Suc(2) by simp_all
  let ?a = "fst (es ! i)" and ?w = "w\<lparr>fnState := fnState w @ [fst (es ! i)]\<rparr>"
  note c = trie_node_cursor [OF conf node n i(1)]
  have "\<exists>w1 l1. walk_loop record_address descend rs data (int n) (i * rs) None w =
      walk_loop record_address descend rs data (int n) (Suc i * rs) None w1 \<and> fnState w1 = fnState w @ l1 \<and> Q i (set l1)"
  proof (cases "length (snd (es ! i)) \<le> ChunkSize")
    case True
    then show ?thesis using c conf(1) leaf [OF i(1) True]
      by (intro exI [of _ "save_data ?a ?w"] exI [of _ "[?a]"], subst walk_loop.simps)
        (simp add: record_address_def save_data_def add.commute Let_def)
  next
    case False
    obtain w' l where "descend ?a (i * rs) False ?w = Some (Ok (), w')" "fnState w' = fnState ?w @ l" "Q i (insert ?a (set l))"
      using desc [OF i(1) False, of ?w] by blast
    then show ?thesis using c conf(1) False
      by (intro exI [of _ w'] exI [of _ "?a # l"], subst walk_loop.simps) (simp add: record_address_def add.commute Let_def)
  qed
  then obtain w1 l1 where w1: "walk_loop record_address descend rs data (int n) (i * rs) None w =
      walk_loop record_address descend rs data (int n) (Suc i * rs) None w1" "fnState w1 = fnState w @ l1" "Q i (set l1)"
    by blast
  obtain w' l where w': "walk_loop record_address descend rs data (int n) (Suc i * rs) None w1 = Some (Ok (), w')"
      "fnState w' = fnState w1 @ l" "\<And>i'. Suc i \<le> i' \<Longrightarrow> i' < length es \<Longrightarrow> Q i' (set l)"
    using Suc(1) [OF i(2,3)] by blast
  have "Q i' (set (l1 @ l))" if "i \<le> i'" "i' < length es" for i'
    using w1(3) w'(3) [of i'] that by (cases "i' = i") (auto intro: mono)
  then show ?case using w1 w' by (intro exI [of _ w'] exI [of _ "l1 @ l"]) simp
qed

definition found :: "(bytes \<rightharpoonup> bytes) \<Rightarrow> nat \<Rightarrow> nat \<Rightarrow> nat \<Rightarrow> (bytes \<times> bytes) list \<Rightarrow> nat \<Rightarrow> bytes set \<Rightarrow> bool" where
  "found ld b rs k es i A \<longleftrightarrow>
     (\<exists>k'\<le>k. (i < length es - 1 \<longrightarrow> k' = k) \<and> repr (ld |` A) ChunkSize b rs k' (fst (es ! i)) (snd (es ! i)))"

lemma found_mono: "found ld b rs k es i A \<Longrightarrow> A \<subseteq> B \<Longrightarrow> found ld b rs k es i B"
  unfolding found_def by (blast intro: repr_restrict_mono)

text \<open>The goroutine for a child, given the walk of the child.\<close>

lemma walk_child:
  assumes "repr ld ChunkSize b rs k r dat" "length dat < 2 ^ 63" "\<And>r d i. ld r = Some d \<Longrightarrow> getter r i = Ok d"
    and ih: "\<And>ch w. ld r = Some ch \<Longrightarrow>
      \<exists>w' l. processChunkAddresses f getter j record_address False (drop 8 ch) x li (int (length dat)) w = Some (Ok (), w') \<and>
        fnState w' = fnState w @ l \<and> repr (ld |` insert r (set l)) ChunkSize b rs k r dat"
  shows "\<exists>w' l. (case getter r x of
       Panic \<Rightarrow> Some (Panic, w)
     | Fail e \<Rightarrow> Some (Fail e, w)
     | Ok ch \<Rightarrow>
         if length ch < 8 then Some (Panic, w)
         else
           (let subtrieSpan = wrap64 (int (Uint64 ch));
                w1 = (if allowSaveEdge w \<and> subtrieSpan > int (length (drop 8 ch))
                      then w\<lparr>edgeChunks := (edgeChunks w)(r \<mapsto> ch)\<rparr> else w)
            in processChunkAddresses f getter j record_address False (drop 8 ch) x li subtrieSpan w1)) = Some (Ok (), w') \<and>
     fnState w' = fnState w @ l \<and> repr (ld |` insert r (set l)) ChunkSize b rs k r dat"
proof -
  obtain c where c: "ld r = Some c" "Uint64 c = length dat" "8 \<le> length c" using repr_chunk [OF assms(1,2)] .
  let ?w = "if allowSaveEdge w \<and> int (length dat) > int (length (drop 8 c)) then w\<lparr>edgeChunks := (edgeChunks w)(r \<mapsto> c)\<rparr> else w"
  have w: "fnState ?w = fnState w" by simp
  have "wrap64 (int (Uint64 c)) = int (length dat)" "\<not> length c < 8" using c assms(2) by (simp_all add: wrap64_nat)
  then show ?thesis using ih [OF c(1), of ?w] unfolding w by (simp only: Let_def assms(3) [OF c(1)] outcome.case if_False)
qed

lemma process_ok:
  assumes conf: "0 < rs" "2 \<le> b" "ChunkSize = rs * b" and get: "\<And>r d i. ld r = Some d \<Longrightarrow> getter r i = Ok d"
    and j: "refLength j = rs"
  shows "repr ld ChunkSize b rs k r dat \<Longrightarrow> k < fuel \<Longrightarrow> ld r = Some ch \<Longrightarrow> length dat < 2 ^ 63 \<Longrightarrow>
    \<exists>w' l. processChunkAddresses fuel getter j record_address False (drop 8 ch) index lastIndex (int (length dat)) w =
        Some (Ok (), w') \<and> fnState w' = fnState w @ l \<and> repr (ld |` insert r (set l)) ChunkSize b rs k r dat"
proof (induction arbitrary: fuel ch index lastIndex w rule: repr_induct)
  case (leaf r dat)
  then obtain f where "fuel = Suc f" by (cases fuel) auto
  moreover have "drop 8 ch = dat" using leaf by (auto simp: chunk_of_def)
  moreover have "repr (ld |` {r}) ChunkSize b rs 0 r dat" using leaf by (intro repr.repr_leaf) auto
  ultimately show ?case by (intro exI [of _ "save_data (jaddr j) w"] exI [of _ "[]"]) (simp add: save_data_def)
next
  case (node r refs es k)
  obtain f where f: "fuel = Suc f" "k < f" using node by (cases fuel) auto
  have ch: "drop 8 ch = refs" using node(2,5) by auto
  define desc where "desc = (\<lambda>address cursor canceled w.
           let index' = wrap64 (lastIndex + 1 + index * Branches + int (cursor div refLength j));
               lastIndex' = (if index' = 2 then 0 else int (length refs div refLength j))
           in case getter address index' of
                Panic \<Rightarrow> Some (Panic, w)
              | Fail e \<Rightarrow> Some (Fail e, w)
              | Ok ch \<Rightarrow>
                  if length ch < 8 then Some (Panic, w)
                  else
                    (let subtrieSpan = wrap64 (int (Uint64 ch));
                         w1 = (if allowSaveEdge w \<and> subtrieSpan > int (length (drop 8 ch))
                               then w\<lparr>edgeChunks := (edgeChunks w)(address \<mapsto> ch)\<rparr> else w)
                     in processChunkAddresses f getter j record_address canceled (drop 8 ch) index' lastIndex' subtrieSpan w1))"
  have small: "length (snd (es ! i)) < 2 ^ 63" if "i < length es" for i
  proof -
    have "length (snd (es ! i)) \<le> length (concat (map snd es))"
      using that by (simp add: length_concat member_le_sum_list)
    then show ?thesis using node(6) by linarith
  qed
  have leaf: "found ld b rs k es i {fst (es ! i)}" if i: "i < length es" "length (snd (es ! i)) \<le> ChunkSize" for i
  proof -
    obtain k' where k': "k' \<le> k" "i < length es - 1 \<longrightarrow> k' = k" "repr ld ChunkSize b rs k' (fst (es ! i)) (snd (es ! i))"
      using node(3) [OF i(1)] by blast
    have "k' = 0" by (rule repr_height [OF conf k'(3) i(2)])
    then have "repr (ld |` {fst (es ! i)}) ChunkSize b rs k' (fst (es ! i)) (snd (es ! i))"
      using k'(3) by (auto elim!: repr_leafE intro!: repr.repr_leaf)
    then show ?thesis using k' unfolding found_def by blast
  qed
  have child: "\<exists>w' l. desc (fst (es ! i)) (i * rs) False w = Some (Ok (), w') \<and> fnState w' = fnState w @ l \<and>
        found ld b rs k es i (insert (fst (es ! i)) (set l))" if i: "i < length es" for i w
  proof -
    obtain k' where k': "k' \<le> k" "i < length es - 1 \<longrightarrow> k' = k" "repr ld ChunkSize b rs k' (fst (es ! i)) (snd (es ! i))"
      and hyp: "\<And>fuel ch ix li w. k' < fuel \<Longrightarrow> ld (fst (es ! i)) = Some ch \<Longrightarrow> length (snd (es ! i)) < 2 ^ 63 \<Longrightarrow>
        \<exists>w' l. processChunkAddresses fuel getter j record_address False (drop 8 ch) ix li (int (length (snd (es ! i)))) w =
        Some (Ok (), w') \<and> fnState w' = fnState w @ l \<and> repr (ld |` insert (fst (es ! i)) (set l)) ChunkSize b rs k' (fst (es ! i)) (snd (es ! i))"
      using node(3) [OF i] by blast
    have kf: "k' < f" using k'(1) f(2) by simp
    let ?x = "wrap64 (lastIndex + 1 + index * Branches + int (i * rs div refLength j))"
    obtain w' l where "desc (fst (es ! i)) (i * rs) False w = Some (Ok (), w')" "fnState w' = fnState w @ l"
        "repr (ld |` insert (fst (es ! i)) (set l)) ChunkSize b rs k' (fst (es ! i)) (snd (es ! i))"
      using walk_child [OF k'(3) small [OF i] get hyp [OF kf _ small [OF i]], where x = ?x and w = w
        and li = "if ?x = 2 then 0 else int (length refs div refLength j)"]
      unfolding desc_def Let_def by blast
    then show ?thesis using k'(1,2) unfolding found_def by blast
  qed
  have "\<exists>w' l. walk_loop record_address desc rs refs (int (length (concat (map snd es)))) (0 * rs) None w = Some (Ok (), w') \<and>
      fnState w' = fnState w @ l \<and> (\<forall>i. 0 \<le> i \<longrightarrow> i < length es \<longrightarrow> found ld b rs k es i (set l))"
    by (rule walk_loop_ok [OF conf node(1) refl node(6)]) (rule found_mono leaf child le0; assumption)+
  then obtain w' l where w': "walk_loop record_address desc rs refs (int (length (concat (map snd es)))) (0 * rs) None w = Some (Ok (), w')"
      "fnState w' = fnState w @ l" "\<And>i. i < length es \<Longrightarrow> found ld b rs k es i (set l)"
    by blast
  have "repr (ld |` insert r (set l)) ChunkSize b rs (Suc k) r (concat (map snd es))"
    by (rule repr_node_restrict [where ld = ld and r = r, OF node(1,2)])
      (simp, rule found_mono [OF w'(3) subset_insertI, unfolded found_def])
  then show ?case using w'(1,2) trie_node_big [OF conf node(1)] f(1) j ch by (auto simp: desc_def)
qed

text \<open>
  \<open>IterateChunkAddresses\<close> on a stored file ends without an error, and reports every chunk that
  reading the file needs: a store that holds only the reported chunks gives back the data.
\<close>

lemma Iterate_complete:
  assumes "0 < rs" "2 \<le> b" "ChunkSize = rs * b" "repr ld ChunkSize b rs k root dat" "length root = rs" "length dat < 2 ^ 63"
    and "\<And>r d i. ld r = Some d \<Longrightarrow> getter r i = Ok d" "joiner_New getter root 0 = Ok j"
    and "k < fuel" "fnState w = []" "rs = HashSize"
  shows "\<exists>w'. IterateChunkAddresses fuel getter j record_address w = Some (Ok (), w') \<and>
    repr (ld |` set (fnState w')) ChunkSize b rs k root dat"
proof -
  obtain ch where ch: "ld root = Some ch" "j = \<lparr>jaddr = root, rootData = drop 8 ch, jspan = int (length dat), joff = 0,
       jindex = 0, refLength = length root\<rparr>"
    using New_ok [where ix = 0 and getter = getter, OF assms(4,6,7)] assms(5,8,11) by auto
  have "refLength j = rs" using ch(2) assms(5) by simp
  then obtain w' l where "processChunkAddresses fuel getter j record_address False (drop 8 ch) 0 0 (int (length dat))
        (w\<lparr>fnState := [root]\<rparr>) = Some (Ok (), w')" "fnState w' = [root] @ l" "repr (ld |` insert root (set l)) ChunkSize b rs k root dat"
    using process_ok [where getter = getter and j = j, OF assms(1-3,7) _ assms(4,9) ch(1) assms(6), where index = 0 and lastIndex = 0
      and w = "w\<lparr>fnState := [root]\<rparr>"] by auto
  then show ?thesis using ch(2) assms(10) by (simp add: IterateChunkAddresses_def record_address_def)
qed

end
