(* ===== verification/FilePipeline.thy ===== *)
theory FilePipeline
  imports LocalPut ChunkWalk
begin

text \<open>
  Files end to end: the pipeline of \<^verbatim>\<open>src/pkg/file/pipeline/builder/builder.go\<close> with its BMT writer
  (\<^verbatim>\<open>bmt/bmt.go\<close>) and its store writer (\<^verbatim>\<open>store/store.go\<close>), putting chunks to the local chunk store, and the
  joiner reading them back from it. A hasher of the BMT pool returns the hash of the span and of the BMT root
  of the data (theories \<open>BmtSchedule\<close> and \<open>BmtPool\<close>), which is what the writer uses here. The state of the
  pipeline is the chunk store together with the list of the chunk contents handed to it, which only serves to
  say that no two of them have the same address.
\<close>

section \<open>Model\<close>

text \<open>The hash function \<open>H\<close> is a parameter.\<close>

definition bmt_address :: "(bytes \<Rightarrow> bytes) \<Rightarrow> bytes \<Rightarrow> bytes" where
  "bmt_address H d = H (take SpanSize d @ bmt_root H (NewConf H 32 8192) (drop SpanSize d))"

type_synonym 'k store_log = "'k localdb \<times> bytes list"

definition store_ChainWrite :: "env \<Rightarrow> ModePut \<Rightarrow> address \<Rightarrow> bytes \<Rightarrow> bytes \<Rightarrow> 'k store_log \<Rightarrow> 'k store_log outcome" where
  "store_ChainWrite E mode root ref d s =
     (case db_put E mode root [NewChunk (NewAddress ref) d] (fst s) of
        (Ok _, db) \<Rightarrow> Ok (db, snd s @ [d])
      | (Fail e, _) \<Rightarrow> Fail e
      | (Panic, _) \<Rightarrow> Panic)"

definition bmt_ChainWrite ::
  "(bytes \<Rightarrow> bytes) \<Rightarrow> env \<Rightarrow> ModePut \<Rightarrow> address \<Rightarrow> bytes \<Rightarrow> 'k store_log \<Rightarrow> (bytes \<times> 'k store_log) outcome" where
  "bmt_ChainWrite H E mode root d s =
     (if length d < SpanSize then Fail ErrInvalidData
      else let ref = bmt_address H d in andthen (store_ChainWrite E mode root ref d s) (\<lambda>s1. Ok (ref, s1)))"

text \<open>What a call of the reader's \<open>Read\<close> returns; \<open>canceled i\<close> tells whether the context is done at its \<open>i\<close>-th check.\<close>

datatype reader_result = RData bytes | REof bytes | RErr

definition write_piece ::
  "(bytes \<Rightarrow> 's \<Rightarrow> 's outcome) \<Rightarrow> bytes \<Rightarrow> feeder \<Rightarrow> 's \<Rightarrow> (feeder \<times> 's) outcome option" where
  "write_piece nxt d f s =
     map_option (\<lambda>r. andthen r (\<lambda>(cc, f1, s1). if cc < int (length d) then Fail ErrShortWrite else Ok (f1, s1)))
       (feeder_Write nxt d f s)"

fun feed_reader ::
  "(nat \<Rightarrow> bool) \<Rightarrow> (bytes \<Rightarrow> 's \<Rightarrow> 's outcome) \<Rightarrow> nat \<Rightarrow> reader_result list \<Rightarrow> feeder \<Rightarrow> 's \<Rightarrow> (feeder \<times> 's) outcome option" where
  "feed_reader canceled nxt i [] f s = None"
| "feed_reader canceled nxt i (r # rs) f s =
     (case r of
        RErr \<Rightarrow> Some (Fail ErrReader)
      | REof d \<Rightarrow>
          map_option (\<lambda>x. andthen x (\<lambda>y. if canceled i then Fail ErrCanceled else Ok y))
            (if d = [] then Some (Ok (f, s)) else write_piece nxt d f s)
      | RData d \<Rightarrow>
          Option.bind (write_piece nxt d f s) (\<lambda>x. case x of
            Panic \<Rightarrow> Some Panic
          | Fail e \<Rightarrow> Some (Fail e)
          | Ok (f1, s1) \<Rightarrow> if canceled i then Some (Fail ErrCanceled) else feed_reader canceled nxt (Suc i) rs f1 s1))"

definition FeedPipeline ::
  "(nat \<Rightarrow> bool) \<Rightarrow> (bytes \<Rightarrow> 's \<Rightarrow> (bytes \<times> 's) outcome) \<Rightarrow> nat \<Rightarrow> nat \<Rightarrow> nat \<Rightarrow> reader_result list \<Rightarrow> 's \<Rightarrow> (bytes \<times> hashtrie \<times> 's) outcome option" where
  "FeedPipeline canceled save cs b rs reads s =
     map_option (\<lambda>r. andthen r (\<lambda>(f, h, s1). feeder_Sum (pipeline_next save) (\<lambda>(h, s). trie_Sum save h s) f (h, s1)))
       (feed_reader canceled (pipeline_next save) 0 reads (NewChunkFeederWriter cs) (NewHashTrieWriter cs b rs, s))"

definition upload ::
  "(nat \<Rightarrow> bool) \<Rightarrow> (bytes \<Rightarrow> bytes) \<Rightarrow> env \<Rightarrow> ModePut \<Rightarrow> address \<Rightarrow> reader_result list \<Rightarrow> 'k store_log \<Rightarrow>
   (bytes \<times> hashtrie \<times> 'k store_log) outcome option" where
  "upload canceled H E mode root reads s =
     FeedPipeline canceled (bmt_ChainWrite H E mode root) ChunkSize (nat Branches) HashSize reads s"

text \<open>The getter of the joiner: \<open>store.New\<close> passes a reference of the length of a hash to the chunk store.\<close>

definition store_getter :: "'k localdb \<Rightarrow> bytes \<Rightarrow> int \<Rightarrow> bytes outcome" where
  "store_getter db r ix = andthen (db_Get ModeGetRequest ZeroAddress (NewAddress r) ix db) (\<lambda>ch. Ok (sdata ch))"

section \<open>The chunk store behind the pipeline\<close>

definition load_chunk :: "'k store_log \<Rightarrow> bytes \<Rightarrow> bytes option" where
  "load_chunk s r = (case store_getter (fst s) r 0 of Ok d \<Rightarrow> Some d | _ \<Rightarrow> None)"

text \<open>No two of the chunks stored or put have the same address, and what is stored is stored under its address.\<close>

definition no_collision :: "(bytes \<Rightarrow> bytes) \<Rightarrow> 'k store_log \<Rightarrow> bool" where
  "no_collision H s \<longleftrightarrow>
     inj_on (bmt_address H) (set (snd s) \<union> ran (stored (fst s))) \<and>
     (\<forall>r d. stored (fst s) r = Some d \<longrightarrow> r = bmt_address H d)"

lemma getter_index: "store_getter db r ix = store_getter db r 0"
  by (simp add: store_getter_def db_Get_def db_get_def IsZero_def Equal_def Let_def split: option.splits)

lemma load_chunk_iff:
  "load_chunk s r = Some d \<longleftrightarrow> stored (fst s) r = Some d \<and> (\<exists>x. stored_type (fst s) r = Some x \<and> and x 1 \<noteq> 0)"
  using stored_type_stored [of "fst s" r]
  by (auto simp: load_chunk_def store_getter_def Get_request Get_lookup NewChunk_def NewAddress_def split: option.splits if_splits)

lemma store_getter_load: "load_chunk s r = Some d \<Longrightarrow> store_getter (fst s) r ix = Ok d"
  by (subst getter_index) (auto simp: load_chunk_def split: outcome.splits)

lemma ChainWrite_cases:
  assumes "bmt_ChainWrite H E ModePutUpload root d s = Ok (r, s')"
  obtains db exs where "r = bmt_address H d" "s' = (db, snd s @ [d])"
    "db_put E ModePutUpload root [NewChunk (Address r) d] (fst s) = (Ok exs, db)"
  using assms
  by (auto simp: bmt_ChainWrite_def store_ChainWrite_def Let_def NewAddress_def split: if_splits prod.splits outcome.splits)

lemma put_values_other: "k \<notin> Bytes ` addr ` set cs \<Longrightarrow> put_values cs vs m k = m k"
proof (induction cs arbitrary: vs m)
  case (Cons c cs)
  then show ?case by (cases vs) auto
qed simp

lemma ChainWrite_stored:
  assumes "bmt_ChainWrite H E ModePutUpload root d s = Ok (r, s')"
  shows "r = bmt_address H d" "snd s' = snd s @ [d]"
    "stored (fst s') = (case stored (fst s) r of None \<Rightarrow> (stored (fst s))(r \<mapsto> d) | Some _ \<Rightarrow> stored (fst s))"
    "\<exists>x. stored_type (fst s') r = Some x \<and> and x 1 \<noteq> 0"
    "k \<noteq> r \<Longrightarrow> stored_type (fst s') k = stored_type (fst s) k"
proof -
  obtain db exs where c: "r = bmt_address H d" "s' = (db, snd s @ [d])"
      "db_put E ModePutUpload root [NewChunk (Address r) d] (fst s) = (Ok exs, db)"
    using ChainWrite_cases [OF assms] .
  show "r = bmt_address H d" "snd s' = snd s @ [d]" using c by simp_all
  show "stored (fst s') = (case stored (fst s) r of None \<Rightarrow> (stored (fst s))(r \<mapsto> d) | Some _ \<Rightarrow> stored (fst s))"
    using c(2) stored_put [OF c(3)] by (auto simp: chunk_data_def NewChunk_def fun_eq_iff split: option.splits)
  show "\<exists>x. stored_type (fst s') r = Some x \<and> and x 1 \<noteq> 0"
    using stored_type_put [OF c(3), of "NewChunk (Address r) d"] c(2) by (simp add: NewChunk_def mode_type_def)
  show "stored_type (fst s') k = stored_type (fst s) k" if "k \<noteq> r"
  proof -
    obtain vs where v: "map_of (tables db DataIndex) = put_values [NewChunk (Address r) d] vs (map_of (tables (fst s) DataIndex))"
      using db_put_tables [OF c(3)] .
    have "put_values [NewChunk (Address r) d] vs (map_of (tables (fst s) DataIndex)) k = map_of (tables (fst s) DataIndex) k"
      by (rule put_values_other) (use that in \<open>simp add: NewChunk_def\<close>)
    then show ?thesis using c(2) v by (simp add: stored_type_def)
  qed
qed

lemma no_collision_before:
  assumes "bmt_ChainWrite H E ModePutUpload root d s = Ok (r, s')" "no_collision H s'"
  shows "no_collision H s"
proof -
  note c = ChainWrite_stored [OF assms(1)]
  have sub: "stored (fst s) k = Some x \<Longrightarrow> stored (fst s') k = Some x" for k x
    unfolding c(3) by (auto split: option.splits)
  then have "ran (stored (fst s)) \<subseteq> ran (stored (fst s'))" by (auto simp: ran_def)
  then have "set (snd s) \<union> ran (stored (fst s)) \<subseteq> set (snd s') \<union> ran (stored (fst s'))" using c(2) by auto
  then show ?thesis using assms(2) sub inj_on_subset unfolding no_collision_def by blast
qed

interpretation lst: chunk_store "bmt_ChainWrite H E ModePutUpload root" load_chunk "no_collision H" "\<lambda>d. SpanSize \<le> length d"
  for H E root
proof unfold_locales
  show "\<exists>r s'. bmt_ChainWrite H E ModePutUpload root d s = Ok (r, s')" if "SpanSize \<le> length d" for d and s :: "'k store_log"
  proof -
    obtain exs db where "db_put E ModePutUpload root [NewChunk (NewAddress (bmt_address H d)) d] (fst s) = (Ok exs, db)"
      using db_put_upload by blast
    then show ?thesis using that by (simp add: bmt_ChainWrite_def store_ChainWrite_def Let_def)
  qed
  show "load_chunk s' r = Some d"
    if s: "bmt_ChainWrite H E ModePutUpload root d s = Ok (r, s')" and n: "no_collision H s'" for d r and s s' :: "'k store_log"
  proof -
    note c = ChainWrite_stored [OF s]
    have "stored (fst s') r = Some d"
    proof (cases "stored (fst s) r")
      case None
      then show ?thesis using c(3) by simp
    next
      case (Some x)
      then have x: "stored (fst s') r = Some x" using c(3) by simp
      then have "bmt_address H x = bmt_address H d" "x \<in> ran (stored (fst s'))" using n c(1) by (auto simp: no_collision_def ran_def)
      then have "x = d"
        using n c(2) inj_onD [of "bmt_address H" "set (snd s') \<union> ran (stored (fst s'))" x d] by (simp add: no_collision_def)
      then show ?thesis using x by simp
    qed
    then show ?thesis using c(4) by (simp add: load_chunk_iff)
  qed
  show "load_chunk s' x = Some y" if s: "bmt_ChainWrite H E ModePutUpload root d s = Ok (r, s')" and l: "load_chunk s x = Some y"
    for d r x y and s s' :: "'k store_log"
  proof -
    note c = ChainWrite_stored [OF s]
    have "stored (fst s') x = Some y" unfolding c(3) using l by (auto simp: load_chunk_iff split: option.splits)
    then show ?thesis using c(4) c(5) [of x] l by (cases "x = r") (auto simp: load_chunk_iff)
  qed
  show "no_collision H s" if "bmt_ChainWrite H E ModePutUpload root d s = Ok (r, s')" "no_collision H s'"
    for d r and s s' :: "'k store_log"
    using no_collision_before [OF that] .
qed

section \<open>Feeding the pipeline\<close>

definition reads_of :: "bytes list \<Rightarrow> bytes \<Rightarrow> reader_result list" where
  "reads_of ds d = map RData ds @ [REof d]"

lemma write_piece_Writes:
  assumes "feeder_inv sz t f" "0 < sz"
  shows "write_piece nxt d f s = feeder_Writes nxt [d] f s"
    and "write_piece nxt d f s = Some (Ok (f', s')) \<Longrightarrow> feeder_inv sz (t @ d) f'"
proof -
  have "feeder_ok sz (rest_block sz t) f" using assms(1) by (simp add: feeder_inv_def)
  from feeder_Write_chunks [OF this assms(2), of d nxt] obtain g where
    w: "feeder_Write nxt d f s = Some (andthen (pushes nxt (full_blocks sz (rest_block sz t @ d)) s) (\<lambda>s'. Ok (int (length d), g, s')))"
    by blast
  then show e: "write_piece nxt d f s = feeder_Writes nxt [d] f s"
    by (cases "pushes nxt (full_blocks sz (rest_block sz t @ d)) s") (simp_all add: write_piece_def)
  obtain f1 where f1: "feeder_inv sz (t @ d) f1" "feeder_Writes nxt [d] f s =
      Some (andthen (pushes nxt (full_blocks sz (rest_block sz t @ d)) s) (\<lambda>s'. Ok (f1, s')))"
    using feeder_Writes_chunks [OF assms, of "[d]" nxt] by auto
  assume "write_piece nxt d f s = Some (Ok (f', s'))"
  then show "feeder_inv sz (t @ d) f'"
    using e f1 by (cases "pushes nxt (full_blocks sz (rest_block sz t @ d)) s") auto
qed

lemma feeder_Writes_Cons:
  "feeder_Writes nxt (d # ds) f s =
     Option.bind (feeder_Writes nxt [d] f s) (\<lambda>x. case x of
        Panic \<Rightarrow> Some Panic | Fail e \<Rightarrow> Some (Fail e) | Ok (f1, s1) \<Rightarrow> feeder_Writes nxt ds f1 s1)"
proof (cases "feeder_Write nxt d f s")
  case (Some r)
  then show ?thesis by (cases r) auto
qed simp

lemma andthen_Ok [simp]: "andthen x Ok = x"
  by (cases x) simp_all

lemma andthen_pair: "andthen (andthen r (\<lambda>s. Ok (f, s))) (\<lambda>(f, y). g f y) = andthen r (g f)"
  by (cases r) simp_all

lemma feed_reader_Writes:
  assumes "\<And>i. \<not> canceled i" "0 < sz"
  shows "feeder_inv sz t f \<Longrightarrow>
    feed_reader canceled nxt i (reads_of ds d) f s = feeder_Writes nxt (ds @ (if d = [] then [] else [d])) f s"
proof (induction ds arbitrary: i t f s)
  case Nil
  show ?case using assms(1) write_piece_Writes(1) [OF Nil assms(2), of nxt d s]
    by (simp add: reads_of_def option.map_ident)
next
  case (Cons x ds)
  note w = write_piece_Writes [OF Cons(2) assms(2), where nxt = nxt and d = x and s = s]
  show ?case
  proof (cases "write_piece nxt x f s")
    case None
    then show ?thesis using w(1) by (simp add: reads_of_def feeder_Writes_Cons [of nxt x "ds @ _"] del: feeder_Writes.simps)
  next
    case (Some r)
    show ?thesis
    proof (cases r)
      case (Ok fs)
      then obtain f1 s1 where r: "r = Ok (f1, s1)" by (cases fs) auto
      then have "feeder_inv sz (t @ x) f1" using w(2) Some by simp
      from Cons(1) [OF this, of "Suc i" s1] show ?thesis
        using Some r w(1) assms(1) by (simp add: reads_of_def feeder_Writes_Cons [of nxt x "ds @ _"] del: feeder_Writes.simps)
    qed (use Some w(1) in \<open>simp_all add: reads_of_def feeder_Writes_Cons [of nxt x "ds @ _"] del: feeder_Writes.simps\<close>)
  qed
qed

lemma New_feeder_inv: "0 < sz \<Longrightarrow> feeder_inv sz [] (NewChunkFeederWriter sz)"
  using blocks_short [of "[] :: bytes" sz] by (simp add: feeder_inv_def feeder_ok_def NewChunkFeederWriter_def)

text \<open>However the reader cuts the data, the pipeline pushes the same blocks and then takes the sum of the trie.\<close>

lemma FeedPipeline_pushes:
  assumes "\<And>i. \<not> canceled i" "0 < cs"
  shows "FeedPipeline canceled save cs b rs (reads_of ds d) s =
    Some (andthen (pushes (pipeline_next save) (leaf_blocks cs (concat ds @ d)) (NewHashTrieWriter cs b rs, s))
       (\<lambda>(h, s). trie_Sum save h s))"
proof -
  let ?bs = "ds @ (if d = [] then [] else [d])" and ?h = "(NewHashTrieWriter cs b rs, s)"
  have c: "concat ?bs = concat ds @ d" by simp
  obtain f where f: "\<And>s. feeder_Writes (pipeline_next save) ?bs (NewChunkFeederWriter cs) s =
        Some (andthen (pushes (pipeline_next save) (full_blocks cs (concat ?bs)) s) (\<lambda>s'. Ok (f, s')))"
      "\<And>s. andthen (pushes (pipeline_next save) (full_blocks cs (concat ?bs)) s)
          (feeder_Sum (pipeline_next save) (\<lambda>(h, s). trie_Sum save h s) f) =
        andthen (pushes (pipeline_next save) (leaf_blocks cs (concat ?bs)) s) (\<lambda>(h, s). trie_Sum save h s)"
    using feeder_chunks [OF assms(2), of "pipeline_next save" ?bs "\<lambda>(h, s). trie_Sum save h s"] by blast
  show ?thesis
    unfolding FeedPipeline_def feed_reader_Writes [OF assms New_feeder_inv [OF assms(2)]] f(1) option.map c
    by (simp add: andthen_pair f(2) [unfolded c])
qed

section \<open>Upload and download\<close>

lemma upload_conf:
  assumes "\<And>x. length (H x) = HashSize"
  shows "trie_conf (bmt_ChainWrite H E ModePutUpload root) (\<lambda>d. SpanSize \<le> length d) ChunkSize (nat Branches) HashSize"
  unfolding trie_conf_def
proof (intro conjI allI impI)
  show "length r = HashSize" if "bmt_ChainWrite H E ModePutUpload root d s = Ok (r, s')" for d s r s'
    using ChainWrite_stored(1) [OF that] assms by (simp add: bmt_address_def)
qed (auto simp: HashSize_def Branches_def ChunkSize_def chunk_shape_def chunk_of_def SpanSize_def)

lemma trie_size_large: "2 ^ 63 \<le> trie_size ChunkSize (nat Branches) 7"
  by (simp add: trie_size_def ChunkSize_def Branches_def)

text \<open>The pipeline over any chunk store.\<close>

context chunk_store
begin

lemma FeedPipeline_ok:
  assumes conf: "trie_conf save takes cs b rs" "7 \<le> rs" and c: "\<And>i. \<not> canceled i"
    and cap: "length (concat ds @ d) \<le> trie_size cs b 7" "length (concat ds @ d) < 2 ^ 63"
  shows "\<exists>r h s'. FeedPipeline canceled save cs b rs (reads_of ds d) s = Some (Ok (r, h, s')) \<and> length r = rs \<and>
    (ok s' \<longrightarrow> (\<exists>k\<le>7. repr (load s') cs b rs k r (concat ds @ d)))"
proof -
  let ?data = "concat ds @ d"
  have "\<exists>h s1 r h' s'. pushes (pipeline_next save) (leaf_blocks cs ?data) (NewHashTrieWriter cs b rs, s) = Ok (h, s1) \<and>
     trie_Sum save h s1 = Ok (r, h', s') \<and> length r = rs \<and> (ok s' \<longrightarrow> (\<exists>k\<le>7. repr (load s') cs b rs k r ?data))"
  proof (cases "?data = []")
    case True
    show ?thesis unfolding True using pipeline_empty_ok [OF conf, of s] by blast
  next
    case False
    show ?thesis using pipeline_blocks_ok [OF conf False cap, of s] by blast
  qed
  moreover have "0 < cs" using conf(1) by (simp add: trie_conf_def)
  ultimately show ?thesis unfolding FeedPipeline_pushes [where canceled = canceled, OF c \<open>0 < cs\<close>] by fastforce
qed

end

lemma upload_ok:
  assumes "\<And>x. length (H x) = HashSize" "\<And>i. \<not> canceled i" "length (concat ds @ d) < 2 ^ 63"
  shows "\<exists>r h s'. upload canceled H E ModePutUpload root (reads_of ds d) s = Some (Ok (r, h, s')) \<and> length r = HashSize \<and>
    (no_collision H s' \<longrightarrow> (\<exists>k\<le>7. repr (load_chunk s') ChunkSize (nat Branches) HashSize k r (concat ds @ d)))"
proof -
  have cap: "length (concat ds @ d) \<le> trie_size ChunkSize (nat Branches) 7" using assms(3) trie_size_large by linarith
  have rs: "7 \<le> HashSize" by (simp add: HashSize_def)
  show ?thesis unfolding upload_def
    by (rule lst.FeedPipeline_ok [where canceled = canceled, OF upload_conf [where H = H, OF assms(1)] rs assms(2) cap assms(3)])
qed

text \<open>Reading back what a reference represents, from any chunk store.\<close>

definition reads_back :: "(bytes \<Rightarrow> int \<Rightarrow> bytes outcome) \<Rightarrow> bytes \<Rightarrow> bytes \<Rightarrow> bool" where
  "reads_back getter r data \<longleftrightarrow>
     (\<exists>j. joiner_New getter r 0 = Ok j \<and> jspan j = int (length data) \<and>
        (\<forall>order bufs. (\<forall>evs. mset (order evs) = mset evs) \<longrightarrow> list_all (\<lambda>b. length b < 2 ^ 63) bufs \<longrightarrow>
           (\<exists>j'. Reads 8 order getter j bufs = Some (Ok (take (length (concat bufs)) data), j'))))"

lemma repr_reads_back:
  assumes conf: "0 < rs" "2 \<le> b" "ChunkSize = rs * b" and get: "\<And>r d i. ld r = Some d \<Longrightarrow> getter r i = Ok d"
    and rep: "repr ld ChunkSize b rs k r data" "length r = rs" "length data < 2 ^ 63" and k: "k \<le> 7"
  shows "reads_back getter r data"
proof -
  obtain ch where ch: "ld r = Some ch" "joiner_New getter r 0 =
      Ok \<lparr>jaddr = take HashSize r, rootData = drop 8 ch, jspan = int (length data), joff = 0, jindex = 0, refLength = length r\<rparr>"
    by (rule New_ok [where getter = getter and ix = 0, OF rep(1,3) get])
  let ?j = "\<lparr>jaddr = take HashSize r, rootData = drop 8 ch, jspan = int (length data), joff = 0, jindex = 0, refLength = length r\<rparr>"
  have j: "joins ld r ?j data" "joff ?j = int 0" "k < 8" using ch(1) k by (simp_all add: joins_def)
  have "\<exists>j'. Reads 8 order getter ?j bufs = Some (Ok (take (length (concat bufs)) (drop 0 data)), j')"
    if o: "\<forall>evs. mset (order evs) = mset evs" and "list_all (\<lambda>b. length b < 2 ^ 63) bufs" for order bufs
    by (rule Reads_ok [where getter = getter and order = order, OF conf get rep j(3) _ j(1,2)]) (use that in simp_all)
  then show ?thesis unfolding reads_back_def using ch(2) by (intro exI [of _ ?j]) simp
qed

text \<open>
  C1. What is uploaded is what is downloaded. Take a hash function with 32-byte values, a file of less than
  \<open>2 ^ 63\<close> bytes that the reader delivers in any pieces, the last of them with its end of file or alone, a
  chunk store in any state and a context that is not canceled. The pipeline ends with a reference of 32 bytes.
  Unless two of the chunks in the store have the same address, a joiner on that reference gives the
  length of the file, and reading into any sequence of buffers gives the data from its beginning
  up to the size of the buffers, in whatever order the goroutines of a read finish; 8 levels of recursion
  are enough.
\<close>

theorem upload_download:
  fixes H :: "bytes \<Rightarrow> bytes" and s :: "'k store_log"
  assumes "\<And>x. length (H x) = HashSize" "\<And>i. \<not> canceled i" "length (concat ds @ d) < 2 ^ 63"
  shows "\<exists>r h s'. upload canceled H E ModePutUpload root (reads_of ds d) s = Some (Ok (r, h, s')) \<and> length r = HashSize \<and>
    (no_collision H s' \<longrightarrow> reads_back (store_getter (fst s')) r (concat ds @ d))"
proof -
  obtain r h s' where u: "upload canceled H E ModePutUpload root (reads_of ds d) s = Some (Ok (r, h, s'))" "length r = HashSize"
      "no_collision H s' \<longrightarrow> (\<exists>k\<le>7. repr (load_chunk s') ChunkSize (nat Branches) HashSize k r (concat ds @ d))"
    using upload_ok [where H = H and canceled = canceled and E = E and root = root and s = s, OF assms] by blast
  have conf: "0 < HashSize" "2 \<le> nat Branches" "ChunkSize = HashSize * nat Branches"
    by (simp_all add: HashSize_def Branches_def ChunkSize_def)
  have "no_collision H s' \<longrightarrow> reads_back (store_getter (fst s')) r (concat ds @ d)"
    using u(2,3) repr_reads_back [where getter = "store_getter (fst s')" and ld = "load_chunk s'", OF conf store_getter_load _ _ assms(3)]
    by blast
  then show ?thesis using u(1,2) by blast
qed

text \<open>A small file in an empty store, with a hash function that has one value only.\<close>

definition const_hash :: "bytes \<Rightarrow> bytes" where
  "const_hash x = replicate 32 7"

definition some_env :: env where
  "some_env = \<lparr>now = (\<lambda>n. of_nat n + 1), getMemory = (\<lambda>n. 0)\<rparr>"

lemma upload_small:
  "\<exists>r h s'. upload (\<lambda>_. False) const_hash some_env ModePutUpload ZeroAddress (reads_of [[1], [2]] [3]) (fresh_db, []) = Some (Ok (r, h, s')) \<and>
     no_collision const_hash s'"
proof -
  let ?save = "bmt_ChainWrite const_hash some_env ModePutUpload ZeroAddress :: bytes \<Rightarrow> unit store_log \<Rightarrow> _"
  have len: "length (const_hash x) = HashSize" for x by (simp add: const_hash_def HashSize_def)
  have conf: "trie_conf ?save (\<lambda>d. SpanSize \<le> length d) ChunkSize (nat Branches) HashSize"
    using upload_conf [where H = const_hash, OF len] .
  have cs: "(0 :: nat) < ChunkSize" by (simp add: ChunkSize_def)
  have b: "leaf_blocks ChunkSize [1, 2, 3] = [[1, 2, 3] :: bytes]"
    by (simp add: leaf_blocks_def full_blocks.simps [of _ "[1, 2, 3]"] rest_block.simps [of _ "[1, 2, 3]"] ChunkSize_def)
  have rs: "7 \<le> HashSize" by (simp add: HashSize_def)
  obtain h s r h' where p: "?save (chunk_of [1, 2, 3]) (fresh_db, []) = Ok (r, s)"
      "pushes (pipeline_next ?save) (leaf_blocks ChunkSize [1, 2, 3]) (NewHashTrieWriter ChunkSize (nat Branches) HashSize, (fresh_db, [])) = Ok (h, s)"
      "trie_Sum ?save h s = Ok (r, h', s)"
    using lst.pipeline_single [OF conf rs b, of "(fresh_db, [])"] by (auto simp: ChunkSize_def)
  note c = ChainWrite_stored [OF p(1)]
  have "stored (fst s) = [r \<mapsto> chunk_of [1, 2, 3]]" using c(3) by (simp add: stored_def fresh_db_def fun_eq_iff)
  then have "no_collision const_hash s" using c(1,2) by (auto simp: no_collision_def)
  moreover have "upload (\<lambda>_. False) const_hash some_env ModePutUpload ZeroAddress (reads_of [[1], [2]] [3]) (fresh_db, []) = Some (Ok (r, h', s))"
    unfolding upload_def FeedPipeline_pushes [where canceled = "\<lambda>_. False", OF _ cs, simplified] using p(2,3) by simp
  ultimately show ?thesis by blast
qed

theorem upload_download_witness:
  "\<exists>r h s'. upload (\<lambda>_. False) const_hash some_env ModePutUpload ZeroAddress (reads_of [[1], [2]] [3]) (fresh_db, []) = Some (Ok (r, h, s')) \<and>
     reads_back (store_getter (fst s')) r [1, 2, 3]"
proof -
  have len: "length (const_hash x) = HashSize" for x by (simp add: const_hash_def HashSize_def)
  show ?thesis
    using upload_small upload_download [where H = const_hash and canceled = "\<lambda>_. False" and ds = "[[1], [2]]" and d = "[3]" and E = some_env
      and root = ZeroAddress and s = "(fresh_db, [])", OF len] by auto
qed

section \<open>The chunks of a file\<close>

text \<open>
  C7. The walk over the chunk addresses of an uploaded file, which pinning and deletion use, reports every chunk
  that the file needs: from any store that answers for the reported addresses as the local store does, the
  whole file is read back, whatever else has been removed from it.
\<close>

theorem walk_reports_all:
  fixes H :: "bytes \<Rightarrow> bytes" and s :: "'k store_log"
  assumes "\<And>x. length (H x) = HashSize" "\<And>i. \<not> canceled i" "length (concat ds @ d) < 2 ^ 63"
    and "upload canceled H E ModePutUpload root (reads_of ds d) s = Some (Ok (r, h, s'))" "no_collision H s'"
    and "fnState w = []"
  shows "\<exists>j w'. joiner_New (store_getter (fst s')) r 0 = Ok j \<and>
    IterateChunkAddresses 8 (store_getter (fst s')) j record_address w = Some (Ok (), w') \<and>
    (\<forall>getter. (\<forall>a\<in>set (fnState w'). \<forall>i. getter a i = store_getter (fst s') a i) \<longrightarrow> reads_back getter r (concat ds @ d))"
proof -
  let ?g = "store_getter (fst s')" and ?ld = "load_chunk s'"
  obtain k where k: "k \<le> 7" "repr ?ld ChunkSize (nat Branches) HashSize k r (concat ds @ d)" "length r = HashSize"
    using upload_ok [where H = H and canceled = canceled and E = E and root = root and s = s, OF assms(1-3)] assms(4,5) by auto
  have conf: "0 < HashSize" "2 \<le> nat Branches" "ChunkSize = HashSize * nat Branches"
    by (simp_all add: HashSize_def Branches_def ChunkSize_def)
  obtain ch where j: "joiner_New ?g r 0 =
      Ok \<lparr>jaddr = take HashSize r, rootData = drop 8 ch, jspan = int (length (concat ds @ d)), joff = 0, jindex = 0, refLength = length r\<rparr>"
    by (rule New_ok [where getter = ?g and ix = 0, OF k(2) assms(3) store_getter_load])
  have "k < 8" using k(1) by simp
  then obtain w' where w: "IterateChunkAddresses 8 ?g \<lparr>jaddr = take HashSize r, rootData = drop 8 ch, jspan = int (length (concat ds @ d)), joff = 0,
        jindex = 0, refLength = length r\<rparr> record_address w = Some (Ok (), w')"
      "repr (?ld |` set (fnState w')) ChunkSize (nat Branches) HashSize k r (concat ds @ d)"
    using Iterate_complete [where getter = ?g, OF conf k(2,3) assms(3) store_getter_load j _ assms(6) refl] by blast
  have "reads_back getter r (concat ds @ d)" if "\<forall>a\<in>set (fnState w'). \<forall>i. getter a i = ?g a i" for getter
  proof (rule repr_reads_back [where getter = getter, OF conf _ w(2) k(3) assms(3) k(1)])
    show "getter a i = Ok x" if "(?ld |` set (fnState w')) a = Some x" for a x i
      using that \<open>\<forall>a\<in>set (fnState w'). \<forall>i. getter a i = ?g a i\<close> store_getter_load [of s' a x i]
      by (auto simp: restrict_map_def split: if_splits)
  qed
  then show ?thesis using j w(1) by blast
qed

theorem walk_reports_all_witness:
  "\<exists>r h s' j w'. upload (\<lambda>_. False) const_hash some_env ModePutUpload ZeroAddress (reads_of [[1], [2]] [3]) (fresh_db, []) = Some (Ok (r, h, s')) \<and>
     joiner_New (store_getter (fst s')) r 0 = Ok j \<and>
     IterateChunkAddresses 8 (store_getter (fst s')) j record_address
       \<lparr>allowSaveData = False, dataChunks = [], allowSaveEdge = False, edgeChunks = Map.empty, fnState = []\<rparr> = Some (Ok (), w') \<and>
     reads_back (\<lambda>a i. if a \<in> set (fnState w') then store_getter (fst s') a i else Fail ferror.ErrNotFound) r [1, 2, 3]"
proof -
  have len: "length (const_hash x) = HashSize" for x by (simp add: const_hash_def HashSize_def)
  obtain r h s' where u: "upload (\<lambda>_. False) const_hash some_env ModePutUpload ZeroAddress (reads_of [[1], [2]] [3]) (fresh_db, []) = Some (Ok (r, h, s'))"
    "no_collision const_hash s'" using upload_small by blast
  let ?w = "\<lparr>allowSaveData = False, dataChunks = [], allowSaveEdge = False, edgeChunks = Map.empty, fnState = []\<rparr> :: bytes list walk"
  have "\<exists>j w'. joiner_New (store_getter (fst s')) r 0 = Ok j \<and>
      IterateChunkAddresses 8 (store_getter (fst s')) j record_address ?w = Some (Ok (), w') \<and>
      (\<forall>getter. (\<forall>a\<in>set (fnState w'). \<forall>i. getter a i = store_getter (fst s') a i) \<longrightarrow> reads_back getter r [1, 2, 3])"
    using walk_reports_all [where H = const_hash and canceled = "\<lambda>_. False" and ds = "[[1], [2]]" and d = "[3]" and w = ?w, OF len _ _ u] by simp
  then show ?thesis using u(1) by fastforce
qed

end
