(* ===== verification/FileStore.thy ===== *)
theory FileStore
  imports ChunkStore
begin

text \<open>
  The list of files of a node (\<^verbatim>\<open>src/pkg/localstore/filestore\<close>): \<^verbatim>\<open>filestore.go\<close>, \<^verbatim>\<open>filemirror.go\<close> and \<^verbatim>\<open>page.go\<close>,
  over the state store interface. A stored value stands for its JSON text; reading one kind of value as the
  other keeps the fields they share. Filtering and sorting work by reflection on field names and are left out.
\<close>

section \<open>Files\<close>

record FileView =
  RootCid :: address
  Hash :: string
  Pinned :: bool
  Registered :: bool
  fvSize :: int
  fvType :: string
  fvName :: string
  Extension :: string
  Default :: string
  ErrDefault :: string
  MimeType :: string
  ReferenceLink :: string

datatype Operation = REMOVE | MOVE | COPY | MKDIR

record FileMirror = FileView +
  PreRootCid :: address
  NextRootCid :: address
  mirrorOperation :: Operation

datatype fs_value = VFile FileView | VMirror FileMirror

fun as_file :: "fs_value \<Rightarrow> FileView" where
  "as_file (VFile f) = f"
| "as_file (VMirror m) = FileView.truncate m"

fun as_mirror :: "fs_value \<Rightarrow> FileMirror" where
  "as_mirror (VFile f) =
     FileView.extend f (FileMirror.fields ZeroAddress ZeroAddress REMOVE)"
| "as_mirror (VMirror m) = m"

record 's fileStore =
  fsStore :: 's
  files :: "string \<rightharpoonup> FileView"

definition fileStore_New :: "'s \<Rightarrow> 's fileStore" where
  "fileStore_New st = \<lparr>fsStore = st, files = Map.empty\<rparr>"

definition fileKey :: "address \<Rightarrow> string" where
  "fileKey a = ''file'' @ ''-'' @ String a"

definition mirrorKey :: "address \<Rightarrow> string" where
  "mirrorKey a = ''mirror'' @ ''-'' @ String a"

definition fs_Has :: "address \<Rightarrow> 's fileStore \<Rightarrow> bool" where
  "fs_Has a fs \<longleftrightarrow> files fs (String a) \<noteq> None"

definition fs_Get :: "address \<Rightarrow> 's fileStore \<Rightarrow> FileView option" where
  "fs_Get a fs = files fs (String a)"

definition fs_Put :: "('s, fs_value) storer \<Rightarrow> FileView \<Rightarrow> 's fileStore \<Rightarrow> store_error option \<times> 's fileStore" where
  "fs_Put ops f fs =
     (case st_Put ops (fsStore fs) (fileKey (RootCid f)) (VFile f) of
        (e, st) \<Rightarrow> (e, \<lparr>fsStore = st, files = (files fs)(String (RootCid f) \<mapsto> f)\<rparr>))"

text \<open>\<open>Update\<close> has the same body as \<open>Put\<close>.\<close>

definition fs_Update :: "('s, fs_value) storer \<Rightarrow> FileView \<Rightarrow> 's fileStore \<Rightarrow> store_error option \<times> 's fileStore" where
  "fs_Update ops f fs =
     (case st_Put ops (fsStore fs) (fileKey (RootCid f)) (VFile f) of
        (e, st) \<Rightarrow> (e, \<lparr>fsStore = st, files = (files fs)(String (RootCid f) \<mapsto> f)\<rparr>))"

definition fs_Delete :: "('s, fs_value) storer \<Rightarrow> address \<Rightarrow> 's fileStore \<Rightarrow> store_error option \<times> 's fileStore" where
  "fs_Delete ops a fs =
     (if \<not> fs_Has a fs then (None, fs)
      else case st_Delete ops (fsStore fs) (fileKey a) of
        (e, st) \<Rightarrow> (e, \<lparr>fsStore = st, files = (files fs)(String a := None)\<rparr>))"

definition fs_put :: "FileView \<Rightarrow> 's fileStore \<Rightarrow> 's fileStore" where
  "fs_put f fs = (if fs_Has (RootCid f) fs then fs else fs\<lparr>files := (files fs)(String (RootCid f) \<mapsto> f)\<rparr>)"

definition fs_init_callback ::
  "('s, fs_value) storer \<Rightarrow> string \<Rightarrow> fs_value \<Rightarrow> 's fileStore \<Rightarrow> (bool \<times> store_error option) \<times> 's fileStore" where
  "fs_init_callback ops k v fs =
     (if \<not> prefix ''file'' k then ((True, None), fs)
      else case st_Get ops (fsStore fs) k of
        Inl e \<Rightarrow> ((False, Some e), fs)
      | Inr x \<Rightarrow> ((False, None), fs_put (as_file x) fs))"

definition fs_Init :: "('s, fs_value) storer \<Rightarrow> 's fileStore \<Rightarrow> store_error option \<times> 's fileStore" where
  "fs_Init ops fs = iterate (fs_init_callback ops) (st_entries ops (fsStore fs) ''file'') fs"

section \<open>Mirrors\<close>

definition getMirror :: "('s, fs_value) storer \<Rightarrow> address \<Rightarrow> 's fileStore \<Rightarrow> store_error + FileMirror" where
  "getMirror ops a fs = map_sum id as_mirror (st_Get ops (fsStore fs) (mirrorKey a))"

definition hasMirror :: "('s, fs_value) storer \<Rightarrow> address \<Rightarrow> 's fileStore \<Rightarrow> store_error + bool" where
  "hasMirror ops a fs =
     (case getMirror ops a fs of
        Inl e \<Rightarrow> if e = ErrNotFound then Inr False else Inl e
      | Inr m \<Rightarrow> Inr True)"

definition putMirror ::
  "('s, fs_value) storer \<Rightarrow> address \<Rightarrow> address \<Rightarrow> Operation \<Rightarrow> FileView \<Rightarrow> 's fileStore \<Rightarrow> store_error option \<times> 's fileStore" where
  "putMirror ops pre nxt ope f fs =
     (case hasMirror ops nxt fs of
        Inl e \<Rightarrow> (Some e, fs)
      | Inr True \<Rightarrow> (None, fs)
      | Inr False \<Rightarrow>
          (case st_Put ops (fsStore fs) (mirrorKey nxt) (VMirror (FileView.extend f (FileMirror.fields pre nxt ope))) of
             (e, st) \<Rightarrow> (e, fs\<lparr>fsStore := st\<rparr>)))"

definition delMirror :: "('s, fs_value) storer \<Rightarrow> address \<Rightarrow> 's fileStore \<Rightarrow> store_error option \<times> 's fileStore" where
  "delMirror ops a fs = (case st_Delete ops (fsStore fs) (mirrorKey a) of (e, st) \<Rightarrow> (e, fs\<lparr>fsStore := st\<rparr>))"

text \<open>The chain of mirrors of a file; \<open>None\<close> when the recursion does not end.\<close>

partial_function (option) getMirrors ::
  "('s, fs_value) storer \<Rightarrow> address \<Rightarrow> 's fileStore \<Rightarrow> (store_error + FileMirror list) option" where
  "getMirrors ops a fs =
     (case getMirror ops a fs of
        Inl e \<Rightarrow> Some (if e = ErrNotFound then Inr [] else Inl e)
      | Inr m \<Rightarrow>
          if Equal (PreRootCid m) ZeroAddress then Some (Inr [m])
          else Option.bind (getMirrors ops (RootCid m) fs) (\<lambda>r. Some (map_sum id (Cons m) r)))"

text \<open>\<open>PutMirrorFile\<close> of the local store: a file is replaced by another and its mirror is kept.\<close>

definition PutMirrorFile ::
  "('s, fs_value) storer \<Rightarrow> address \<Rightarrow> address \<Rightarrow> Operation \<Rightarrow> 's fileStore \<Rightarrow> store_error option \<times> 's fileStore" where
  "PutMirrorFile ops nxt a ope fs =
     (case fs_Get a fs of
        None \<Rightarrow> (Some ErrNotFound, fs)
      | Some f \<Rightarrow>
          (case fs_Delete ops a fs of
             (Some e, fs1) \<Rightarrow> (Some e, fs1)
           | (None, fs1) \<Rightarrow>
               (case getMirror ops a fs1 of
                  Inl e \<Rightarrow> if e \<noteq> ErrNotFound then (Some e, fs1) else putMirror ops ZeroAddress nxt ope f fs1
                | Inr m \<Rightarrow> putMirror ops (RootCid m) nxt ope f fs1)))"

section \<open>Pages\<close>

text \<open>\<open>pageFile\<close>; a slice out of range is a panic, the value \<open>None\<close>.\<close>

definition slice_list :: "'a list \<Rightarrow> int \<Rightarrow> int \<Rightarrow> 'a list option" where
  "slice_list xs lo hi =
     (if 0 \<le> lo \<and> lo \<le> hi \<and> hi \<le> int (length xs) then Some (take (nat (hi - lo)) (drop (nat lo) xs)) else None)"

definition pageFile :: "'a list \<Rightarrow> int \<Rightarrow> int \<Rightarrow> 'a list option" where
  "pageFile xs pageNum pageSize =
     (if xs = [] then Some xs
      else if pageNum = 0 \<or> pageSize = 0 then Some xs
      else
        let start = wrap64 (pageSize * wrap64 (pageNum - 1)); l = int (length xs) in
        if pageSize \<le> wrap64 (l - start) then slice_list xs start (wrap64 (start + pageSize))
        else if l < start then Some []
        else slice_list xs start l)"

section \<open>The files survive a restart\<close>

definition fs_synced :: "fs_value mockstore fileStore \<Rightarrow> bool" where
  "fs_synced fs \<longleftrightarrow> mock_inv (fsStore fs) \<and> (\<forall>r f. files fs r = Some f \<longrightarrow> r = String (RootCid f)) \<and>
     (\<forall>k v. prefix ''file'' k \<longrightarrow>
        (map_of (fsStore fs) k = Some v \<longleftrightarrow>
         (\<exists>f. v = VFile f \<and> k = fileKey (RootCid f) \<and> files fs (String (RootCid f)) = Some f)))"

lemma fileKey_inject [simp]: "fileKey a = fileKey b \<longleftrightarrow> String a = String b"
  by (simp add: fileKey_def)

lemma prefix_fileKey [simp]: "prefix ''file'' (fileKey a)"
  by (simp add: fileKey_def)

lemma not_prefix_mirrorKey [simp]: "\<not> prefix ''file'' (mirrorKey a)"
  by (simp add: mirrorKey_def)

lemma fs_synced_file:
  "fs_synced fs \<Longrightarrow> prefix ''file'' k \<Longrightarrow>
    map_of (fsStore fs) k = Some v \<longleftrightarrow> (\<exists>f. v = VFile f \<and> k = fileKey (RootCid f) \<and> files fs (String (RootCid f)) = Some f)"
  by (simp add: fs_synced_def)

lemma fs_New_synced: "fs_synced (fileStore_New (NewStateStore schema))"
  by (auto simp: fs_synced_def fileStore_New_def NewStateStore_def mock_Put_def mock_inv_def mockSchemaNameKey_def split: if_splits)

lemma fs_Put_synced:
  assumes "fs_synced fs"
  shows "\<exists>fs'. fs_Put mock_store f fs = (None, fs') \<and> fs_synced fs'"
proof -
  let ?fs = "\<lparr>fsStore = AList.update (fileKey (RootCid f)) (VFile f) (fsStore fs), files = (files fs)(String (RootCid f) \<mapsto> f)\<rparr>"
  have "map_of (fsStore ?fs) k = Some v \<longleftrightarrow>
      (\<exists>g. v = VFile g \<and> k = fileKey (RootCid g) \<and> files ?fs (String (RootCid g)) = Some g)" if "prefix ''file'' k" for k v
    using fs_synced_file [OF assms that, of v] by (cases "k = fileKey (RootCid f)") (auto simp: update_conv)
  then have "fs_synced ?fs"
    using assms unfolding fs_synced_def by (simp add: mock_inv_def distinct_update)
  then show ?thesis by (simp add: fs_Put_def mock_store_def mock_Put_def)
qed

lemma fs_Delete_synced:
  assumes "fs_synced fs"
  shows "\<exists>fs'. fs_Delete mock_store a fs = (None, fs') \<and> fs_synced fs'"
proof (cases "fs_Has a fs")
  case True
  let ?fs = "\<lparr>fsStore = AList.delete (fileKey a) (fsStore fs), files = (files fs)(String a := None)\<rparr>"
  have "map_of (fsStore ?fs) k = Some v \<longleftrightarrow>
      (\<exists>g. v = VFile g \<and> k = fileKey (RootCid g) \<and> files ?fs (String (RootCid g)) = Some g)" if "prefix ''file'' k" for k v
    using fs_synced_file [OF assms that, of v] by (cases "k = fileKey a") (auto simp: delete_conv')
  then have "fs_synced ?fs"
    using assms unfolding fs_synced_def by (simp add: mock_inv_def distinct_delete)
  then show ?thesis using True by (simp add: fs_Delete_def mock_store_def mock_Delete_def)
qed (use assms in \<open>simp add: fs_Delete_def\<close>)

lemma fs_synced_store:
  assumes "fs_synced fs" "mock_inv st" "\<And>k. prefix ''file'' k \<Longrightarrow> map_of st k = map_of (fsStore fs) k"
  shows "fs_synced (fs\<lparr>fsStore := st\<rparr>)"
  using assms by (simp add: fs_synced_def)

lemma fs_mirror_synced:
  assumes "fs_synced fs"
  shows "fs_synced (snd (putMirror mock_store pre nxt ope f fs))" "fs_synced (snd (delMirror mock_store a fs))"
proof -
  have i: "mock_inv (fsStore fs)" using assms by (simp add: fs_synced_def)
  have neq: "k \<noteq> mirrorKey c" if "prefix ''file'' k" for k c using that by auto
  have u: "fs_synced (fs\<lparr>fsStore := AList.update (mirrorKey nxt) v (fsStore fs)\<rparr>)" for v
    by (rule fs_synced_store [OF assms]) (use i neq in \<open>simp_all add: mock_inv_def update_conv distinct_update\<close>)
  have d: "fs_synced (fs\<lparr>fsStore := AList.delete (mirrorKey a) (fsStore fs)\<rparr>)"
    by (rule fs_synced_store [OF assms]) (use i neq in \<open>simp_all add: mock_inv_def delete_conv' distinct_delete\<close>)
  show "fs_synced (snd (putMirror mock_store pre nxt ope f fs))"
    using assms u by (auto simp: putMirror_def mock_store_def mock_Put_def split: sum.splits bool.splits)
  show "fs_synced (snd (delMirror mock_store a fs))"
    using d by (simp add: delMirror_def mock_store_def mock_Delete_def)
qed

lemma fs_init_entries:
  assumes "\<forall>(k, v) \<in> set es. \<exists>f. v = VFile f \<and> k = fileKey (RootCid f) \<and> map_of (fsStore fs) k = Some v" "distinct (map fst es)"
  shows "\<exists>fs'. iterate (fs_init_callback mock_store) es fs = (None, fs') \<and> fsStore fs' = fsStore fs \<and>
    (\<forall>r f. files fs' r = Some f \<longleftrightarrow> files fs r = Some f \<or>
       files fs r = None \<and> (fileKey (RootCid f), VFile f) \<in> set es \<and> String (RootCid f) = r)"
  using assms
proof (induction es arbitrary: fs)
  case (Cons kv es)
  obtain f where f: "kv = (fileKey (RootCid f), VFile f)" "map_of (fsStore fs) (fileKey (RootCid f)) = Some (VFile f)"
    using Cons(2) by (cases kv) auto
  then have c: "fs_init_callback mock_store (fst kv) (snd kv) fs = ((False, None), fs_put f fs)"
    by (simp add: fs_init_callback_def mock_store_def mock_Get_def)
  have s: "fsStore (fs_put f fs) = fsStore fs" by (simp add: fs_put_def)
  obtain fs' where fs': "iterate (fs_init_callback mock_store) es (fs_put f fs) = (None, fs')" "fsStore fs' = fsStore fs"
      "\<And>r g. files fs' r = Some g \<longleftrightarrow> files (fs_put f fs) r = Some g \<or>
         files (fs_put f fs) r = None \<and> (fileKey (RootCid g), VFile g) \<in> set es \<and> String (RootCid g) = r"
    using Cons(1) [of "fs_put f fs"] Cons(2,3) s by auto
  have "(fileKey (RootCid g), x) \<notin> set es" if "String (RootCid g) = String (RootCid f)" for g x
    using Cons(3) f(1) that by (force simp: image_iff)
  then have "files fs' r = Some g \<longleftrightarrow> files fs r = Some g \<or>
       files fs r = None \<and> (fileKey (RootCid g), VFile g) \<in> set (kv # es) \<and> String (RootCid g) = r" for r g
    using fs'(3) f(1) by (auto simp: fs_put_def fs_Has_def split: if_splits)
  then show ?case using fs'(1,2) c f(1) by auto
qed auto

lemma fileStore_restart:
  assumes "fs_synced fs"
  shows "\<exists>fs'. fs_Init mock_store (fileStore_New (fsStore fs)) = (None, fs') \<and> files fs' = files fs"
proof -
  let ?fs = "fileStore_New (fsStore fs)" and ?es = "mock_entries (fsStore fs) ''file''"
  have es: "distinct (map fst ?es)" "set ?es = {(k, v). map_of (fsStore fs) k = Some v \<and> prefix ''file'' k}"
    using assms mock_entries_set by (auto simp: fs_synced_def)
  have ent: "map_of (fsStore fs) k = Some v \<longleftrightarrow> (\<exists>f. v = VFile f \<and> k = fileKey (RootCid f) \<and> files fs (String (RootCid f)) = Some f)"
    if "prefix ''file'' k" for k v by (rule fs_synced_file [OF assms that])
  have "\<forall>(k, v) \<in> set ?es. \<exists>f. v = VFile f \<and> k = fileKey (RootCid f) \<and> map_of (fsStore ?fs) k = Some v"
    using es(2) ent by (auto simp: fileStore_New_def)
  from fs_init_entries [OF this es(1)] obtain fs' where fs': "iterate (fs_init_callback mock_store) ?es ?fs = (None, fs')"
      "\<And>r f. files fs' r = Some f \<longleftrightarrow> (fileKey (RootCid f), VFile f) \<in> set ?es \<and> String (RootCid f) = r"
    by (auto simp: fileStore_New_def)
  have "files fs' r = Some f \<longleftrightarrow> files fs r = Some f" for r f
    using fs'(2) es(2) ent assms by (auto simp: fs_synced_def)
  then have "files fs' = files fs" by (metis (full_types) ext not_Some_eq)
  then show ?thesis using fs'(1) by (auto simp: fs_Init_def mock_store_def fileStore_New_def)
qed

section \<open>Pages cover the list\<close>

lemma pageFile_page:
  assumes "0 < pageSize" "1 \<le> pageNum" "int (length xs) < 2 ^ 62" "pageSize * (pageNum - 1) < 2 ^ 62" "pageSize < 2 ^ 62" "pageNum < 2 ^ 62"
  shows "pageFile xs pageNum pageSize = Some (take (nat pageSize) (drop (nat (pageSize * (pageNum - 1))) xs))"
proof (cases "xs = []")
  case False
  define st where "st = pageSize * (pageNum - 1)"
  have s: "0 \<le> st" "st < 2 ^ 62" using assms(1,2,4) by (simp_all add: st_def)
  have w: "wrap64 (pageNum - 1) = pageNum - 1" "wrap64 st = st" "wrap64 (int (length xs) - st) = int (length xs) - st"
      "wrap64 (st + pageSize) = st + pageSize"
    using assms(1-3,5,6) s by (simp_all add: wrap64_id in_int64_def)
  show ?thesis
    using False assms(1,2) s unfolding pageFile_def Let_def w(1) st_def [symmetric] w by (auto simp: slice_list_def nat_add_distrib)
qed (use assms in \<open>simp add: pageFile_def\<close>)

end
