(* ===== verification/Mantaray.thy ===== *)
theory Mantaray
  imports Feeder
begin

text \<open>
  Reading the forks of a manifest node (\<^verbatim>\<open>src/pkg/localstore/marshal.go\<close>), which the local store uses to find the
  chunks below a root. An index or slice out of range is \<open>None\<close>. \<open>UnmarshalBinary\<close> returns the nodes it has
  read together with an error, and its caller uses the nodes and ignores the error.
\<close>

section \<open>Model\<close>

definition nodeObfuscationKeySize :: nat where "nodeObfuscationKeySize = 32"
definition versionHashSize :: nat where "versionHashSize = 31"
definition nodeHeaderSize :: nat where "nodeHeaderSize = 64"
definition nodeForkPreReferenceSize :: nat where "nodeForkPreReferenceSize = 32"
definition nodePrefixMaxSize :: nat where "nodePrefixMaxSize = 30"
definition nodeForkMetadataBytesSize :: nat where "nodeForkMetadataBytesSize = 2"
definition nodeTypeWithMetadata :: byte where "nodeTypeWithMetadata = 16"

definition initVersion :: "string \<Rightarrow> bytes" where
  "initVersion s = take versionHashSize (case hex_decode s of Inl _ \<Rightarrow> [] | Inr b \<Rightarrow> b)"

definition version01HashBytes :: bytes where
  "version01HashBytes = initVersion ''025184789d63635766d78c41900196b57d7400875ebe4d9b5d1e76bd9652a9b7''"

definition version02HashBytes :: bytes where
  "version02HashBytes = initVersion ''5768b3b6a7db56d21d1abff40d41cebfc83448fed8d7e9b06ec0d3b073f28f7b''"

definition nodeTypeIsWithMetadataType :: "byte \<Rightarrow> bool" where
  "nodeTypeIsWithMetadataType t \<longleftrightarrow> and t nodeTypeWithMetadata = nodeTypeWithMetadata"

text \<open>The 256-bit set of \<open>bitsForBytes\<close>, as its 32 bytes.\<close>

definition bits_fromBytes :: "bytes \<Rightarrow> bytes" where
  "bits_fromBytes b = copy_at 0 b (replicate 32 0)"

definition getUint8 :: "bytes \<Rightarrow> nat \<Rightarrow> bool" where
  "getUint8 bits i \<longleftrightarrow> 0 < and (drop_bit (i mod 8) (bits ! (i div 8))) 1"

definition bits_iter :: "bytes \<Rightarrow> nat list" where
  "bits_iter bits = filter (getUint8 bits) [0..<256]"

record mnode =
  nodeType :: byte
  naddress :: bytes

definition fromBytes :: "bytes \<Rightarrow> (ferror + mnode) option" where
  "fromBytes b =
     (if length b < 2 then None
      else
        let prefixLen = unat (b ! 1) in
        if prefixLen = 0 \<or> nodePrefixMaxSize < prefixLen then Some (Inl ErrFork)
        else if length b < nodeForkPreReferenceSize then None
        else Some (Inr \<lparr>nodeType = b ! 0, naddress = drop nodeForkPreReferenceSize b\<rparr>))"

definition fromBytes02 :: "bytes \<Rightarrow> nat \<Rightarrow> (ferror + mnode) option" where
  "fromBytes02 b refBytesSize =
     (if length b < 2 then None
      else
        let prefixLen = unat (b ! 1) in
        if prefixLen = 0 \<or> nodePrefixMaxSize < prefixLen then Some (Inl ErrFork)
        else if length b < nodeForkPreReferenceSize + refBytesSize then None
        else Some (Inr \<lparr>nodeType = b ! 0, naddress = take refBytesSize (drop nodeForkPreReferenceSize b)\<rparr>))"

definition encryptDecrypt :: "bytes \<Rightarrow> bytes \<Rightarrow> bytes" where
  "encryptDecrypt input key = map (\<lambda>i. xor (input ! i) (key ! (i mod length key))) [0..<length input]"

function decrypt_blocks :: "bytes \<Rightarrow> bytes \<Rightarrow> bytes" where
  "decrypt_blocks key d =
     (if d = [] then [] else encryptDecrypt (take 32 d) key @ decrypt_blocks key (drop 32 d))"
  by auto
termination
  by (relation "measure (\<lambda>(key, d). length d)") auto

declare decrypt_blocks.simps [simp del]

text \<open>The fork at \<open>off\<close> in the two versions of the format: its node and its size, or an error.\<close>

definition fork01 :: "bytes \<Rightarrow> nat \<Rightarrow> nat \<Rightarrow> (ferror + mnode \<times> nat) option" where
  "fork01 data ref off =
     (let sz = nodeForkPreReferenceSize + ref in
      if length data < off + sz then Some (Inl ErrFork)
      else map_option (map_sum id (\<lambda>n. (n, sz))) (fromBytes (take sz (drop off data))))"

definition fork02 :: "bytes \<Rightarrow> nat \<Rightarrow> nat \<Rightarrow> (ferror + mnode \<times> nat) option" where
  "fork02 data ref off =
     (if length data < off + 1 then Some (Inl ErrFork)
      else
        let sz = nodeForkPreReferenceSize + ref in
        if nodeTypeIsWithMetadataType (data ! off) then
          if length data < off + sz + nodeForkMetadataBytesSize then Some (Inl ErrFork)
          else
            let meta = 256 * unat (data ! (off + sz)) + unat (data ! (off + sz + 1));
                sz1 = sz + nodeForkMetadataBytesSize + meta
            in if length data < off + sz1 then None
               else map_option (map_sum id (\<lambda>n. (n, sz1))) (fromBytes02 (take sz1 (drop off data)) ref)
        else if length data < off + sz then Some (Inl ErrFork)
        else map_option (map_sum id (\<lambda>n. (n, sz))) (fromBytes (take sz (drop off data))))"

fun fork_loop :: "(nat \<Rightarrow> (ferror + mnode \<times> nat) option) \<Rightarrow> nat list \<Rightarrow> nat \<Rightarrow> mnode list \<Rightarrow> (mnode list \<times> ferror option) option" where
  "fork_loop fork [] off ns = Some (ns, None)"
| "fork_loop fork (b # bs) off ns =
     (case fork off of
        None \<Rightarrow> None
      | Some (Inl e) \<Rightarrow> Some (ns, Some e)
      | Some (Inr (n, sz)) \<Rightarrow> fork_loop fork bs (off + sz) (ns @ [n]))"

definition UnmarshalBinary :: "bytes \<Rightarrow> (mnode list \<times> ferror option) option" where
  "UnmarshalBinary raw =
     (if length raw < nodeHeaderSize then Some ([], Some ErrTooShort)
      else
        let key = take nodeObfuscationKeySize raw;
            data = key @ decrypt_blocks key (drop nodeObfuscationKeySize raw);
            versionHash = take versionHashSize (drop nodeObfuscationKeySize data);
            ref = unat (data ! (nodeHeaderSize - 1));
            off = nodeHeaderSize + ref;
            forks = (\<lambda>fork.
              if length data < off then None
              else fork_loop fork (bits_iter (bits_fromBytes (drop off data))) (off + 32) [])
        in if versionHash = version01HashBytes then forks (fork01 data ref)
           else if versionHash = version02HashBytes then forks (fork02 data ref)
           else Some ([], Some ErrInvalidVersionHash))"

section \<open>Obfuscation\<close>

text \<open>Decrypting is its own inverse, and every block of 32 bytes is treated alike.\<close>

lemma length_encryptDecrypt [simp]: "length (encryptDecrypt d key) = length d"
  by (simp add: encryptDecrypt_def)

lemma encryptDecrypt_twice: "encryptDecrypt (encryptDecrypt d key) key = d"
  by (rule nth_equalityI) (simp_all add: encryptDecrypt_def xor.assoc)

lemma length_decrypt_blocks [simp]: "length (decrypt_blocks key d) = length d"
proof (induction key d rule: decrypt_blocks.induct)
  case (1 key d)
  then show ?case by (cases "d = []") (simp_all add: decrypt_blocks.simps)
qed

lemma decrypt_blocks_twice: "decrypt_blocks key (decrypt_blocks key d) = d"
proof (induction key d rule: decrypt_blocks.induct)
  case (1 key d)
  show ?case
  proof (cases "d = []")
    case False
    let ?x = "encryptDecrypt (take 32 d) key" and ?y = "decrypt_blocks key (drop 32 d)"
    have "decrypt_blocks key d = ?x @ ?y" using False by (simp add: decrypt_blocks.simps [of _ d])
    moreover have t: "take 32 (?x @ ?y) = ?x" "drop 32 (?x @ ?y) = ?y"
      by (simp_all add: min_def decrypt_blocks.simps)
    moreover have n: "?x @ ?y \<noteq> []" using False by (cases d) (auto simp: encryptDecrypt_def)
    have "decrypt_blocks key (?x @ ?y) = encryptDecrypt (take 32 (?x @ ?y)) key @ decrypt_blocks key (drop 32 (?x @ ?y))"
      using n by (subst decrypt_blocks.simps) (simp only: if_False)
    then have "decrypt_blocks key (?x @ ?y) = d"
      unfolding t using 1 [OF False] by (simp add: encryptDecrypt_twice)
    ultimately show ?thesis by simp
  qed (simp add: decrypt_blocks.simps)
qed

end
