(* ===== verification/LocalGc.thy ===== *)
theory LocalGc
  imports LocalPut Joiner FileStore Mantaray
begin

text \<open>
  Deletion and garbage collection of the local store: the chunks below a root (\<^verbatim>\<open>mode_get.go\<close>), the removal of all
  of them (\<^verbatim>\<open>mode_set.go\<close>), the deletion of a file (\<^verbatim>\<open>localstore.go\<close>) and the selection of files to collect
  (\<^verbatim>\<open>gc.go\<close>). The target size is a parameter, because the code computes it in floating point. Slicing a byte slice
  beyond its length reads the rest of its backing array, which is the parameter \<open>spare\<close>. The depth of the
  recursion over the chunks is bounded by fuel; \<open>None\<close> is running out of it.
\<close>

section \<open>The chunks below a root\<close>

function transfer_addresses :: "bytes \<Rightarrow> address list option" where
  "transfer_addresses d =
     (if d = [] then Some []
      else if length d < HashSize then None
      else map_option (Cons (NewAddress (drop (length d - HashSize) d))) (transfer_addresses (take (length d - HashSize) d)))"
  by auto
termination
  by (relation "measure length") (auto simp: HashSize_def)

declare transfer_addresses.simps [simp del]

text \<open>\<open>getTransfer\<close>: \<open>None\<close> is a panic, \<open>Some None\<close> that there is no record.\<close>

definition getTransfer :: "address \<Rightarrow> tables \<Rightarrow> address list option option" where
  "getTransfer root ts =
     (case Index_Get TransferIndex ts (addressToItem root) of
        None \<Rightarrow> Some None
      | Some out \<Rightarrow> map_option Some (transfer_addresses (slice (iData out))))"

definition zero32 :: bytes where
  "zero32 = replicate 32 0"

fun node_chunks :: "(address \<Rightarrow> address list outcome option) \<Rightarrow> mnode list \<Rightarrow> address list outcome option" where
  "node_chunks get [] = Some (Ok [])"
| "node_chunks get (n # ns) =
     Option.bind (get (NewAddress (naddress n))) (\<lambda>r. case r of
       Panic \<Rightarrow> Some Panic
     | Fail e \<Rightarrow> node_chunks get ns
     | Ok ps \<Rightarrow> map_option (\<lambda>r. andthen r (\<lambda>qs. Ok (ps @ qs))) (node_chunks get ns))"

function ref_chunks :: "(address \<Rightarrow> address list outcome option) \<Rightarrow> bytes \<Rightarrow> nat \<Rightarrow> nat \<Rightarrow> address list outcome option" where
  "ref_chunks get d len i =
     (if len \<le> i then Some (Ok [])
      else if length d < i + HashSize then Some Panic
      else
        let ch = take HashSize (drop i d) in
        if ch = zero32 then ref_chunks get d len (i + HashSize)
        else Option.bind (get (NewAddress ch)) (\<lambda>r. case r of
               Panic \<Rightarrow> Some Panic
             | Fail e \<Rightarrow> Some (Fail e)
             | Ok ps \<Rightarrow> map_option (\<lambda>r. andthen r (\<lambda>qs. Ok (ps @ qs))) (ref_chunks get d len (i + HashSize))))"
  by auto
termination
  by (relation "measure (\<lambda>(get, d, len, i). len - i)") (auto simp: HashSize_def)

declare ref_chunks.simps [simp del]

fun getChunk :: "nat \<Rightarrow> (bytes \<Rightarrow> bytes) \<Rightarrow> tables \<Rightarrow> nat \<Rightarrow> address \<Rightarrow> address list outcome option" where
  "getChunk 0 spare ts t ch = None"
| "getChunk (Suc fuel) spare ts t ch =
     (case Index_Get DataIndex ts (addressToItem ch) of
        None \<Rightarrow> Some (Ok [])
      | Some i \<Rightarrow>
          let raw = slice (iData i); data = drop SpanSize raw; sz = wrap64 (int (Uint64 raw)) in
          if length raw < SpanSize then Some Panic
          else if sz \<le> int (length data) \<and> t = 1 then Some (Ok [ch])
          else
            (case (if sz \<le> int (length data) then UnmarshalBinary data else Some ([], None)) of
               None \<Rightarrow> Some Panic
             | Some (ns, _) \<Rightarrow>
                 Option.bind (node_chunks (getChunk fuel spare ts 0) ns) (\<lambda>r. case r of
                   Panic \<Rightarrow> Some Panic
                 | Fail e \<Rightarrow> Some (Fail e)
                 | Ok chs \<Rightarrow>
                     if ns \<noteq> [] then Some (Ok (chs @ [ch]))
                     else map_option (\<lambda>r. andthen r (\<lambda>ps. Ok (chs @ [ch] @ ps)))
                            (ref_chunks (getChunk fuel spare ts 1) (data @ spare raw) (length data) 0))))"

definition getAllChunks :: "nat \<Rightarrow> (bytes \<Rightarrow> bytes) \<Rightarrow> tables \<Rightarrow> address \<Rightarrow> address list outcome option" where
  "getAllChunks fuel spare ts root =
     (case getTransfer root ts of
        None \<Rightarrow> Some Panic
      | Some (Some chs) \<Rightarrow> Some (Ok chs)
      | Some None \<Rightarrow> getChunk fuel spare ts 0 root)"

section \<open>Removing all chunks of a root\<close>

definition setRemoveTransfer :: "address \<Rightarrow> 'k txn \<Rightarrow> 'k txn" where
  "setRemoveTransfer root t = DeleteInBatch TransferIndex (addressToItem root) t"

fun remove_chunks :: "('k, bitvector) storer \<Rightarrow> item \<Rightarrow> address list \<Rightarrow> 'k txn \<Rightarrow> int outcome \<times> 'k txn" where
  "remove_chunks ops i [] t = (Ok 0, t)"
| "remove_chunks ops i (a # as) t =
     (case setRemove ops a i t of
        (Panic, t1) \<Rightarrow> (Panic, t1)
      | (Fail e, t1) \<Rightarrow> (Fail e, t1)
      | (Ok c, t1) \<Rightarrow> (case remove_chunks ops i as t1 of (r, t2) \<Rightarrow> (andthen r (\<lambda>cs. Ok (c + cs)), t2)))"

definition setRemoveAll ::
  "nat \<Rightarrow> (bytes \<Rightarrow> bytes) \<Rightarrow> ('k, bitvector) storer \<Rightarrow> env \<Rightarrow> item \<Rightarrow> 'k localdb \<Rightarrow> (unit outcome \<times> 'k localdb) option" where
  "setRemoveAll fuel spare ops E i db =
     (let root = NewAddress (slice (iAddress i)) in
      map_option (\<lambda>r. case r of
          Panic \<Rightarrow> (Panic, db)
        | Fail e \<Rightarrow> (Fail e, db)
        | Ok chs \<Rightarrow>
            (case remove_chunks ops i chs (NewBatch db) of
               (Ok c, t) \<Rightarrow> finish_set E (Ok c, setRemoveTransfer root t)
             | rt \<Rightarrow> finish_set E rt))
        (getAllChunks fuel spare (tables db) root))"

record ('k, 'f) nodedb =
  ldb :: "'k localdb"
  filestore :: "'f fileStore"

definition commonDelete ::
  "nat \<Rightarrow> (bytes \<Rightarrow> bytes) \<Rightarrow> ('k, bitvector) storer \<Rightarrow> ('f, fs_value) storer \<Rightarrow> env \<Rightarrow> item \<Rightarrow> ('k, 'f) nodedb \<Rightarrow>
   (unit outcome \<times> ('k, 'f) nodedb) option" where
  "commonDelete fuel spare ops fops E i db =
     (let a = NewAddress (slice (iAddress i));
          db1 = db\<lparr>ldb := (ldb db)\<lparr>chunkstore := CancelFinder a (chunkstore (ldb db))\<rparr>\<rparr>
      in case fs_Delete fops a (filestore db1) of
           (Some e, fs) \<Rightarrow> Some (Fail ErrChunkStore, db1\<lparr>filestore := fs\<rparr>)
         | (None, fs) \<Rightarrow>
             map_option (\<lambda>(r, l). (r, db1\<lparr>filestore := fs, ldb := l\<rparr>)) (setRemoveAll fuel spare ops E i (ldb db1)))"

definition DeleteFile where
  "DeleteFile fuel spare ops fops E a db = commonDelete fuel spare ops fops E (addressToItem a) db"

definition gcFile where
  "gcFile fuel spare ops fops E i db = commonDelete fuel spare ops fops E i db"

section \<open>Garbage collection\<close>

definition gcBatchSize :: "64 word" where
  "gcBatchSize = 10000"

text \<open>The callback of the iteration over the gc index: the files to collect and the count of their chunks.\<close>

fun gc_candidates :: "64 word \<Rightarrow> 64 word \<Rightarrow> item list \<Rightarrow> 64 word \<Rightarrow> item list \<times> 64 word" where
  "gc_candidates sz target [] c = ([], c)"
| "gc_candidates sz target (i # is') c =
     (if sz - c \<le> target then ([], c)
      else
        let c1 = c + GCounter i in
        if gcBatchSize \<le> c1 then ([i], c1)
        else case gc_candidates sz target is' c1 of (cs, c2) \<Rightarrow> (i # cs, c2))"

fun gc_files ::
  "(item \<Rightarrow> ('k, 'f) nodedb \<Rightarrow> (unit outcome \<times> ('k, 'f) nodedb) option) \<Rightarrow> item list \<Rightarrow> unit outcome \<Rightarrow>
   ('k, 'f) nodedb \<Rightarrow> (unit outcome \<times> ('k, 'f) nodedb) option" where
  "gc_files del [] r db = Some (r, db)"
| "gc_files del (i # is') r db =
     Option.bind (del i db) (\<lambda>(r1, db1). if r1 = Panic then Some (Panic, db1) else gc_files del is' r1 db1)"

definition set_gcRunning :: "bool \<Rightarrow> ('k, 'f) nodedb \<Rightarrow> ('k, 'f) nodedb" where
  "set_gcRunning b db =
     db\<lparr>ldb := (if b then (ldb db)\<lparr>gcRunning := True\<rparr> else (ldb db)\<lparr>gcRunning := False, dirtyAddresses := []\<rparr>)\<rparr>"

text \<open>\<open>collectGarbage\<close>: the count, the error of the last deletion and the database.\<close>

definition collectGarbage ::
  "nat \<Rightarrow> (bytes \<Rightarrow> bytes) \<Rightarrow> ('k, bitvector) storer \<Rightarrow> ('f, fs_value) storer \<Rightarrow> env \<Rightarrow> 64 word \<Rightarrow> ('k, 'f) nodedb \<Rightarrow>
   (64 word \<times> unit outcome \<times> ('k, 'f) nodedb) option" where
  "collectGarbage fuel spare ops fops E target db =
     (let db1 = set_gcRunning True db; sz = gcSize (ldb db1) in
      if sz \<le> target then Some (0, Ok (), set_gcRunning False db1)
      else
        case gc_candidates sz target (Index_items GcIndex (tables (ldb db1))) 0 of
          (cs, c) \<Rightarrow>
            map_option (\<lambda>(r, db2). (c, r, set_gcRunning False db2))
              (gc_files (gcFile fuel spare ops fops E) cs (Ok ()) db1))"

text \<open>
  \<open>collectMemoryGarbage\<close>. The part of \<open>gcMemory\<close> that it subtracts is computed in floating point and is the
  parameter \<open>part\<close>; the new value is kept for the next call.
\<close>

fun gc_memory_candidates :: "64 word \<Rightarrow> item list \<Rightarrow> 64 word \<Rightarrow> item list \<times> 64 word" where
  "gc_memory_candidates chunks [] c = ([], c)"
| "gc_memory_candidates chunks (i # is') c =
     (let c1 = c + GCounter i in
      if chunks \<le> c1 then ([i], c1)
      else case gc_memory_candidates chunks is' c1 of (cs, c2) \<Rightarrow> (i # cs, c2))"

definition collectMemoryGarbage ::
  "nat \<Rightarrow> (bytes \<Rightarrow> bytes) \<Rightarrow> ('k, bitvector) storer \<Rightarrow> ('f, fs_value) storer \<Rightarrow> env \<Rightarrow> (64 word \<Rightarrow> 64 word) \<Rightarrow> ('k, 'f) nodedb \<Rightarrow>
   (64 word \<times> unit outcome \<times> ('k, 'f) nodedb) option" where
  "collectMemoryGarbage fuel spare ops fops E part db =
     (let db1 = set_gcRunning True db; m = getMemory E (readings (ldb db1));
          db2 = db1\<lparr>ldb := (ldb db1)\<lparr>readings := readings (ldb db1) + 1\<rparr>\<rparr>
      in if gcMemory (ldb db2) < m then Some (0, Ok (), set_gcRunning False db2)
         else
           let gm = gcMemory (ldb db2) - part (gcMemory (ldb db2));
               db3 = db2\<lparr>ldb := (ldb db2)\<lparr>gcMemory := gm\<rparr>\<rparr>
           in case gc_memory_candidates (gm div 256) (Index_items GcIndex (tables (ldb db3))) 0 of
                (cs, c) \<Rightarrow>
                  map_option (\<lambda>(r, db4). (c, if r = Panic then Panic else Ok (), set_gcRunning False db4))
                    (gc_files (gcFile fuel spare ops fops E) cs (Ok ()) db3))"

text \<open>The size that \<open>New\<close> finds in the gc index when it opens a database.\<close>

definition recount_gcSize :: "'k localdb \<Rightarrow> 'k localdb" where
  "recount_gcSize db =
     (let current = sum_list (map GCounter (Index_items GcIndex (tables db)))
      in if gcSize db < current then db\<lparr>gcSize := current\<rparr> else db)"

section \<open>What garbage collection selects\<close>

lemma take_mono_lex:
  fixes xs ys :: "'a :: linorder list"
  shows "xs \<le> ys \<Longrightarrow> take n xs \<le> take n ys"
proof (induction n arbitrary: xs ys)
  case (Suc n)
  then show ?case by (cases xs; cases ys) auto
qed simp

lemma of_be64_mono:
  assumes "x \<le> y" "length x = 8" "length y = 8"
  shows "of_be64 x \<le> of_be64 y"
proof -
  have "le_nat (rev x) < 256 ^ 8" "le_nat (rev y) < 256 ^ 8"
    using le_nat_less [of "rev x"] le_nat_less [of "rev y"] assms(2,3) by simp_all
  moreover have "le_nat (rev x) \<le> le_nat (rev y)"
    using le_nat_rev_less_iff [of y x] assms by (simp add: not_less [symmetric])
  ultimately show ?thesis using assms(2,3) by (simp add: of_be64_def word_le_nat_alt unat_of_nat)
qed

lemma Index_items_sorted:
  assumes "\<forall>(k, v) \<in> set (ts GcIndex). 16 \<le> length k"
  shows "sorted (map AccessTimestamp (Index_items GcIndex ts))"
proof -
  let ?l = "sort_key fst (ts GcIndex)"
  have "sorted_wrt (\<lambda>p q. fst p \<le> fst q) ?l" using sorted_sort_key [of fst "ts GcIndex"] by (simp add: sorted_map)
  then have "sorted_wrt (\<lambda>p q. of_be64 (take 8 (fst p)) \<le> of_be64 (take 8 (fst q))) ?l"
    by (rule sorted_wrt_mono_rel [rotated]) (use assms in \<open>force intro!: of_be64_mono take_mono_lex\<close>)
  moreover have "AccessTimestamp (Merge (DecodeKey GcIndex k) (DecodeValue GcIndex v)) = of_be64 (take 8 k)" for k v
    by (simp add: Merge_def zero_item_def DecodeValue.simps)
  ultimately show ?thesis by (simp add: Index_items_def sorted_map sorted_wrt_map case_prod_unfold)
qed

text \<open>The chunks that a list of gc entries counts.\<close>

definition gc_count :: "item list \<Rightarrow> nat" where
  "gc_count is' = sum_list (map (\<lambda>i. unat (GCounter i)) is')"

lemma gc_count_simps [simp]: "gc_count [] = 0" "gc_count (i # is') = unat (GCounter i) + gc_count is'"
    "gc_count (xs @ ys) = gc_count xs + gc_count ys"
  by (simp_all add: gc_count_def)

lemma gc_candidates_ok:
  assumes "gc_candidates sz target is' c = (cs, c')" "unat c + gc_count is' \<le> unat sz"
  shows "\<exists>rest. is' = cs @ rest \<and> unat c' = unat c + gc_count cs \<and>
    (rest = [] \<or> unat sz \<le> unat target + unat c' \<or> 10000 \<le> unat c') \<and>
    (cs \<noteq> [] \<longrightarrow> unat target + (unat c + gc_count (butlast cs)) < unat sz \<and>
       (butlast cs \<noteq> [] \<longrightarrow> unat c + gc_count (butlast cs) < 10000))"
  using assms
proof (induction sz target is' c arbitrary: cs c' rule: gc_candidates.induct)
  case (1 sz target c)
  then show ?case by simp
next
  case (2 sz target i is' c)
  have le: "unat c \<le> unat sz" using 2(3) by simp
  then have sub: "unat (sz - c) = unat sz - unat c" by (simp add: unat_sub word_le_nat_alt)
  show ?case
  proof (cases "sz - c \<le> target")
    case True
    then have "cs = []" "c' = c" using 2(2) by simp_all
    moreover have "unat sz \<le> unat target + unat c" using True sub le by (simp add: word_le_nat_alt)
    ultimately show ?thesis by simp
  next
    case False
    then have t: "unat target + unat c < unat sz" using sub le by (simp add: word_le_nat_alt)
    have "unat c + unat (GCounter i) < 2 ^ 64" using 2(3) unsigned_less [where 'a = nat, of sz] by simp
    then have c1: "unat (c + GCounter i) = unat c + unat (GCounter i)" by (simp add: unat_word_ariths)
    show ?thesis
    proof (cases "gcBatchSize \<le> c + GCounter i")
      case True
      then have "cs = [i]" "c' = c + GCounter i" using 2(2) False by (simp_all add: Let_def)
      moreover have "10000 \<le> unat (c + GCounter i)" using True by (simp add: gcBatchSize_def word_le_nat_alt)
      ultimately show ?thesis using t c1 by simp
    next
      case small: False
      obtain cs1 where r: "gc_candidates sz target is' (c + GCounter i) = (cs1, c')" "cs = i # cs1"
        using 2(2) False small by (auto simp: Let_def split: prod.splits)
      have "unat c + unat (GCounter i) < 10000" using small c1 by (simp add: gcBatchSize_def word_le_nat_alt)
      moreover obtain rest where "is' = cs1 @ rest" "unat c' = unat (c + GCounter i) + gc_count cs1"
          "rest = [] \<or> unat sz \<le> unat target + unat c' \<or> 10000 \<le> unat c'"
          "cs1 \<noteq> [] \<longrightarrow> unat target + (unat (c + GCounter i) + gc_count (butlast cs1)) < unat sz \<and>
             (butlast cs1 \<noteq> [] \<longrightarrow> unat (c + GCounter i) + gc_count (butlast cs1) < 10000)"
        using 2(1) [OF False refl small r(1)] 2(3) c1 by auto
      ultimately show ?thesis using r(2) c1 t by (auto simp: add.assoc)
    qed
  qed
qed

text \<open>
  C9. Garbage collection takes the least recently used files and no more than it needs. As long as the recorded
  gc size is not below the chunks counted in the gc index, the candidates are the entries with the oldest
  access times, the reported count is the number of their chunks, and it stops only when the size
  without them is at or below the target, when 10000 chunks have been reached, or at the end of the index;
  without the last candidate neither the target nor the limit had been reached.
\<close>

theorem gc_takes_oldest_and_enough:
  assumes "\<forall>(k, v) \<in> set (ts GcIndex). 16 \<le> length k" "gc_count (Index_items GcIndex ts) \<le> unat sz"
    and "gc_candidates sz target (Index_items GcIndex ts) 0 = (cs, c)"
  shows "\<exists>rest. Index_items GcIndex ts = cs @ rest \<and>
    (\<forall>x\<in>set cs. \<forall>y\<in>set rest. AccessTimestamp x \<le> AccessTimestamp y) \<and> unat c = gc_count cs \<and>
    (rest = [] \<or> unat sz - unat c \<le> unat target \<or> 10000 \<le> unat c) \<and>
    (cs \<noteq> [] \<longrightarrow> unat target < unat sz - gc_count (butlast cs) \<and> (butlast cs \<noteq> [] \<longrightarrow> gc_count (butlast cs) < 10000))"
proof -
  obtain rest where r: "Index_items GcIndex ts = cs @ rest" "unat c = gc_count cs"
      "rest = [] \<or> unat sz \<le> unat target + unat c \<or> 10000 \<le> unat c"
      "cs \<noteq> [] \<longrightarrow> unat target + gc_count (butlast cs) < unat sz \<and> (butlast cs \<noteq> [] \<longrightarrow> gc_count (butlast cs) < 10000)"
    using gc_candidates_ok [OF assms(3)] assms(2) by auto
  have "\<forall>x\<in>set cs. \<forall>y\<in>set rest. AccessTimestamp x \<le> AccessTimestamp y"
    using Index_items_sorted [of ts, OF assms(1)] unfolding r(1) by (auto simp: sorted_append)
  then show ?thesis using r by auto
qed

theorem gc_takes_oldest_and_enough_witness:
  "\<exists>cs c rest. gc_candidates 5 3 (Index_items GcIndex ((\<lambda>_. [])(GcIndex := [(be64 9 @ be64 1 @ [7], be64 1), (be64 4 @ be64 1 @ [8], be64 3)]))) 0 = (cs, c) \<and>
     Index_items GcIndex ((\<lambda>_. [])(GcIndex := [(be64 9 @ be64 1 @ [7], be64 1), (be64 4 @ be64 1 @ [8], be64 3)])) = cs @ rest \<and> unat c = gc_count cs"
proof -
  let ?ts = "(\<lambda>_. [])(GcIndex := [(be64 9 @ be64 1 @ [7], be64 1), (be64 4 @ be64 1 @ [8], be64 3)])"
  obtain cs c where g: "gc_candidates 5 3 (Index_items GcIndex ?ts) 0 = (cs, c)" by force
  have "\<forall>(k, v) \<in> set (?ts GcIndex). 16 \<le> length k" by simp
  moreover have "gc_count (Index_items GcIndex ?ts) \<le> unat (5 :: 64 word)"
    by (simp add: Index_items_def gc_count_def append_less_iff be64_less_iff Merge_def zero_item_def DecodeValue.simps)
  ultimately show ?thesis using gc_takes_oldest_and_enough [of ?ts, OF _ _ g] g by blast
qed

text \<open>If the recorded size is below the count of the index, the difference wraps around and everything is collected.\<close>

lemma gc_size_wraps:
  "gc_candidates 3 2 [zero_item\<lparr>GCounter := 5\<rparr>, zero_item\<lparr>GCounter := 1\<rparr>] 0 =
     ([zero_item\<lparr>GCounter := 5\<rparr>, zero_item\<lparr>GCounter := 1\<rparr>], 6)"
  by (simp add: gcBatchSize_def word_le_nat_alt)

section \<open>The gc entry of a file that is deleted\<close>

text \<open>Writes to the gc index that only store the counter \<open>g\<close> less one under its key.\<close>

definition lowers :: "item \<Rightarrow> lwrite \<Rightarrow> bool" where
  "lowers g w \<longleftrightarrow> other_index GcIndex w \<or> w = PutIndex GcIndex (EncodeKey GcIndex g) (be64 (GCounter g - 1))"

definition lowering :: "item \<Rightarrow> 'k txn \<Rightarrow> 'k txn \<Rightarrow> bool" where
  "lowering g t t' \<longleftrightarrow> tables (tdb t') = tables (tdb t) \<and> gcSize (tdb t') = gcSize (tdb t) \<and>
     (\<exists>ws. tbatch t' = tbatch t @ ws \<and> list_all (lowers g) ws)"

lemma lowering_refl [simp, intro]: "lowering g t t"
  by (simp add: lowering_def)

lemma lowering_trans: "lowering g t t1 \<Longrightarrow> lowering g t1 t2 \<Longrightarrow> lowering g t t2"
  by (auto simp: lowering_def)

lemma lowering_writes [simp]:
  "ix \<noteq> GcIndex \<Longrightarrow> lowering g t (PutInBatch ix i t)"
  "ix \<noteq> GcIndex \<Longrightarrow> lowering g t (DeleteInBatch ix i t)"
  "lowering g t (PutInBatch GcIndex (g\<lparr>GCounter := GCounter g - 1\<rparr>) t)"
  by (simp_all add: lowering_def lowers_def PutInBatch_def DeleteInBatch_def add_write_def EncodeValue.simps)

lemma deleteFile_lowering: "deleteFile ops a t = (r, t') \<Longrightarrow> lowering g t t'"
proof -
  have "deleteFile_types ops cts a t = (r, t') \<Longrightarrow> lowering g t t'" for cts
  proof (induction ops cts a t rule: deleteFile_types.induct)
    case (2 ops ct cts a t)
    obtain x t1 where x: "remove_all_of ops ct a t = (x, t1)" by force
    have l: "lowering g t t1" using x by (auto simp: remove_all_of_def lowering_def split: option.splits)
    show ?case using 2 x lowering_trans [OF l] l by (cases x) auto
  qed auto
  then show "deleteFile ops a t = (r, t') \<Longrightarrow> lowering g t t'" unfolding deleteFile_def by blast
qed

text \<open>The situation of a root with a gc entry that counts more than one chunk.\<close>

definition counted :: "tables \<Rightarrow> bytes \<Rightarrow> item \<Rightarrow> bool" where
  "counted ts root g \<longleftrightarrow> root \<noteq> [] \<and> iAddress g = Some root \<and> AccessTimestamp g \<noteq> 0 \<and> BinID g \<noteq> 0 \<and> 1 < GCounter g \<and>
     map_of (ts AccessIndex) root = Some (be64 (AccessTimestamp g)) \<and>
     (\<exists>v. map_of (ts DataIndex) root = Some v \<and> of_be64 v = BinID g) \<and>
     map_of (ts GcIndex) (EncodeKey GcIndex g) = Some (be64 (GCounter g))"

lemma gc_Get_counted:
  assumes "counted ts root g" "AccessTimestamp r = AccessTimestamp g" "BinID r = BinID g" "iAddress r = Some root"
  shows "\<exists>g1. Index_Get GcIndex ts r = Some g1 \<and> GCounter g1 = GCounter g \<and> EncodeKey GcIndex g1 = EncodeKey GcIndex g"
proof -
  have "EncodeKey GcIndex r = EncodeKey GcIndex g" using assms by (simp add: counted_def)
  then have "Index_Get GcIndex ts r = Some (Merge (DecodeValue GcIndex (be64 (GCounter g))) r)"
    using assms(1) by (simp add: counted_def Index_Get_def del: EncodeKey.simps)
  moreover have "GCounter g \<noteq> 0" using assms(1) by (auto simp: counted_def)
  ultimately show ?thesis using assms by (auto simp: counted_def Merge_def zero_item_def DecodeValue.simps)
qed

lemma gcRemove_entry_lowering:
  assumes "gcRemove_entry ops r t = (x, t')" "counted (tables (tdb t)) root g"
    "AccessTimestamp r = AccessTimestamp g" "BinID r = BinID g" "iAddress r = Some root"
  shows "lowering g t t'"
proof -
  obtain y t1 where d: "deleteFile ops (NewAddress (slice (iAddress r))) t = (y, t1)" by force
  have l: "lowering g t t1" by (rule deleteFile_lowering [OF d])
  then have c: "counted (tables (tdb t1)) root g" using assms(2) by (simp add: lowering_def)
  obtain g1 where g1: "Index_Get GcIndex (tables (tdb t1)) r = Some g1" "GCounter g1 = GCounter g" "EncodeKey GcIndex g1 = EncodeKey GcIndex g"
    using gc_Get_counted [OF c assms(3-5)] by blast
  have "PutInBatch GcIndex (g1\<lparr>GCounter := GCounter g1 - 1\<rparr>) t1 = PutInBatch GcIndex (g\<lparr>GCounter := GCounter g - 1\<rparr>) t1"
    using g1(2,3) by (simp add: PutInBatch_def EncodeValue.simps)
  then have "lowering g t1 (PutInBatch GcIndex (g1\<lparr>GCounter := GCounter g1 - 1\<rparr>) t1)" by simp
  moreover have "1 < GCounter g1" using c g1(2) by (simp add: counted_def)
  ultimately show ?thesis using assms(1) d g1(1) l lowering_trans [OF l] by (cases y) (auto simp: gcRemove_entry_def)
qed

lemma access_Get_counted:
  assumes "counted ts root g" "iAddress r = Some root"
  shows "\<exists>a. Index_Get AccessIndex ts r = Some a \<and> AccessTimestamp a = AccessTimestamp g"
  using assms by (auto simp: counted_def Index_Get_def Merge_def zero_item_def DecodeValue.simps)

lemma data_Get_counted:
  assumes "counted ts root g" "iAddress r = Some root"
  shows "\<exists>d. Index_Get DataIndex ts r = Some d \<and> BinID d = BinID g \<and> iAddress d = Some root"
proof -
  obtain v where "map_of (ts DataIndex) root = Some v" "of_be64 v = BinID g" "BinID g \<noteq> 0" using assms(1) by (auto simp: counted_def)
  then show ?thesis using assms(2) by (simp add: Index_Get_def Merge_def zero_item_def DecodeValue.simps)
qed

lemma gcRemove_lowering:
  assumes "gcRemove ops r t = (x, t')" "counted (tables (tdb t)) root g" "iAddress r = Some root"
    "StoreTimestamp r = 0 \<or> AccessTimestamp r = AccessTimestamp g \<and> BinID r = BinID g"
  shows "lowering g t t'"
proof (cases "StoreTimestamp r = 0")
  case True
  obtain d where d: "Index_Get DataIndex (tables (tdb t)) r = Some d" "BinID d = BinID g" using data_Get_counted [OF assms(2,3)] by blast
  let ?r = "r\<lparr>StoreTimestamp := StoreTimestamp d, BinID := BinID d\<rparr>"
  obtain a where a: "Index_Get AccessIndex (tables (tdb t)) ?r = Some a" "AccessTimestamp a = AccessTimestamp g"
    using access_Get_counted [OF assms(2), of ?r] assms(3) by auto
  have "gcRemove_entry ops (?r\<lparr>AccessTimestamp := AccessTimestamp a\<rparr>) t = (x, t')"
    using assms(1) True d(1) a(1) by (simp add: gcRemove_def Let_def)
  then show ?thesis by (rule gcRemove_entry_lowering [OF _ assms(2)]) (use a(2) d(2) assms(3) in simp_all)
next
  case False
  then show ?thesis using assms gcRemove_entry_lowering [OF _ assms(2)] by (simp add: gcRemove_def)
qed

lemma setRemove_lowering:
  assumes "setRemove ops a i t = (x, t')" "counted (tables (tdb t)) root g" "iAddress i = Some root" "StoreTimestamp i = 0"
  shows "lowering g t t'"
proof (cases "Get DataIndex t (addressToItem a)")
  case None
  then show ?thesis using assms gcRemove_lowering [OF _ assms(2)] by (simp add: setRemove_def)
next
  case (Some d)
  define d1 where "d1 = (case Get AccessIndex t d of None \<Rightarrow> d | Some ac \<Rightarrow> d\<lparr>AccessTimestamp := AccessTimestamp ac\<rparr>)"
  define D where "D = (\<lambda>t1. if Equal a (NewAddress (slice (iAddress i))) then gcRemove ops d1 (DeleteInBatch DataIndex d1 t1)
         else gcRemove ops i (DeleteInBatch AccessIndex d1 (DeleteInBatch DataIndex d1 t1)))"
  have drop: "lowering g t1 t2" if "D t1 = (y, t2)" "tables (tdb t1) = tables (tdb t)" for t1 t2 y
  proof (cases "Equal a (NewAddress (slice (iAddress i)))")
    case True
    then have root: "iAddress (addressToItem a) = Some root"
      using assms(2,3) by (simp add: Equal_def NewAddress_def addressToItem_def addr_slice_def counted_def)
    from data_Get_counted [OF assms(2) this] Some have d: "BinID d = BinID g" "iAddress d = Some root" by simp_all
    from access_Get_counted [OF assms(2) d(2)] have "AccessTimestamp d1 = AccessTimestamp g" "BinID d1 = BinID g" "iAddress d1 = Some root"
      using d by (auto simp: d1_def)
    moreover have "counted (tables (tdb (DeleteInBatch DataIndex d1 t1))) root g" using assms(2) that(2) by (simp add: DeleteInBatch_def add_write_def)
    ultimately have "lowering g (DeleteInBatch DataIndex d1 t1) t2" using gcRemove_lowering that(1) True unfolding D_def by (metis (full_types))
    then show ?thesis by (rule lowering_trans [rotated]) simp
  next
    case False
    let ?t = "DeleteInBatch AccessIndex d1 (DeleteInBatch DataIndex d1 t1)"
    have "counted (tables (tdb ?t)) root g" using assms(2) that(2) by (simp add: DeleteInBatch_def add_write_def)
    then have "lowering g ?t t2" using gcRemove_lowering that(1) False assms(3,4) unfolding D_def by (metis (full_types))
    moreover have "lowering g t1 ?t" by (rule lowering_trans [of g t1 "DeleteInBatch DataIndex d1 t1"]) simp_all
    ultimately show ?thesis by (rule lowering_trans [rotated])
  qed
  have pin: "lowering g t (DeleteInBatch PinIndex d1 t)" by simp
  have eq: "setRemove ops a i t =
    (if 1 < Counter d then (Ok 0, PutInBatch DataIndex (d\<lparr>Counter := Counter d - 1\<rparr>) t)
     else case Get PinIndex t d1 of None \<Rightarrow> D t
       | Some p \<Rightarrow> if 0 < PinCounter p - 1 then (Ok 0, PutInBatch PinIndex (p\<lparr>PinCounter := PinCounter p - 1\<rparr>) t)
                   else D (DeleteInBatch PinIndex d1 t))"
    unfolding setRemove_def Some d1_def D_def Let_def by (simp cong: option.case_cong)
  have tab: "tables (tdb (DeleteInBatch PinIndex d1 t)) = tables (tdb t)" by (simp add: DeleteInBatch_def add_write_def)
  show ?thesis
    using assms(1) drop [of t x t'] lowering_trans [OF pin drop [OF _ tab, of x t']] unfolding eq
    by (auto split: if_splits option.splits)
qed

lemma remove_chunks_lowering:
  "remove_chunks ops i as t = (x, t') \<Longrightarrow> counted (tables (tdb t)) root g \<Longrightarrow> iAddress i = Some root \<Longrightarrow> StoreTimestamp i = 0 \<Longrightarrow>
   lowering g t t'"
proof (induction as arbitrary: t x t')
  case (Cons a as)
  obtain y t1 where y: "setRemove ops a i t = (y, t1)" by force
  have l: "lowering g t t1" by (rule setRemove_lowering [OF y Cons(3-5)])
  then have c: "counted (tables (tdb t1)) root g" using Cons(3) by (simp add: lowering_def)
  show ?case
    using Cons(2) y l Cons(1) [OF _ c Cons(4,5)] lowering_trans [OF l] by (cases y) (auto split: prod.splits)
qed auto

lemma incGCSizeInBatch_lowering: "lowering g t (incGCSizeInBatch E c t)"
  by (simp add: incGCSizeInBatch_def lowering_def lowers_def add_write_def triggerGarbageCollection_def
    triggerGarbageMemoryCollection_def Let_def)

lemma lowering_commit:
  assumes "lowering g (NewBatch db) t" "map_of (tables db GcIndex) (EncodeKey GcIndex g) = Some (be64 (GCounter g))"
  shows "map_of (tables (Commit t) GcIndex) (EncodeKey GcIndex g) \<in> {Some (be64 (GCounter g)), Some (be64 (GCounter g - 1))}"
proof -
  let ?k = "EncodeKey GcIndex g" and ?S = "{Some (be64 (GCounter g)), Some (be64 (GCounter g - 1))}"
  have "list_all (lowers g) ws \<Longrightarrow> m ?k \<in> ?S \<Longrightarrow> fold (write_map GcIndex) ws m ?k \<in> ?S" for ws m
  proof (induction ws arbitrary: m)
    case (Cons w ws)
    have "write_map GcIndex w m ?k \<in> ?S" using Cons(2,3) by (cases w) (auto simp: lowers_def)
    then show ?case using Cons by simp
  qed simp
  then show ?thesis using assms by (auto simp: Commit_def map_of_commit lowering_def NewBatch_def)
qed

lemma setRemoveAll_gc_entry:
  assumes "setRemoveAll fuel spare ops E i db = Some (r, db')" "counted (tables db) root g" "iAddress i = Some root" "StoreTimestamp i = 0"
  shows "map_of (tables db' GcIndex) (EncodeKey GcIndex g) \<in> {Some (be64 (GCounter g)), Some (be64 (GCounter g - 1))}"
proof -
  have gc: "map_of (tables db GcIndex) (EncodeKey GcIndex g) = Some (be64 (GCounter g))" using assms(2) unfolding counted_def by blast
  obtain x where x: "getAllChunks fuel spare (tables db) (NewAddress (slice (iAddress i))) = Some x"
    using assms(1) by (auto simp: setRemoveAll_def Let_def)
  show ?thesis
  proof (cases x)
    case (Ok chs)
    obtain y t where y: "remove_chunks ops i chs (NewBatch db) = (y, t)" by force
    have l: "lowering g (NewBatch db) t"
      by (rule remove_chunks_lowering [OF y _ assms(3,4)]) (use assms(2) in \<open>simp add: NewBatch_def\<close>)
    have same: "tables (tdb t) = tables db" using l by (simp add: lowering_def NewBatch_def)
    have "lowering g (NewBatch db) (incGCSizeInBatch E c (setRemoveTransfer a t))" for c a
      by (rule lowering_trans [OF lowering_trans [OF l] incGCSizeInBatch_lowering]) (simp add: setRemoveTransfer_def)
    note lowering_commit [OF this gc]
    then show ?thesis using assms(1) x Ok y same gc
      by (cases y) (auto simp: setRemoveAll_def finish_set_def)
  qed (use assms(1) x gc in \<open>auto simp: setRemoveAll_def\<close>)
qed

lemma gcFile_without_data:
  assumes "map_of (tables (ldb db) DataIndex) root = None" "map_of (tables (ldb db) TransferIndex) root = None"
    "iAddress i = Some root" "root \<noteq> []" "gcFile (Suc fuel) spare ops fops E i db = Some (Ok (), db')"
  shows "tables (ldb db') GcIndex = tables (ldb db) GcIndex \<and> gcSize (ldb db') = gcSize (ldb db)"
proof -
  have "getAllChunks (Suc fuel) spare (tables (ldb db)) (NewAddress root) = Some (Ok [])"
    using assms(1-4) by (simp add: getAllChunks_def getTransfer_def Index_Get_def addressToItem_def addr_slice_def NewAddress_def)
  then show ?thesis using assms(3,5)
    by (auto simp: gcFile_def commonDelete_def Let_def setRemoveAll_def finish_set_def setRemoveTransfer_def NewBatch_def
      incGCSizeInBatch_def Commit_def DeleteInBatch_def add_write_def split: prod.splits option.splits)
qed

lemma quiet_Commit: "quiet ix t t' \<Longrightarrow> map_of (tables (Commit t') ix) = map_of (tables (Commit t) ix)"
  by (auto simp: quiet_def Commit_def map_of_commit fold_other_index)

lemmas Commit_gcSize = quiet_Commit [OF quiet_incGCSize]


definition file_root :: bytes where
  "file_root = replicate 32 1"

definition file_gc :: item where
  "file_gc = zero_item\<lparr>iAddress := Some file_root, AccessTimestamp := 5, BinID := 1, GCounter := 2\<rparr>"

definition file_tables :: tables where
  "file_tables = (\<lambda>_. [])
     (DataIndex := [(file_root, EncodeValue DataIndex (zero_item\<lparr>BinID := 1, StoreTimestamp := 4, Counter := 1, iData := Some [7]\<rparr>))],
      AccessIndex := [(file_root, be64 5)],
      TransferIndex := [(file_root, file_root)],
      GcIndex := [(EncodeKey GcIndex file_gc, be64 2)])"

definition file_db :: "(unit, unit) nodedb" where
  "file_db = \<lparr>ldb = fresh_db\<lparr>tables := file_tables, gcSize := 2\<rparr>, filestore = fileStore_New ()\<rparr>"

lemma file_counted: "counted (tables (ldb file_db)) file_root file_gc"
  by (simp add: counted_def file_db_def file_tables_def file_gc_def file_root_def zero_item_def EncodeValue.simps)

lemma deleteFile_fresh:
  "chunkstore (tdb t) = (chunkStore_New ())\<lparr>finder := F\<rparr> \<Longrightarrow> deleteFile ops a t = (Ok (), t)"
  by (simp add: deleteFile_def remove_all_of_def chunkStore_RemoveAll_def removeDiscover_def removeService_def removeSource_def
    remove_file_def chunkStore_New_def)


end
