(* ===== verification/Encryption.thy ===== *)
theory Encryption
  imports FilePipeline
begin

text \<open>
  Encryption of chunks: the counter mode cipher (\<^verbatim>\<open>src/pkg/encryption/encryption.go\<close>), the encryption of a chunk
  (\<^verbatim>\<open>chunk_encryption.go\<close>), the decrypting store (\<^verbatim>\<open>store/decrypt_store.go\<close>) and the encrypting file pipeline
  (\<^verbatim>\<open>src/pkg/file/pipeline/encryption/encryption.go\<close>). The hash function \<open>H\<close> is a parameter. Random bytes come from a
  stream \<open>rnd\<close>, and the number of bytes taken from it is part of the state.
\<close>

section \<open>The cipher\<close>

definition KeyLength :: nat where
  "KeyLength = 32"

definition ReferenceSize :: nat where
  "ReferenceSize = 64"

type_synonym random = "nat \<Rightarrow> byte"

definition rand_Read :: "random \<Rightarrow> nat \<Rightarrow> nat \<Rightarrow> bytes" where
  "rand_Read rnd pos l = map (\<lambda>i. rnd (pos + i)) [0..<l]"

definition GenerateRandomKey :: "random \<Rightarrow> nat \<Rightarrow> nat \<Rightarrow> bytes \<times> nat" where
  "GenerateRandomKey rnd l pos = (rand_Read rnd pos l, pos + l)"

record encryption =
  ekey :: bytes
  keyLen :: nat
  epadding :: nat
  eindex :: nat
  initCtr :: "32 word"

definition Encryption_New :: "bytes \<Rightarrow> nat \<Rightarrow> 32 word \<Rightarrow> encryption" where
  "Encryption_New key padding ctr = \<lparr>ekey = key, keyLen = length key, epadding = padding, eindex = 0, initCtr = ctr\<rparr>"

definition Encryption_Reset :: "encryption \<Rightarrow> encryption" where
  "Encryption_Reset e = e\<lparr>eindex := 0\<rparr>"

text \<open>The key of a segment, and the transformation of one segment into \<open>outLen\<close> bytes.\<close>

definition segmentKey :: "(bytes \<Rightarrow> bytes) \<Rightarrow> encryption \<Rightarrow> nat \<Rightarrow> bytes" where
  "segmentKey H e i = H (H (ekey e @ le_bytes 4 (unat (word_of_nat i + initCtr e))))"

definition Transcrypt ::
  "(bytes \<Rightarrow> bytes) \<Rightarrow> random \<Rightarrow> encryption \<Rightarrow> nat \<Rightarrow> bytes \<Rightarrow> nat \<Rightarrow> nat \<Rightarrow> (bytes \<times> nat) outcome" where
  "Transcrypt H rnd e i inp outLen pos =
     (if length (segmentKey H e i) < length inp \<or> outLen < length inp then Panic
      else Ok (map2 xor inp (segmentKey H e i) @ rand_Read rnd pos (outLen - length inp), pos + (outLen - length inp)))"

text \<open>\<open>transform\<close>; with an empty key its loop does not end on data, which is \<open>None\<close>.\<close>

function transform_loop ::
  "(bytes \<Rightarrow> bytes) \<Rightarrow> random \<Rightarrow> encryption \<Rightarrow> bytes \<Rightarrow> nat \<Rightarrow> (bytes \<times> encryption \<times> nat) outcome option" where
  "transform_loop H rnd e inp pos =
     (if inp = [] then Some (Ok ([], e, pos))
      else if keyLen e = 0 then None
      else
        let l = min (keyLen e) (length inp) in
        case Transcrypt H rnd e (eindex e) (take l inp) l pos of
          Panic \<Rightarrow> Some Panic
        | Fail x \<Rightarrow> Some (Fail x)
        | Ok (out, pos1) \<Rightarrow>
            map_option (\<lambda>r. andthen r (\<lambda>(rest, e2, pos2). Ok (out @ rest, e2, pos2)))
              (transform_loop H rnd (e\<lparr>eindex := eindex e + 1\<rparr>) (drop l inp) pos1))"
  by auto
termination
  by (relation "measure (\<lambda>(H, rnd, e, inp, pos). length inp)") auto

declare transform_loop.simps [simp del]

definition transform ::
  "(bytes \<Rightarrow> bytes) \<Rightarrow> random \<Rightarrow> encryption \<Rightarrow> bytes \<Rightarrow> nat \<Rightarrow> nat \<Rightarrow> (bytes \<times> encryption \<times> nat) outcome option" where
  "transform H rnd e inp outLen pos =
     map_option (\<lambda>r. andthen r (\<lambda>(out, e1, pos1).
         Ok (out @ rand_Read rnd pos1 (outLen - length inp), e1, pos1 + (outLen - length inp))))
       (transform_loop H rnd e inp pos)"

definition Encrypt ::
  "(bytes \<Rightarrow> bytes) \<Rightarrow> random \<Rightarrow> encryption \<Rightarrow> bytes \<Rightarrow> nat \<Rightarrow> (bytes \<times> encryption \<times> nat) outcome option" where
  "Encrypt H rnd e data pos =
     (if 0 < epadding e then
        if epadding e < length data then Some (Fail ErrLonger) else transform H rnd e data (epadding e) pos
      else transform H rnd e data (length data) pos)"

definition Decrypt ::
  "(bytes \<Rightarrow> bytes) \<Rightarrow> random \<Rightarrow> encryption \<Rightarrow> bytes \<Rightarrow> nat \<Rightarrow> (bytes \<times> encryption \<times> nat) outcome option" where
  "Decrypt H rnd e data pos =
     (if 0 < epadding e \<and> length data \<noteq> epadding e then Some (Fail ErrDifferent)
      else transform H rnd e data (length data) pos)"

section \<open>Chunks\<close>

definition newSpanEncryption :: "bytes \<Rightarrow> encryption" where
  "newSpanEncryption key = Encryption_New key 0 (word_of_nat (ChunkSize div (HashSize + KeyLength)))"

definition newDataEncryption :: "bytes \<Rightarrow> encryption" where
  "newDataEncryption key = Encryption_New key ChunkSize 0"

text \<open>The ciphers of a chunk have a key of 32 bytes, so their loops end (\<open>transform_total\<close> below).\<close>

definition returning :: "'a outcome option \<Rightarrow> 'a outcome" where
  "returning r = (case r of None \<Rightarrow> Panic | Some x \<Rightarrow> x)"

definition EncryptChunk ::
  "(bytes \<Rightarrow> bytes) \<Rightarrow> random \<Rightarrow> bytes \<Rightarrow> nat \<Rightarrow> (bytes \<times> bytes \<times> bytes \<times> nat) outcome" where
  "EncryptChunk H rnd chunkData pos =
     (case GenerateRandomKey rnd KeyLength pos of (key, pos1) \<Rightarrow>
        if length chunkData < 8 then Panic
        else
          andthen (returning (Encrypt H rnd (newSpanEncryption key) (take 8 chunkData) pos1)) (\<lambda>(encryptedSpan, _, pos2).
            andthen (returning (Encrypt H rnd (newDataEncryption key) (drop 8 chunkData) pos2)) (\<lambda>(encryptedData, _, pos3).
              Ok (key, encryptedSpan, encryptedData, pos3))))"

text \<open>The number of bytes of a chunk with a given span that are not padding; 64-bit arithmetic.\<close>

function data_length :: "nat \<Rightarrow> nat" where
  "data_length len =
     (if len \<le> ChunkSize \<or> 2 ^ 64 \<le> len then len
      else data_length ((len + (ChunkSize - 1)) mod 2 ^ 64 div ChunkSize * (HashSize + KeyLength) mod 2 ^ 64))"
  by auto
termination
proof (relation "measure id")
  fix len :: nat
  assume "\<not> (len \<le> ChunkSize \<or> 2 ^ 64 \<le> len)"
  then have l: "262144 < len" by (simp add: ChunkSize_def)
  have "(len + 262143) mod 2 ^ 64 div 262144 * 64 \<le> (len + 262143) div 262144 * 64"
    by (intro mult_le_mono1 div_le_mono mod_less_eq_dividend)
  also have "\<dots> < len" using l by linarith
  finally show "((len + (ChunkSize - 1)) mod 2 ^ 64 div ChunkSize * (HashSize + KeyLength) mod 2 ^ 64, len) \<in> measure id"
    by (simp add: ChunkSize_def HashSize_def KeyLength_def)
qed simp

declare data_length.simps [simp del]

definition decrypt :: "(bytes \<Rightarrow> bytes) \<Rightarrow> bytes \<Rightarrow> bytes \<Rightarrow> (bytes \<times> bytes) outcome" where
  "decrypt H chunkData key =
     (if length chunkData < SpanSize then Panic
      else
        andthen (returning (Decrypt H (\<lambda>_. 0) (newSpanEncryption key) (take SpanSize chunkData) 0)) (\<lambda>(decryptedSpan, _, _).
          andthen (returning (Decrypt H (\<lambda>_. 0) (newDataEncryption key) (drop SpanSize chunkData) 0)) (\<lambda>(decryptedData, _, _).
            Ok (decryptedSpan, decryptedData))))"

definition decryptChunkData :: "(bytes \<Rightarrow> bytes) \<Rightarrow> bytes \<Rightarrow> bytes \<Rightarrow> bytes outcome" where
  "decryptChunkData H chunkData key =
     andthen (decrypt H chunkData key) (\<lambda>(decryptedSpan, decryptedData).
       let len = data_length (Uint64 decryptedSpan) in
       if length decryptedData < len then Panic
       else Ok (decryptedSpan @ take len decryptedData))"

definition decryptingStore_Get ::
  "(bytes \<Rightarrow> bytes) \<Rightarrow> (bytes \<Rightarrow> int \<Rightarrow> bytes outcome) \<Rightarrow> bytes \<Rightarrow> int \<Rightarrow> bytes outcome" where
  "decryptingStore_Get H getter ref index =
     (if length ref = HashSize then getter ref index
      else if length ref = ReferenceSize then
        andthen (getter (take HashSize ref) index) (\<lambda>d. decryptChunkData H d (drop HashSize ref))
      else Fail ErrReferenceLength)"

section \<open>The encrypting pipeline\<close>

type_synonym 'k enc_log = "'k store_log \<times> nat"

text \<open>The encryption writer with the BMT and the store writer behind it; the result is the reference with the key.\<close>

definition enc_ChainWrite ::
  "(bytes \<Rightarrow> bytes) \<Rightarrow> random \<Rightarrow> env \<Rightarrow> ModePut \<Rightarrow> address \<Rightarrow> bytes \<Rightarrow> 'k enc_log \<Rightarrow> (bytes \<times> 'k enc_log) outcome" where
  "enc_ChainWrite H rnd E mode root d s =
     andthen (EncryptChunk H rnd d (snd s)) (\<lambda>(key, encryptedSpan, encryptedData, pos).
       andthen (bmt_ChainWrite H E mode root (encryptedSpan @ encryptedData) (fst s)) (\<lambda>(ref, s1).
         Ok (ref @ key, (s1, pos))))"

definition encrypted_upload ::
  "(nat \<Rightarrow> bool) \<Rightarrow> (bytes \<Rightarrow> bytes) \<Rightarrow> random \<Rightarrow> env \<Rightarrow> ModePut \<Rightarrow> address \<Rightarrow> reader_result list \<Rightarrow> 'k enc_log \<Rightarrow>
   (bytes \<times> hashtrie \<times> 'k enc_log) outcome option" where
  "encrypted_upload canceled H rnd E mode root reads s =
     FeedPipeline canceled (enc_ChainWrite H rnd E mode root) ChunkSize (nat (Branches div 2)) (HashSize + KeyLength) reads s"

section \<open>The cipher is its own inverse\<close>

text \<open>What the cipher does with data, byte by byte.\<close>

definition crypt :: "(bytes \<Rightarrow> bytes) \<Rightarrow> encryption \<Rightarrow> bytes \<Rightarrow> bytes" where
  "crypt H e d = map (\<lambda>j. xor (d ! j) (segmentKey H e (eindex e + j div keyLen e) ! (j mod keyLen e))) [0..<length d]"

lemma length_crypt [simp]: "length (crypt H e d) = length d"
  by (simp add: crypt_def)

lemma nth_crypt: "j < length d \<Longrightarrow> crypt H e d ! j = xor (d ! j) (segmentKey H e (eindex e + j div keyLen e) ! (j mod keyLen e))"
  by (simp add: crypt_def)

lemma crypt_twice [simp]: "crypt H e (crypt H e d) = d"
  by (rule nth_equalityI) (simp_all add: nth_crypt xor.assoc)

lemma take_crypt: "take n (crypt H e d) = crypt H e (take n d)"
  by (rule nth_equalityI) (simp_all add: nth_crypt)

lemma segmentKey_index [simp]: "segmentKey H (e\<lparr>eindex := n\<rparr>) i = segmentKey H e i"
  by (simp add: segmentKey_def)

lemma crypt_step:
  assumes "0 < keyLen e" "length (segmentKey H e (eindex e)) = keyLen e" "l = min (keyLen e) (length d)"
  shows "crypt H e d = map2 xor (take l d) (segmentKey H e (eindex e)) @ crypt H (e\<lparr>eindex := eindex e + 1\<rparr>) (drop l d)"
proof (rule nth_equalityI)
  show "length (crypt H e d) = length (map2 xor (take l d) (segmentKey H e (eindex e)) @ crypt H (e\<lparr>eindex := eindex e + 1\<rparr>) (drop l d))"
    using assms by simp
  fix j assume "j < length (crypt H e d)"
  then have j: "j < length d" by simp
  show "crypt H e d ! j = (map2 xor (take l d) (segmentKey H e (eindex e)) @ crypt H (e\<lparr>eindex := eindex e + 1\<rparr>) (drop l d)) ! j"
  proof (cases "j < l")
    case True
    then show ?thesis using assms j by (simp add: nth_append nth_crypt)
  next
    case False
    then have l: "l = keyLen e" "keyLen e \<le> j" using assms(3) j by auto
    then obtain q where q: "j = q + keyLen e" by (metis le_add_diff_inverse2)
    moreover have "(q + keyLen e) div keyLen e = Suc (q div keyLen e)" using assms(1) by (simp add: div_add_self2)
    ultimately show ?thesis using assms(1,2) j l by (simp add: nth_append nth_crypt add.commute [of _ q])
  qed
qed

lemma rand_Read_0 [simp]: "rand_Read rnd pos 0 = []"
  by (simp add: rand_Read_def)

lemma length_rand_Read [simp]: "length (rand_Read rnd pos l) = l"
  by (simp add: rand_Read_def)

lemma transform_loop_crypt:
  assumes "\<And>x. length (H x) = HashSize"
  shows "keyLen e = HashSize \<Longrightarrow> \<exists>e'. transform_loop H rnd e d pos = Some (Ok (crypt H e d, e', pos))"
proof (induction "length d" arbitrary: e d rule: less_induct)
  case less
  show ?case
  proof (cases "d = []")
    case True
    then show ?thesis by (simp add: transform_loop.simps crypt_def)
  next
    case False
    define l where "l = min (keyLen e) (length d)"
    have k: "0 < keyLen e" "length (segmentKey H e (eindex e)) = keyLen e"
      using less(2) assms by (simp_all add: HashSize_def segmentKey_def)
    have l: "0 < l" "length (take l d) = l" "l \<le> keyLen e" using False k(1) by (auto simp: l_def)
    have "length (drop l d) < length d" using False l(1) by simp
    from less(1) [OF this, of "e\<lparr>eindex := eindex e + 1\<rparr>"] obtain e' where
      "transform_loop H rnd (e\<lparr>eindex := eindex e + 1\<rparr>) (drop l d) pos = Some (Ok (crypt H (e\<lparr>eindex := eindex e + 1\<rparr>) (drop l d), e', pos))"
      using less(2) by auto
    moreover have "Transcrypt H rnd e (eindex e) (take l d) l pos = Ok (map2 xor (take l d) (segmentKey H e (eindex e)), pos)"
      using k l by (simp add: Transcrypt_def)
    ultimately have "transform_loop H rnd e d pos = Some (Ok (map2 xor (take l d) (segmentKey H e (eindex e)) @
        crypt H (e\<lparr>eindex := eindex e + 1\<rparr>) (drop l d), e', pos))"
      using False k(1) by (subst transform_loop.simps) (simp add: l_def [symmetric])
    then show ?thesis using crypt_step [OF k l_def] by auto
  qed
qed

lemma transform_total:
  assumes "\<And>x. length (H x) = HashSize" "keyLen e = HashSize"
  shows "\<exists>e' pos'. transform H rnd e d outLen pos = Some (Ok (crypt H e d @ rand_Read rnd pos (outLen - length d), e', pos'))"
  using transform_loop_crypt [where H = H and rnd = rnd and d = d and pos = pos, OF assms] by (auto simp: transform_def)

section \<open>Encrypting and decrypting a chunk\<close>

definition key_at :: "random \<Rightarrow> nat \<Rightarrow> bytes" where
  "key_at rnd pos = rand_Read rnd pos KeyLength"

lemma cipher_fields [simp]:
  "keyLen (newSpanEncryption key) = length key" "keyLen (newDataEncryption key) = length key"
  "epadding (newSpanEncryption key) = 0" "epadding (newDataEncryption key) = ChunkSize"
  by (simp_all add: newSpanEncryption_def newDataEncryption_def Encryption_New_def)

lemma EncryptChunk_ok:
  assumes "\<And>x. length (H x) = HashSize" "8 \<le> length d" "length d \<le> 8 + ChunkSize"
  shows "\<exists>pad pos'. EncryptChunk H rnd d pos = Ok (key_at rnd pos, crypt H (newSpanEncryption (key_at rnd pos)) (take 8 d),
    crypt H (newDataEncryption (key_at rnd pos)) (drop 8 d) @ pad, pos') \<and> length (drop 8 d @ pad) = ChunkSize"
proof -
  let ?k = "key_at rnd pos"
  define sp where "sp = take 8 d"
  define dt where "dt = drop 8 d"
  have len: "length sp = 8" "length dt \<le> ChunkSize" using assms(2,3) by (simp_all add: sp_def dt_def)
  have k: "keyLen (newSpanEncryption ?k) = HashSize" "keyLen (newDataEncryption ?k) = HashSize"
    by (simp_all add: key_at_def KeyLength_def HashSize_def)
  obtain e1 p1 where t1: "transform H rnd (newSpanEncryption ?k) sp 8 (pos + KeyLength) = Some (Ok (crypt H (newSpanEncryption ?k) sp, e1, p1))"
    using transform_total [where H = H and rnd = rnd and d = sp and outLen = 8 and pos = "pos + KeyLength", OF assms(1) k(1)] len(1) by auto
  obtain e2 p2 where t2: "transform H rnd (newDataEncryption ?k) dt ChunkSize p1 =
      Some (Ok (crypt H (newDataEncryption ?k) dt @ rand_Read rnd p1 (ChunkSize - length dt), e2, p2))"
    using transform_total [where H = H and rnd = rnd and d = dt and outLen = ChunkSize and pos = p1, OF assms(1) k(2)] by auto
  have "EncryptChunk H rnd d pos = Ok (?k, crypt H (newSpanEncryption ?k) sp,
      crypt H (newDataEncryption ?k) dt @ rand_Read rnd p1 (ChunkSize - length dt), p2)"
    unfolding EncryptChunk_def GenerateRandomKey_def key_at_def [symmetric] sp_def [symmetric] dt_def [symmetric]
    using t1 t2 len assms(2) by (simp add: Encrypt_def returning_def) (simp add: ChunkSize_def)
  then show ?thesis using len(2) unfolding sp_def [symmetric] dt_def [symmetric]
    by (intro exI [of _ "rand_Read rnd p1 (ChunkSize - length dt)"] exI [of _ p2]) simp
qed

lemma andthen_eq_Ok: "andthen r f = Ok y \<longleftrightarrow> (\<exists>x. r = Ok x \<and> f x = Ok y)"
  by (cases r) auto

lemma EncryptChunk_key: "EncryptChunk H rnd d pos = Ok (key, sp, c, pos') \<Longrightarrow> key = key_at rnd pos"
  by (auto simp: EncryptChunk_def GenerateRandomKey_def key_at_def andthen_eq_Ok split: if_splits)

lemma decrypt_ok:
  assumes "\<And>x. length (H x) = HashSize" "length key = HashSize" "length sp = 8" "length c = ChunkSize"
  shows "decrypt H (sp @ c) key = Ok (crypt H (newSpanEncryption key) sp, crypt H (newDataEncryption key) c)"
proof -
  obtain e1 p1 where "transform H (\<lambda>_. 0) (newSpanEncryption key) sp 8 0 = Some (Ok (crypt H (newSpanEncryption key) sp, e1, p1))"
    using transform_total [where H = H and rnd = "\<lambda>_. 0" and e = "newSpanEncryption key" and d = sp and outLen = 8 and pos = 0, OF assms(1)] assms(2,3)
    by auto
  moreover obtain e2 p2 where "transform H (\<lambda>_. 0) (newDataEncryption key) c ChunkSize 0 = Some (Ok (crypt H (newDataEncryption key) c, e2, p2))"
    using transform_total [where H = H and rnd = "\<lambda>_. 0" and e = "newDataEncryption key" and d = c and outLen = ChunkSize and pos = 0, OF assms(1)] assms(2,4)
    by auto
  ultimately show ?thesis using assms(3,4) by (simp add: decrypt_def Decrypt_def returning_def SpanSize_def)
qed

text \<open>The decrypting store keeps the bytes that its computation of the length finds.\<close>

lemma decrypt_encrypted:
  assumes "\<And>x. length (H x) = HashSize" "8 \<le> length d" "data_length (Uint64 d) = length d - 8" "length d \<le> 8 + ChunkSize"
    and "EncryptChunk H rnd d pos = Ok (key, sp, c, pos')"
  shows "length key = KeyLength \<and> length sp = 8 \<and> length c = ChunkSize \<and> decryptChunkData H (sp @ c) key = Ok d"
proof -
  obtain pad where e: "key = key_at rnd pos" "sp = crypt H (newSpanEncryption key) (take 8 d)"
      "c = crypt H (newDataEncryption key) (drop 8 d) @ pad" "length (drop 8 d @ pad) = ChunkSize"
    using EncryptChunk_ok [where H = H and rnd = rnd and pos = pos, OF assms(1,2,4)] assms(5) by auto
  have len: "length key = HashSize" "length sp = 8" "length c = ChunkSize" using e assms(2) by (simp_all add: key_at_def KeyLength_def HashSize_def)
  have "take (length d - 8) (crypt H (newDataEncryption key) c) = drop 8 d"
    using e(3) by (simp add: take_crypt)
  moreover have "crypt H (newSpanEncryption key) sp = take 8 d" using e(2) by simp
  ultimately have "decryptChunkData H (sp @ c) key = Ok d"
    using decrypt_ok [where H = H, OF assms(1) len] assms(2,3) e(4) by (simp add: decryptChunkData_def Let_def len(3) Uint64_def)
  then show ?thesis using len by (simp add: KeyLength_def HashSize_def)
qed

lemma data_length_small [simp]: "n \<le> ChunkSize \<Longrightarrow> data_length n = n"
  by (simp add: data_length.simps)

lemma data_length_step:
  assumes "262144 < n" "n < 2 ^ 63"
  shows "data_length n = data_length ((n + 262143) div 262144 * 64)"
proof -
  have "(n + 262143) div 262144 * 64 < 2 ^ 64" using assms(2) by simp
  then show ?thesis using assms by (subst data_length.simps) (simp add: ChunkSize_def HashSize_def KeyLength_def)
qed

lemma data_length_node:
  assumes m: "2 \<le> m" "m \<le> 4096"
  shows "(m - 1) * trie_size ChunkSize 4096 k < n \<Longrightarrow> n \<le> m * trie_size ChunkSize 4096 k \<Longrightarrow> n < 2 ^ 63 \<Longrightarrow> data_length n = m * 64"
proof (induction k arbitrary: n)
  case 0
  then have b: "(m - 1) * 262144 < n" "n \<le> m * 262144" by (simp_all add: trie_size_def ChunkSize_def)
  then have "262144 < n" "(n + 262143) div 262144 = m" using m by simp_all
  then show ?case using data_length_step [OF _ 0(3)] m by (simp add: ChunkSize_def)
next
  case (Suc k)
  define q where "q = (n + 262143) div 262144"
  define P :: nat where "P = 4096 ^ Suc k"
  have t: "trie_size ChunkSize 4096 (Suc k) = P * 262144" "trie_size ChunkSize 4096 k = 64 * P"
    by (simp_all add: trie_size_def ChunkSize_def P_def)
  have b: "(m - 1) * P * 262144 < n" "n \<le> m * P * 262144" using Suc(2,3) unfolding t by (simp_all add: mult.assoc)
  then have q: "(m - 1) * P < q" "q \<le> m * P" unfolding q_def by linarith+
  have "1 * 1 \<le> (m - 1) * P" by (rule mult_le_mono) (use m in \<open>simp_all add: P_def\<close>)
  then have n: "262144 < n" using b(1) by linarith
  have "data_length (q * 64) = m * 64"
  proof (rule Suc(1))
    show "(m - 1) * trie_size ChunkSize 4096 k < q * 64" "q * 64 \<le> m * trie_size ChunkSize 4096 k"
      unfolding t using q by (simp_all add: mult.left_commute [of _ 64] mult.commute [of _ 64])
    show "q * 64 < 2 ^ 63" using Suc(4) unfolding q_def by simp
  qed
  then show ?case using data_length_step [OF n Suc(4)] by (simp add: q_def)
qed

lemma chunk_shape_length:
  assumes "chunk_shape ChunkSize 4096 64 d"
  shows "8 \<le> length d \<and> length d \<le> 8 + ChunkSize \<and> data_length (Uint64 d) = length d - 8"
proof -
  consider (leaf) dat where "length dat \<le> ChunkSize" "d = chunk_of dat"
    | (node) n refs k m where "d = PutUint64 n @ refs" "2 \<le> m" "m \<le> 4096" "length refs = m * 64"
        "(m - 1) * trie_size ChunkSize 4096 k < n" "n \<le> m * trie_size ChunkSize 4096 k" "n < 2 ^ 63"
    using assms unfolding chunk_shape_def by blast
  then show ?thesis
  proof cases
    case leaf
    then have "length dat < 2 ^ 64" by (simp add: ChunkSize_def)
    then show ?thesis using leaf by (simp add: chunk_of_def Uint64_PutUint64)
  next
    case node
    then have "n < 2 ^ 64" by simp
    then show ?thesis using node data_length_node [OF node(2,3,5-7)] by (simp add: Uint64_PutUint64 ChunkSize_def)
  qed
qed

section \<open>The encrypting pipeline as a chunk store\<close>

definition enc_takes :: "(bytes \<Rightarrow> bytes) \<Rightarrow> bytes \<Rightarrow> bool" where
  "enc_takes H d \<longleftrightarrow> (\<forall>x. length (H x) = HashSize) \<and>
     8 \<le> length d \<and> length d \<le> 8 + ChunkSize \<and> data_length (Uint64 d) = length d - 8"

definition enc_load :: "(bytes \<Rightarrow> bytes) \<Rightarrow> 'k enc_log \<Rightarrow> bytes \<Rightarrow> bytes option" where
  "enc_load H s r = (case decryptingStore_Get H (store_getter (fst (fst s))) r 0 of Ok d \<Rightarrow> Some d | _ \<Rightarrow> None)"

lemma enc_ChainWrite_cases:
  assumes "enc_ChainWrite H rnd E mode root d s = Ok (r, s')"
  obtains key sp c ref where "EncryptChunk H rnd d (snd s) = Ok (key, sp, c, snd s')" "r = ref @ key"
    "bmt_ChainWrite H E mode root (sp @ c) (fst s) = Ok (ref, fst s')"
proof (cases "EncryptChunk H rnd d (snd s)")
  case (Ok x)
  obtain key sp c pos where x: "x = (key, sp, c, pos)" by (cases x) auto
  show thesis
  proof (cases "bmt_ChainWrite H E mode root (sp @ c) (fst s)")
    case (Ok y)
    then show thesis using that assms \<open>EncryptChunk H rnd d (snd s) = Ok x\<close> x by (cases y) (auto simp: enc_ChainWrite_def)
  qed (use assms Ok x in \<open>auto simp: enc_ChainWrite_def\<close>)
qed (use assms in \<open>auto simp: enc_ChainWrite_def\<close>)

lemma enc_load_plain: "length r = HashSize \<Longrightarrow> enc_load H s r = load_chunk (fst s) r"
  by (simp add: enc_load_def load_chunk_def decryptingStore_Get_def)

lemma enc_load_encrypted:
  "length r = ReferenceSize \<Longrightarrow> enc_load H s r =
     Option.bind (load_chunk (fst s) (take HashSize r)) (\<lambda>c. case decryptChunkData H c (drop HashSize r) of Ok d \<Rightarrow> Some d | _ \<Rightarrow> None)"
  by (simp add: enc_load_def load_chunk_def decryptingStore_Get_def ReferenceSize_def HashSize_def split: outcome.splits)

lemma enc_load_getter:
  assumes "enc_load H s r = Some d"
  shows "decryptingStore_Get H (store_getter (fst (fst s))) r ix = Ok d"
  using assms getter_index [of "fst (fst s)" _ ix]
  by (auto simp: enc_load_def decryptingStore_Get_def split: outcome.splits if_splits)

lemma enc_ChainWrite_total:
  assumes "enc_takes H d"
  shows "\<exists>r s'. enc_ChainWrite H rnd E ModePutUpload root d s = Ok (r, s')"
proof -
  have H: "\<And>x. length (H x) = HashSize" and d: "8 \<le> length d" "length d \<le> 8 + ChunkSize"
    using assms by (simp_all add: enc_takes_def)
  obtain key sp c pos where e: "EncryptChunk H rnd d (snd s) = Ok (key, sp, c, pos)" "length sp = 8"
    using EncryptChunk_ok [where H = H and rnd = rnd and pos = "snd s", OF H d] d by auto
  obtain ref s1 where "bmt_ChainWrite H E ModePutUpload root (sp @ c) (fst s) = Ok (ref, s1)"
    using lst.save_total [of "sp @ c" H E root "fst s"] e(2) by (auto simp: SpanSize_def)
  then show ?thesis using e(1) by (simp add: enc_ChainWrite_def)
qed

lemma enc_ChainWrite_load:
  assumes "enc_takes H d" "enc_ChainWrite H rnd E ModePutUpload root d s = Ok (r, s')" "no_collision H (fst s')"
  shows "length r = ReferenceSize \<and> enc_load H s' r = Some d"
proof -
  have H: "\<And>x. length (H x) = HashSize" and d: "8 \<le> length d" "data_length (Uint64 d) = length d - 8" "length d \<le> 8 + ChunkSize"
    using assms(1) by (simp_all add: enc_takes_def)
  obtain key sp c ref where e: "EncryptChunk H rnd d (snd s) = Ok (key, sp, c, snd s')" "r = ref @ key"
      "bmt_ChainWrite H E ModePutUpload root (sp @ c) (fst s) = Ok (ref, fst s')"
    using enc_ChainWrite_cases [OF assms(2)] .
  note k = decrypt_encrypted [where H = H, OF H d e(1)]
  have ref: "length ref = HashSize" using ChainWrite_stored(1) [OF e(3)] H by (simp add: bmt_address_def)
  have "load_chunk (fst s') ref = Some (sp @ c)"
    by (rule lst.save_load [OF _ e(3) assms(3)]) (use k in \<open>simp add: SpanSize_def\<close>)
  then show ?thesis using e(2) ref k by (simp add: enc_load_encrypted ReferenceSize_def HashSize_def KeyLength_def)
qed

lemma enc_load_keeps:
  assumes "\<And>x y. load_chunk (fst s) x = Some y \<Longrightarrow> load_chunk (fst s') x = Some y" "enc_load H s r = Some d"
  shows "enc_load H s' r = Some d"
proof -
  have "length r = HashSize \<or> length r = ReferenceSize"
    using assms(2) by (auto simp: enc_load_def decryptingStore_Get_def split: if_splits)
  then show ?thesis
    using assms by (auto simp: enc_load_plain enc_load_encrypted bind_eq_Some_conv)
qed

interpretation est: chunk_store "enc_ChainWrite H rnd E ModePutUpload root" "enc_load H" "\<lambda>s. no_collision H (fst s)" "enc_takes H"
  for H rnd E root
proof unfold_locales
  show "enc_load H s' x = Some y"
    if "enc_ChainWrite H rnd E ModePutUpload root d s = Ok (r, s')" "no_collision H (fst s')" "enc_load H s x = Some y"
    for d r x y and s s' :: "'k enc_log"
    by (rule enc_load_keeps [OF _ that(3)], rule enc_ChainWrite_cases [OF that(1)], rule lst.save_keeps [OF _ that(2)])
  show "no_collision H (fst s)" if "enc_ChainWrite H rnd E ModePutUpload root d s = Ok (r, s')" "no_collision H (fst s')"
    for d r and s s' :: "'k enc_log"
    by (rule enc_ChainWrite_cases [OF that(1)]) (rule no_collision_before [OF _ that(2)])
qed (use enc_ChainWrite_total enc_ChainWrite_load in blast)+

lemma encrypted_conf:
  assumes "\<And>x. length (H x) = HashSize"
  shows "trie_conf (enc_ChainWrite H rnd E ModePutUpload root) (enc_takes H) ChunkSize (nat (Branches div 2)) (HashSize + KeyLength)"
  unfolding trie_conf_def
proof (intro conjI allI impI)
  have n: "nat (Branches div 2) = 4096" "HashSize + KeyLength = 64" by (simp_all add: Branches_def HashSize_def KeyLength_def)
  show "enc_takes H d" if "chunk_shape ChunkSize (nat (Branches div 2)) (HashSize + KeyLength) d" for d
    using chunk_shape_length [OF that [unfolded n]] assms by (simp add: enc_takes_def)
  show "length r = HashSize + KeyLength" if "enc_ChainWrite H rnd E ModePutUpload root d s = Ok (r, s')" for d s r s'
  proof (rule enc_ChainWrite_cases [OF that])
    fix key sp c ref
    assume e: "EncryptChunk H rnd d (snd s) = Ok (key, sp, c, snd s')" "r = ref @ key"
      "bmt_ChainWrite H E ModePutUpload root (sp @ c) (fst s) = Ok (ref, fst s')"
    have "length key = KeyLength" using EncryptChunk_key [OF e(1)] by (simp add: key_at_def)
    moreover have "length ref = HashSize" using ChainWrite_stored(1) [OF e(3)] assms by (simp add: bmt_address_def)
    ultimately show ?thesis using e(2) by simp
  qed
qed (simp_all add: Branches_def HashSize_def KeyLength_def ChunkSize_def)

text \<open>
  C2. An encrypted file is read back with its reference. Take a hash function with 32-byte values, any stream of random bytes,
  a file of less than \<open>2 ^ 63\<close> bytes delivered in any pieces, a chunk store in any state and a context that is not
  canceled. The encrypting pipeline ends with a reference of 64 bytes, the address of the root and its key. Unless
  two of the chunks in the store have the same address, a joiner on that reference over the decrypting store
  gives the length of the file and its data, for every sequence of buffers and every order of the goroutines of a read.
\<close>

theorem encrypted_upload_download:
  fixes H :: "bytes \<Rightarrow> bytes" and s :: "'k enc_log"
  assumes "\<And>x. length (H x) = HashSize" "\<And>i. \<not> canceled i" "length (concat ds @ d) < 2 ^ 63"
  shows "\<exists>r h s'. encrypted_upload canceled H rnd E ModePutUpload root (reads_of ds d) s = Some (Ok (r, h, s')) \<and>
    length r = ReferenceSize \<and>
    (no_collision H (fst s') \<longrightarrow> reads_back (decryptingStore_Get H (store_getter (fst (fst s')))) r (concat ds @ d))"
proof -
  let ?b = "nat (Branches div 2)" and ?rs = "HashSize + KeyLength"
  have rs: "7 \<le> ?rs" "ReferenceSize = ?rs" "0 < ?rs" "2 \<le> ?b" "ChunkSize = ?rs * ?b"
    by (simp_all add: HashSize_def KeyLength_def ReferenceSize_def Branches_def ChunkSize_def)
  have "2 ^ 63 \<le> trie_size ChunkSize ?b 7" by (simp add: trie_size_def ChunkSize_def Branches_def)
  then have cap: "length (concat ds @ d) \<le> trie_size ChunkSize ?b 7" using assms(3) by linarith
  obtain r h s' where u: "encrypted_upload canceled H rnd E ModePutUpload root (reads_of ds d) s = Some (Ok (r, h, s'))" "length r = ?rs"
      "no_collision H (fst s') \<longrightarrow> (\<exists>k\<le>7. repr (enc_load H s') ChunkSize ?b ?rs k r (concat ds @ d))"
    unfolding encrypted_upload_def
    using est.FeedPipeline_ok [where canceled = canceled and s = s, OF encrypted_conf [where H = H and rnd = rnd and E = E and root = root, OF assms(1)]
      rs(1) assms(2) cap assms(3)] by blast
  have "no_collision H (fst s') \<longrightarrow> reads_back (decryptingStore_Get H (store_getter (fst (fst s')))) r (concat ds @ d)"
    using u(2,3) repr_reads_back [where getter = "decryptingStore_Get H (store_getter (fst (fst s')))" and ld = "enc_load H s'",
      OF rs(3-5) enc_load_getter _ _ assms(3)] by blast
  then show ?thesis using u(1,2) rs(2) by auto
qed

text \<open>
  C13. The span and the data of a chunk share a part of the key stream. The counter of the span starts at 4096, which is also the
  counter of the segment at byte 131072 of the data; so for every key and every hash function, the two ciphertexts of
  these eight bytes differ where the plaintexts differ.
\<close>

theorem span_keystream_reused:
  assumes "\<And>x. length (H x) = HashSize" "length d = 8 + ChunkSize" "EncryptChunk H rnd d pos = Ok (key, sp, c, pos')" "j < 8"
  shows "xor (sp ! j) (c ! (131072 + j)) = xor (d ! j) (d ! (8 + 131072 + j))"
proof -
  have d: "8 \<le> length d" "length d \<le> 8 + ChunkSize" using assms(2) by simp_all
  have e: "sp = crypt H (newSpanEncryption key) (take 8 d)" "c = crypt H (newDataEncryption key) (drop 8 d)" "length key = 32"
    using EncryptChunk_ok [where H = H and rnd = rnd and pos = pos, OF assms(1) d] assms(2,3)
    by (auto simp: key_at_def KeyLength_def)
  have "segmentKey H (newDataEncryption key) 4096 = segmentKey H (newSpanEncryption key) 0"
    by (simp add: segmentKey_def newDataEncryption_def newSpanEncryption_def Encryption_New_def ChunkSize_def HashSize_def KeyLength_def)
  moreover have "(131072 + j) div 32 = 4096" "(131072 + j) mod 32 = j" using assms(4) by (simp, presburger)
  then have "c ! (131072 + j) = xor (d ! (8 + 131072 + j)) (segmentKey H (newDataEncryption key) 4096 ! j)"
    "sp ! j = xor (d ! j) (segmentKey H (newSpanEncryption key) 0 ! j)"
    using assms(2,4) e by (simp_all add: nth_crypt ChunkSize_def newDataEncryption_def newSpanEncryption_def Encryption_New_def)
  moreover have "xor (xor a k) (xor b k) = xor a b" for a b k :: byte by (simp add: xor.assoc xor.commute xor.left_commute)
  ultimately show ?thesis by simp
qed

theorem encrypted_upload_download_witness:
  "\<exists>r h s'. encrypted_upload (\<lambda>_. False) const_hash (\<lambda>_. 5) some_env ModePutUpload ZeroAddress (reads_of [[1], [2]] [3]) ((fresh_db, []), 0) = Some (Ok (r, h, s')) \<and>
     reads_back (decryptingStore_Get const_hash (store_getter (fst (fst s')))) r [1, 2, 3]"
proof -
  let ?save = "enc_ChainWrite const_hash (\<lambda>_. 5) some_env ModePutUpload ZeroAddress :: bytes \<Rightarrow> unit enc_log \<Rightarrow> _"
  let ?b = "nat (Branches div 2)" and ?rs = "HashSize + KeyLength" and ?s = "((fresh_db, []), 0) :: unit enc_log"
  have len: "length (const_hash x) = HashSize" for x by (simp add: const_hash_def HashSize_def)
  have cs: "(0 :: nat) < ChunkSize" by (simp add: ChunkSize_def)
  have b: "leaf_blocks ChunkSize [1, 2, 3] = [[1, 2, 3] :: bytes]"
    by (simp add: leaf_blocks_def full_blocks.simps [of _ "[1, 2, 3]"] rest_block.simps [of _ "[1, 2, 3]"] ChunkSize_def)
  have sm: "length [1, 2, 3 :: byte] \<le> ChunkSize" by (simp add: ChunkSize_def)
  have rs: "7 \<le> ?rs" by (simp add: HashSize_def)
  obtain h s r h' where p: "?save (chunk_of [1, 2, 3]) ?s = Ok (r, s)"
      "pushes (pipeline_next ?save) (leaf_blocks ChunkSize [1, 2, 3]) (NewHashTrieWriter ChunkSize ?b ?rs, ?s) = Ok (h, s)"
      "trie_Sum ?save h s = Ok (r, h', s)"
    using est.pipeline_single [OF encrypted_conf [where H = const_hash and rnd = "\<lambda>_. 5" and E = some_env and root = ZeroAddress,
      OF len] rs b sm, of ?s] by blast
  obtain key sp c ref where "EncryptChunk const_hash (\<lambda>_. 5) (chunk_of [1, 2, 3]) (snd ?s) = Ok (key, sp, c, snd s)" "r = ref @ key"
      and e: "bmt_ChainWrite const_hash some_env ModePutUpload ZeroAddress (sp @ c) (fst ?s) = Ok (ref, fst s)"
    using enc_ChainWrite_cases [OF p(1)] .
  note w = ChainWrite_stored [OF e]
  have "stored (fst (fst s)) = [ref \<mapsto> sp @ c]" using w(3) by (simp add: stored_def fresh_db_def fun_eq_iff)
  then have "no_collision const_hash (fst s)" using w(1,2) by (auto simp: no_collision_def)
  moreover have "encrypted_upload (\<lambda>_. False) const_hash (\<lambda>_. 5) some_env ModePutUpload ZeroAddress (reads_of [[1], [2]] [3]) ?s = Some (Ok (r, h', s))"
    unfolding encrypted_upload_def FeedPipeline_pushes [where canceled = "\<lambda>_. False", OF _ cs, simplified] using p(2,3) by simp
  ultimately show ?thesis
    using encrypted_upload_download [where H = const_hash and canceled = "\<lambda>_. False" and ds = "[[1], [2]]" and d = "[3]" and E = some_env
      and rnd = "\<lambda>_. 5" and root = ZeroAddress and s = ?s, OF len] by auto
qed

theorem span_keystream_reused_witness:
  "\<exists>key sp c pos. EncryptChunk const_hash (\<lambda>_. 5) (replicate (8 + ChunkSize) 1) 0 = Ok (key, sp, c, pos) \<and> sp ! 3 = c ! 131075"
proof -
  let ?d = "replicate (8 + ChunkSize) 1 :: bytes"
  have len: "length (const_hash x) = HashSize" for x by (simp add: const_hash_def HashSize_def)
  have d: "length ?d = 8 + ChunkSize" "8 \<le> length ?d" "length ?d \<le> 8 + ChunkSize" by simp_all
  obtain key sp c pos where e: "EncryptChunk const_hash (\<lambda>_. 5) ?d 0 = Ok (key, sp, c, pos)"
    using EncryptChunk_ok [where H = const_hash and rnd = "\<lambda>_. 5" and pos = 0, OF len d(2,3)] by blast
  have "xor (sp ! 3) (c ! 131075) = xor (?d ! 3) (?d ! 131083)"
    using span_keystream_reused [where H = const_hash, OF len d(1) e, of 3] by simp
  moreover have "?d ! 3 = 1" "?d ! 131083 = 1" by (rule nth_replicate, simp add: ChunkSize_def)+
  ultimately have "xor (sp ! 3) (c ! 131075) = 0" by simp
  moreover have "sp ! 3 = xor (xor (sp ! 3) (c ! 131075)) (c ! 131075)" by (simp add: xor.assoc)
  ultimately have "sp ! 3 = c ! 131075" by simp
  then show ?thesis using e by auto
qed

end
