(* ===== verification/Spec2Isabelle.thy ===== *)
theory Spec2Isabelle
  imports PSlice BitVector Breaker Blocker Blocklist Reacher Kademlia RouteTable KadManage Container FilePipeline LocalGc Encryption
begin

text \<open>A verification library for FavorX.\<close>

end
